(* ===== verification/Prelude.thy ===== *)
theory Prelude
  imports Main "HOL-Library.Word" "HOL-Library.Multiset"
begin

text \<open>
  The vocabulary every component shares: the outcome of running a piece of C (a value or a
  fault), unsigned 64-bit arithmetic on \<open>nat\<close> with the wrap-around written out, little-endian
  integers as byte lists, and cutting a byte list into records of one size.  The automation of
  the development hangs on the collections declared here: \<open>run_simps\<close> executes straight-line
  code, \<open>wrap_simps\<close> removes wrap-arounds that cannot happen.
\<close>

named_theorems run_simps \<open>equations that execute one step of the model\<close>
named_theorems wrap_simps \<open>64-bit operations where no wrap-around happens\<close>

section \<open>Outcomes\<close>

text \<open>
  A fault is an execution that does not continue normally: an access outside the object a
  pointer points into, a dereferenced null pointer, \<^verbatim>\<open>memcpy\<close> between regions that partly
  overlap, pointer arithmetic across objects, integer division by zero, a string that is not
  terminated inside its array, a handle closed twice, a signed sum that overflows, a wait for
  data that never comes, a write into a string literal, \<^verbatim>\<open>die\<close>, or a loop that used up its fuel.
\<close>

datatype fault =
    OutOfBounds | NullDeref | Overlap | WildPointer | DivByZero | Unterminated | UseAfterFree
  | DoubleClose | IntOverflow | Blocked | ReadOnly | Died string | OutOfFuel

type_synonym 'a res = "fault + 'a"

definition bindR :: "'a res \<Rightarrow> ('a \<Rightarrow> 'b res) \<Rightarrow> 'b res" where
  "bindR m f = (case m of Inl e \<Rightarrow> Inl e | Inr x \<Rightarrow> f x)"

lemma bindR_Inr [simp, run_simps]: "bindR (Inr x) f = f x"
  by (simp add: bindR_def)

lemma bindR_Inl [simp, run_simps]: "bindR (Inl e) f = Inl e"
  by (simp add: bindR_def)

lemma bindR_eq_Inr_iff: "bindR m f = Inr y \<longleftrightarrow> (\<exists>x. m = Inr x \<and> f x = Inr y)"
  by (cases m) auto

lemma bindR_InrE:
  assumes "bindR m f = Inr y"
  obtains x where "m = Inr x" and "f x = Inr y"
  using assms by (auto simp: bindR_eq_Inr_iff)

lemma bindR_assoc: "bindR (bindR m f) g = bindR m (\<lambda>x. bindR (f x) g)"
  by (cases m) auto

lemma bindR_cong [fundef_cong]:
  assumes "m = m'" and "\<And>x. m' = Inr x \<Longrightarrow> f x = f' x"
  shows "bindR m f = bindR m' f'"
  using assms by (cases m') auto

section \<open>Unsigned machine integers\<close>

definition u32 :: "nat \<Rightarrow> nat" where
  "u32 n = n mod 2 ^ 32"

definition u64 :: "nat \<Rightarrow> nat" where
  "u64 n = n mod 2 ^ 64"

text \<open>C's unsigned subtraction: it wraps where \<open>nat\<close> subtraction would stop at 0.\<close>

definition u64_sub :: "nat \<Rightarrow> nat \<Rightarrow> nat" where
  "u64_sub a b = nat ((int a - int b) mod 2 ^ 64)"

lemma u64_id [wrap_simps]: "n < 2 ^ 64 \<Longrightarrow> u64 n = n"
  by (simp add: u64_def)

lemma u32_id [wrap_simps]: "n < 2 ^ 32 \<Longrightarrow> u32 n = n"
  by (simp add: u32_def)

lemma u64_less [simp]: "u64 n < 2 ^ 64"
  by (simp add: u64_def)

lemma u32_less [simp]: "u32 n < 2 ^ 32"
  by (simp add: u32_def)

lemma u64_le: "u64 n \<le> n"
  by (simp add: u64_def)

lemma u64_0 [simp]: "u64 0 = 0"
  by (simp add: u64_def)

lemma u64_sub_le [wrap_simps]: "b \<le> a \<Longrightarrow> a < 2 ^ 64 \<Longrightarrow> u64_sub a b = a - b"
  by (simp add: u64_sub_def mod_pos_pos_trivial nat_diff_distrib)

lemma u64_sub_less [simp]: "u64_sub a b < 2 ^ 64"
  by (simp add: u64_sub_def nat_less_iff)

lemma nat_int_diff: "nat (int a - int b) = a - b"
  by arith

section \<open>Bytes and little-endian integers\<close>

type_synonym byte = "8 word"
type_synonym bytes = "byte list"
type_synonym timestamp = "64 word"

text \<open>
  \<open>le_enc n x\<close> is the \<open>n\<close>-byte little-endian representation of \<open>x\<close>, as the structs the
  program overlays on memory store their fields; \<open>le_dec\<close> reads one back.
\<close>

primrec le_enc :: "nat \<Rightarrow> nat \<Rightarrow> bytes" where
  "le_enc 0 x = []"
| "le_enc (Suc n) x = word_of_nat x # le_enc n (x div 256)"

primrec le_dec :: "bytes \<Rightarrow> nat" where
  "le_dec [] = 0"
| "le_dec (b # bs) = unat b + 256 * le_dec bs"

lemma length_le_enc [simp]: "length (le_enc n x) = n"
  by (induction n arbitrary: x) auto

lemma unat_byte_less: "unat (b :: byte) < 256"
  using unsigned_less [of b, where ?'a = nat] by simp

lemma le_dec_less: "le_dec bs < 256 ^ length bs"
proof (induction bs)
  case (Cons b bs)
  have "unat b < 256" by (rule unat_byte_less)
  with Cons show ?case by simp
qed simp

lemma le_dec_enc: "le_dec (le_enc n x) = x mod 256 ^ n"
proof (induction n arbitrary: x)
  case (Suc n)
  have "unat (word_of_nat x :: byte) = x mod 256" by (simp add: unat_of_nat)
  with Suc show ?case by (simp add: mod_mult2_eq)
qed simp

lemma le_enc_dec: "n = length bs \<Longrightarrow> le_enc n (le_dec bs) = bs"
proof (induction bs arbitrary: n)
  case (Cons b bs)
  have "unat b < 256" by (rule unat_byte_less)
  moreover have "(word_of_nat (unat b + 256 * le_dec bs) :: byte) = word_of_nat (unat b)"
    by (simp only: word_of_nat_eq_iff take_bit_eq_mod) simp
  ultimately show ?case using Cons by simp
qed simp

lemma le_dec_ones: "le_dec (replicate n 255) = 256 ^ n - 1"
proof (induction n)
  case (Suc n)
  have "(1 :: nat) \<le> 256 ^ n" by simp
  with Suc show ?case by (simp add: diff_mult_distrib2)
qed simp

text \<open>The fixed-width codec interface: what a client of an encoded field may rely on.\<close>

locale fixed_codec =
  fixes width :: nat
    and bound :: nat
    and enc :: "nat \<Rightarrow> bytes"
    and dec :: "bytes \<Rightarrow> nat"
  assumes enc_length: "length (enc x) = width"
    and dec_enc: "x < bound \<Longrightarrow> dec (enc x) = x"
    and enc_dec: "length bs = width \<Longrightarrow> enc (dec bs) = bs"
    and dec_bound: "length bs = width \<Longrightarrow> dec bs < bound"
begin

lemma enc_inj: "x < bound \<Longrightarrow> y < bound \<Longrightarrow> enc x = enc y \<Longrightarrow> x = y"
  by (metis dec_enc)

lemma dec_inj: "length bs = width \<Longrightarrow> length cs = width \<Longrightarrow> dec bs = dec cs \<Longrightarrow> bs = cs"
  by (metis enc_dec)

lemma dec_take_enc [simp]: "x < bound \<Longrightarrow> dec (take width (enc x @ rest)) = x"
  by (simp add: enc_length dec_enc)

end

lemma le_codec: "0 < n \<Longrightarrow> fixed_codec n (256 ^ n) (le_enc n) le_dec"
  using le_dec_less by unfold_locales (auto simp: le_dec_enc le_enc_dec)

interpretation le1: fixed_codec 1 "2 ^ 8" "le_enc 1" le_dec
  using le_codec [of 1] by simp

interpretation le4: fixed_codec 4 "2 ^ 32" "le_enc 4" le_dec
  using le_codec [of 4] by simp

interpretation le8: fixed_codec 8 "2 ^ 64" "le_enc 8" le_dec
  using le_codec [of 8] by simp

section \<open>Records of one size\<close>

text \<open>
  The program keeps arrays of points as consecutive records of \<open>ps\<close> bytes.  \<open>chunks ps\<close> cuts
  a byte list into such records, \<open>all_len ps\<close> says that every element of a list is one.
\<close>

fun chunks :: "nat \<Rightarrow> 'a list \<Rightarrow> 'a list list" where
  "chunks n xs = (if n = 0 \<or> xs = [] then [] else take n xs # chunks n (drop n xs))"

declare chunks.simps [simp del]

definition all_len :: "nat \<Rightarrow> 'a list list \<Rightarrow> bool" where
  "all_len n cs \<longleftrightarrow> (\<forall>c\<in>set cs. length c = n)"

lemma all_len_simps [simp]:
  "all_len n []"
  "all_len n (c # cs) \<longleftrightarrow> length c = n \<and> all_len n cs"
  "all_len n (cs @ ds) \<longleftrightarrow> all_len n cs \<and> all_len n ds"
  by (auto simp: all_len_def)

lemma all_len_take [simp]: "all_len n cs \<Longrightarrow> all_len n (take k cs)"
  by (auto simp: all_len_def dest: in_set_takeD)

lemma all_len_drop [simp]: "all_len n cs \<Longrightarrow> all_len n (drop k cs)"
  by (auto simp: all_len_def dest: in_set_dropD)

lemma all_len_nth [simp]: "all_len n cs \<Longrightarrow> i < length cs \<Longrightarrow> length (cs ! i) = n"
  by (auto simp: all_len_def)

lemma all_len_update [simp]: "all_len n cs \<Longrightarrow> length c = n \<Longrightarrow> all_len n (cs[i := c])"
  by (auto simp: all_len_def dest!: set_update_subset_insert [THEN subsetD])

lemma all_len_subset: "set ds \<subseteq> set cs \<Longrightarrow> all_len n cs \<Longrightarrow> all_len n ds"
  by (auto simp: all_len_def)

lemma all_len_mset: "mset ds = mset cs \<Longrightarrow> all_len n ds = all_len n cs"
  by (metis all_len_def set_mset_mset)

lemma length_concat_all_len [simp]: "all_len n cs \<Longrightarrow> length (concat cs) = length cs * n"
  by (induction cs) auto

lemma take_concat: "all_len n cs \<Longrightarrow> take (k * n) (concat cs) = concat (take k cs)"
proof (induction cs arbitrary: k)
  case (Cons c cs)
  then show ?case by (cases k) auto
qed simp

lemma drop_concat: "all_len n cs \<Longrightarrow> drop (k * n) (concat cs) = concat (drop k cs)"
proof (induction cs arbitrary: k)
  case (Cons c cs)
  then show ?case by (cases k) auto
qed simp

lemma chunks_Nil [simp]: "chunks n [] = []"
  by (simp add: chunks.simps)

lemma chunks_concat [simp]: "0 < n \<Longrightarrow> all_len n cs \<Longrightarrow> chunks n (concat cs) = cs"
proof (induction cs)
  case (Cons c cs)
  then have "c \<noteq> []" by auto
  with Cons show ?case by (simp add: chunks.simps [of n "c @ concat cs"])
qed simp

lemma concat_chunks: "0 < n \<Longrightarrow> concat (chunks n xs) = xs"
proof (induction n xs rule: chunks.induct)
  case (1 n xs)
  then show ?case by (cases "xs = []") (simp_all add: chunks.simps [of n xs])
qed

lemma in_chunks: "c \<in> set (chunks n xs) \<Longrightarrow> 1 \<le> n \<Longrightarrow> c \<noteq> [] \<and> length c \<le> n"
proof (induction n xs rule: chunks.induct)
  case (1 n xs)
  show ?case
  proof (cases "xs = []")
    case False
    with 1 show ?thesis by (auto simp: chunks.simps [of n xs])
  qed (use 1 in simp)
qed

lemma all_len_chunks: "length xs = k * n \<Longrightarrow> all_len n (chunks n xs)"
proof (induction n xs arbitrary: k rule: chunks.induct)
  case (1 n xs)
  show ?case
  proof (cases "n = 0 \<or> xs = []")
    case False
    with 1 obtain j where j: "k = Suc j" by (cases k) auto
    with 1 False have "all_len n (chunks n (drop n xs))" by (intro "1.IH" [of j]) auto
    with False j "1.prems" show ?thesis by (simp add: chunks.simps [of n xs])
  qed (auto simp: chunks.simps [of n xs])
qed

lemma length_chunks: "0 < n \<Longrightarrow> length xs = k * n \<Longrightarrow> length (chunks n xs) = k"
  by (metis all_len_chunks concat_chunks length_concat_all_len mult_cancel2 not_gr_zero)

end
