(* ===== verification/Memory.thy ===== *)
theory Memory
  imports Prelude
begin

text \<open>
  Pointers and the memory they point into.  Every array the program walks lives in one object
  (a mapped file, a client's receive buffer, a \<^verbatim>\<open>calloc\<close> block), modelled by its bytes; a pointer
  into it is a signed byte offset, so that the one-before-the-start pointer of
  \<^verbatim>\<open>data_point_non_zero_distinct\<close> exists, and every access is checked against the object's size.
\<close>

section \<open>Pointers\<close>

datatype ptr = Null | Ptr int

text \<open>Pointers compare by address; the null pointer is below every pointer into an object.\<close>

instantiation ptr :: linorder
begin

fun less_eq_ptr :: "ptr \<Rightarrow> ptr \<Rightarrow> bool" where
  "less_eq_ptr Null q \<longleftrightarrow> True"
| "less_eq_ptr (Ptr a) Null \<longleftrightarrow> False"
| "less_eq_ptr (Ptr a) (Ptr b) \<longleftrightarrow> a \<le> b"

definition less_ptr :: "ptr \<Rightarrow> ptr \<Rightarrow> bool" where
  "less_ptr p q \<longleftrightarrow> p \<le> q \<and> \<not> q \<le> (p :: ptr)"

instance
proof
  fix p q r :: ptr
  show "p < q \<longleftrightarrow> p \<le> q \<and> \<not> q \<le> p" by (rule less_ptr_def)
  show "p \<le> p" by (cases p) auto
  show "p \<le> q \<Longrightarrow> q \<le> r \<Longrightarrow> p \<le> r" by (cases p; cases q; cases r) auto
  show "p \<le> q \<Longrightarrow> q \<le> p \<Longrightarrow> p = q" by (cases p; cases q) auto
  show "p \<le> q \<or> q \<le> p" by (cases p; cases q) auto
qed

end

lemma Ptr_less [simp]: "Ptr a < Ptr b \<longleftrightarrow> a < b"
  by (auto simp: less_ptr_def)

fun ptr_add :: "ptr \<Rightarrow> int \<Rightarrow> ptr" where
  "ptr_add Null k = Null"
| "ptr_add (Ptr a) k = Ptr (a + k)"

text \<open>The difference of two pointers is defined only inside one object.\<close>

fun ptr_diff :: "ptr \<Rightarrow> ptr \<Rightarrow> int res" where
  "ptr_diff Null Null = Inr 0"
| "ptr_diff (Ptr a) (Ptr b) = Inr (a - b)"
| "ptr_diff _ _ = Inl WildPointer"

section \<open>Access\<close>

definition load :: "bytes \<Rightarrow> ptr \<Rightarrow> nat \<Rightarrow> bytes res" where
  "load m p n =
     (if n = 0 then Inr []
      else case p of
        Null \<Rightarrow> Inl NullDeref
      | Ptr a \<Rightarrow> if 0 \<le> a \<and> nat a + n \<le> length m then Inr (take n (drop (nat a) m))
                 else Inl OutOfBounds)"

definition store :: "bytes \<Rightarrow> ptr \<Rightarrow> bytes \<Rightarrow> bytes res" where
  "store m p bs =
     (if bs = [] then Inr m
      else case p of
        Null \<Rightarrow> Inl NullDeref
      | Ptr a \<Rightarrow> if 0 \<le> a \<and> nat a + length bs \<le> length m
                 then Inr (take (nat a) m @ bs @ drop (nat a + length bs) m)
                 else Inl OutOfBounds)"

text \<open>
  \<^verbatim>\<open>memmove\<close> and \<^verbatim>\<open>memcpy\<close> inside one object, and a copy between two objects.  \<^verbatim>\<open>memcpy\<close> of a
  region onto itself is the identity, as every implementation has it; a partial overlap is a
  fault.
\<close>

definition memmove :: "bytes \<Rightarrow> ptr \<Rightarrow> ptr \<Rightarrow> nat \<Rightarrow> bytes res" where
  "memmove m d s n = bindR (load m s n) (store m d)"

definition copy_between :: "bytes \<Rightarrow> ptr \<Rightarrow> bytes \<Rightarrow> ptr \<Rightarrow> nat \<Rightarrow> bytes res" where
  "copy_between dm d sm s n = bindR (load sm s n) (store dm d)"

fun overlap :: "ptr \<Rightarrow> ptr \<Rightarrow> nat \<Rightarrow> bool" where
  "overlap (Ptr a) (Ptr b) n \<longleftrightarrow> a \<noteq> b \<and> \<bar>a - b\<bar> < int n"
| "overlap _ _ n \<longleftrightarrow> False"

definition memcpy :: "bytes \<Rightarrow> ptr \<Rightarrow> ptr \<Rightarrow> nat \<Rightarrow> bytes res" where
  "memcpy m d s n = (if overlap d s n then Inl Overlap else memmove m d s n)"

section \<open>Arrays of records inside an object\<close>

lemma load_take: "load m p n = Inr bs \<Longrightarrow> k \<le> n \<Longrightarrow> load m p k = Inr (take k bs)"
  by (auto simp: load_def min_absorb1 split: if_splits ptr.splits)

lemma load_drop: "load m p n = Inr bs \<Longrightarrow> k \<le> n \<Longrightarrow> load m (ptr_add p (int k)) (n - k) = Inr (drop k bs)"
proof -
  assume l: "load m p n = Inr bs" and k: "k \<le> n"
  show ?thesis
  proof (cases "n = 0")
    case False
    with l obtain a where a: "p = Ptr a" "0 \<le> a" "nat a + n \<le> length m" "bs = take n (drop (nat a) m)"
      by (auto simp: load_def split: if_splits ptr.splits)
    have e: "nat (a + int k) = k + nat a" using a(2) by (simp add: nat_add_distrib)
    have "drop k bs = take (n - k) (drop (k + nat a) m)" using a(4) by (simp add: drop_take)
    then show ?thesis using a k e by (simp add: load_def)
  qed (use l k in \<open>simp add: load_def\<close>)
qed

lemma load_length: "load m p n = Inr bs \<Longrightarrow> length bs = n"
  by (auto simp: load_def split: if_splits ptr.splits)

lemma store_length: "store m p bs = Inr m' \<Longrightarrow> length m' = length m"
  by (auto simp: store_def split: if_splits ptr.splits)

text \<open>
  An object is written \<open>pre @ concat cs @ post\<close>, with \<open>cs\<close> the records of an array that starts
  at offset \<open>length pre\<close>.
\<close>

definition elem :: "nat \<Rightarrow> nat \<Rightarrow> nat \<Rightarrow> ptr" where
  "elem a ps i = Ptr (int a + int i * int ps)"

lemma elem_0 [simp]: "elem a ps 0 = Ptr (int a)"
  by (simp add: elem_def)

lemma elem_eq_iff [simp]: "0 < ps \<Longrightarrow> elem a ps i = elem a ps j \<longleftrightarrow> i = j"
  by (simp add: elem_def)

lemma elem_less_iff [simp]: "0 < ps \<Longrightarrow> elem a ps i < elem a ps j \<longleftrightarrow> i < j"
  by (simp add: elem_def)

lemma elem_add [simp]: "ptr_add (elem a ps i) (int ps) = elem a ps (Suc i)"
  by (simp add: elem_def algebra_simps)

lemma load_records:
  assumes "all_len ps cs" and "i + n \<le> length cs"
  shows "load (pre @ concat cs @ post) (elem (length pre) ps i) (n * ps)
         = Inr (concat (take n (drop i cs)))"
proof -
  have eq: "nat (int (length pre) + int i * int ps) = length pre + i * ps"
    by (metis nat_int of_nat_add of_nat_mult)
  have "i * ps + n * ps \<le> length cs * ps"
    using assms(2) by (metis add_mult_distrib mult_le_mono1)
  moreover have "take (n * ps) (drop (i * ps) (concat cs @ post)) = concat (take n (drop i cs))"
    using assms calculation
    by (simp add: drop_concat take_concat length_concat_all_len [OF all_len_drop] diff_mult_distrib)
  ultimately show ?thesis using assms by (auto simp: load_def elem_def eq)
qed

lemma store_records:
  assumes "all_len ps cs" and "all_len ps ds" and "i + length ds \<le> length cs"
  shows "store (pre @ concat cs @ post) (elem (length pre) ps i) (concat ds)
         = Inr (pre @ concat (take i cs @ ds @ drop (i + length ds) cs) @ post)"
proof (cases "concat ds = []")
  case True
  show ?thesis
  proof (cases "ps = 0")
    case True
    with assms have "concat cs = []" "concat (take i cs @ ds @ drop (i + length ds) cs) = []"
      by (auto simp: all_len_def dest: in_set_takeD in_set_dropD)
    with \<open>concat ds = []\<close> show ?thesis by (simp only: store_def append_Nil if_True refl)
  next
    case False
    with \<open>concat ds = []\<close> assms have "ds = []" by (cases ds) auto
    then show ?thesis by (simp add: store_def flip: concat_append)
  qed
next
  case False
  have eq: "nat (int (length pre) + int i * int ps) = length pre + i * ps"
    by (metis nat_int of_nat_add of_nat_mult)
  have le: "i * ps + length ds * ps \<le> length cs * ps"
    using assms(3) by (metis add_mult_distrib mult_le_mono1)
  have t: "take (i * ps) (concat cs @ post) = concat (take i cs)"
    using assms le by (simp add: take_concat)
  have d: "drop ((i + length ds) * ps) (concat cs @ post) = concat (drop (i + length ds) cs) @ post"
    using assms le by (simp only: drop_append drop_concat) (simp add: add_mult_distrib)
  show ?thesis
    using False assms le t d by (auto simp: store_def elem_def eq add_mult_distrib)
qed

lemma load_record:
  assumes "all_len ps cs" and "i < length cs"
  shows "load (pre @ concat cs @ post) (elem (length pre) ps i) ps = Inr (cs ! i)"
  using load_records [OF assms(1), of i 1] assms by (simp add: take_Suc_conv_app_nth hd_drop_conv_nth take_Suc)

lemma store_record:
  assumes "all_len ps cs" and "i < length cs" and "length c = ps"
  shows "store (pre @ concat cs @ post) (elem (length pre) ps i) c
         = Inr (pre @ concat (cs[i := c]) @ post)"
  using store_records [OF assms(1), of "[c]" i] assms by (simp add: upd_conv_take_nth_drop)

lemma copy_record:
  assumes "all_len ps cs" and "i < length cs" and "j < length cs"
  shows "memcpy (pre @ concat cs @ post) (elem (length pre) ps i) (elem (length pre) ps j) ps
         = Inr (pre @ concat (cs[i := cs ! j]) @ post)"
proof -
  have "\<not> overlap (elem (length pre) ps i) (elem (length pre) ps j) ps"
  proof (cases i j rule: linorder_cases)
    case less
    then have "Suc i * ps \<le> j * ps" by (intro mult_le_mono1) simp
    then have "int i * int ps + int ps \<le> int j * int ps"
      by (metis add.commute mult_Suc of_nat_add of_nat_le_iff of_nat_mult)
    then show ?thesis by (simp add: elem_def)
  next
    case greater
    then have "Suc j * ps \<le> i * ps" by (intro mult_le_mono1) simp
    then have "int j * int ps + int ps \<le> int i * int ps"
      by (metis add.commute mult_Suc of_nat_add of_nat_le_iff of_nat_mult)
    then show ?thesis by (simp add: elem_def)
  qed (simp add: elem_def)
  with assms show ?thesis by (simp add: memcpy_def memmove_def load_record store_record)
qed

end
