(* ===== verification/Platform.thy ===== *)
theory Platform
  imports Memory
begin

text \<open>
  What the program takes from its surroundings.  The record \<open>platform\<close> collects the build-time
  constants that the headers guard with \<^verbatim>\<open>#ifndef\<close> and the library and system calls whose
  outcome C and POSIX leave open: the order in which \<^verbatim>\<open>qsort\<close> leaves equal elements, whether
  \<^verbatim>\<open>fopen\<close>, \<^verbatim>\<open>opendir\<close>, \<^verbatim>\<open>mmap\<close> and \<^verbatim>\<open>msync\<close> succeed, how many bytes \<^verbatim>\<open>fwrite\<close> takes, and where
  the position of a stream opened with \<^verbatim>\<open>"a+"\<close> starts.  The definitions take a platform as their
  first argument; \<open>platform_ok\<close> names what the theorems assume of it.
\<close>

record platform =
  qsort :: "(bytes \<Rightarrow> bytes \<Rightarrow> int) \<Rightarrow> bytes list \<Rightarrow> bytes list"
  fopen_ok :: "string \<Rightarrow> bool"
  append_pos :: "nat \<Rightarrow> nat"
  fwrite_count :: "nat \<Rightarrow> nat"
  mmap_ok :: "nat \<Rightarrow> bool"
  msync_ok :: bool
  opendir_ok :: "string \<Rightarrow> bool"
  file_grow_increment :: nat

section \<open>The contract of qsort\<close>

text \<open>
  A comparison function \<^verbatim>\<open>qsort\<close> accepts: its sign orders the elements, consistently.  The
  standard then promises a permutation in ascending order, and nothing about equal elements.
\<close>

definition cmp_order :: "('a \<Rightarrow> 'a \<Rightarrow> int) \<Rightarrow> bool" where
  "cmp_order cmp \<longleftrightarrow>
     (\<forall>a b. cmp a b \<le> 0 \<or> cmp b a \<le> 0) \<and>
     (\<forall>a b c. cmp a b \<le> 0 \<longrightarrow> cmp b c \<le> 0 \<longrightarrow> cmp a c \<le> 0)"

locale c_qsort =
  fixes qs :: "(bytes \<Rightarrow> bytes \<Rightarrow> int) \<Rightarrow> bytes list \<Rightarrow> bytes list"
  assumes qs_perm: "cmp_order cmp \<Longrightarrow> mset (qs cmp cs) = mset cs"
    and qs_ascending: "cmp_order cmp \<Longrightarrow> sorted_wrt (\<lambda>a b. cmp a b \<le> 0) (qs cmp cs)"
begin

lemma qs_set: "cmp_order cmp \<Longrightarrow> set (qs cmp cs) = set cs"
  by (metis qs_perm set_mset_mset)

lemma qs_length: "cmp_order cmp \<Longrightarrow> length (qs cmp cs) = length cs"
  by (metis qs_perm size_mset)

lemma qs_all_len: "cmp_order cmp \<Longrightarrow> all_len n (qs cmp cs) = all_len n cs"
  by (rule all_len_mset) (rule qs_perm)

end

text \<open>
  A stable insertion sort meets the contract; glibc's merge sort returns the same lists, since
  a stable ascending permutation is unique.
\<close>

fun insert_by :: "('a \<Rightarrow> 'a \<Rightarrow> int) \<Rightarrow> 'a \<Rightarrow> 'a list \<Rightarrow> 'a list" where
  "insert_by cmp x [] = [x]"
| "insert_by cmp x (y # ys) = (if cmp x y \<le> 0 then x # y # ys else y # insert_by cmp x ys)"

fun sort_by :: "('a \<Rightarrow> 'a \<Rightarrow> int) \<Rightarrow> 'a list \<Rightarrow> 'a list" where
  "sort_by cmp [] = []"
| "sort_by cmp (x # xs) = insert_by cmp x (sort_by cmp xs)"

lemma mset_insert_by [simp]: "mset (insert_by cmp x xs) = add_mset x (mset xs)"
  by (induction xs) auto

lemma mset_sort_by [simp]: "mset (sort_by cmp xs) = mset xs"
  by (induction xs) auto

lemma set_insert_by [simp]: "set (insert_by cmp x xs) = insert x (set xs)"
  by (induction xs) auto

lemma insert_by_ascending:
  assumes "cmp_order cmp" and "sorted_wrt (\<lambda>a b. cmp a b \<le> 0) xs"
  shows "sorted_wrt (\<lambda>a b. cmp a b \<le> 0) (insert_by cmp x xs)"
  using assms(2)
proof (induction xs)
  case (Cons y ys)
  then show ?case using assms(1) by (auto simp: cmp_order_def)
qed simp

lemma sort_by_ascending: "cmp_order cmp \<Longrightarrow> sorted_wrt (\<lambda>a b. cmp a b \<le> 0) (sort_by cmp xs)"
  by (induction xs) (auto intro: insert_by_ascending)

interpretation stable: c_qsort sort_by
  by unfold_locales (auto intro: sort_by_ascending)

section \<open>A platform that works\<close>

text \<open>
  The platform the program is written for: \<^verbatim>\<open>qsort\<close> sorts, no call fails, no write is short,
  and a stream opened for appending starts at the end of the file.
\<close>

definition platform_ok :: "'a platform_scheme \<Rightarrow> bool" where
  "platform_ok P \<longleftrightarrow>
     c_qsort (qsort P) \<and> (\<forall>f. fopen_ok P f) \<and> (\<forall>n. append_pos P n = n) \<and>
     (\<forall>n. fwrite_count P n = n) \<and> (\<forall>n. mmap_ok P n) \<and> msync_ok P \<and>
     (\<forall>d. opendir_ok P d)"

text \<open>The same with the increment chosen, for evaluating the model on small files.\<close>

definition posix :: "nat \<Rightarrow> platform" where
  "posix inc = \<lparr>qsort = sort_by, fopen_ok = (\<lambda>_. True), append_pos = (\<lambda>n. n),
     fwrite_count = (\<lambda>n. n), mmap_ok = (\<lambda>_. True), msync_ok = True,
     opendir_ok = (\<lambda>_. True), file_grow_increment = inc\<rparr>"

lemma platform_ok_posix [simp]: "platform_ok (posix inc)"
  using stable.c_qsort_axioms by (simp add: platform_ok_def posix_def)

lemma platform_ok_qsort: "platform_ok P \<Longrightarrow> c_qsort (qsort P)"
  by (simp add: platform_ok_def)

end
