(* ===== verification/Common.thy ===== *)
theory Common
  imports Platform
begin

text \<open>
  \<^verbatim>\<open>src/common.h\<close> and \<^verbatim>\<open>src/common.c\<close>: allocation, minimum and maximum, \<^verbatim>\<open>die\<close> and the assertion,
  and the C string operations the rest of the program uses (bounded copies, \<^verbatim>\<open>%d\<close>).
\<close>

definition SDB_STR_MAX_LEN :: nat where
  "SDB_STR_MAX_LEN = 1024"

definition SDB_DATA_SERIES_MAX :: nat where
  "SDB_DATA_SERIES_MAX = 2 ^ 20"

text \<open>\<^verbatim>\<open>calloc(1, size)\<close>: a new object of zero bytes.\<close>

definition sdb_alloc :: "nat \<Rightarrow> bytes" where
  "sdb_alloc n = replicate n 0"

definition sdb_min :: "nat \<Rightarrow> nat \<Rightarrow> nat" where
  "sdb_min a b = (if a < b then a else b)"

definition sdb_max :: "nat \<Rightarrow> nat \<Rightarrow> nat" where
  "sdb_max a b = (if a < b then b else a)"

lemma sdb_min_eq [simp]: "sdb_min a b = min a b"
  by (simp add: sdb_min_def min_def)

lemma sdb_max_eq [simp]: "sdb_max a b = max a b"
  by (simp add: sdb_max_def max_def)

lemma length_sdb_alloc [simp]: "length (sdb_alloc n) = n"
  by (simp add: sdb_alloc_def)

section \<open>Numbers as text\<close>

definition digit_char :: "nat \<Rightarrow> char" where
  "digit_char d = char_of (48 + d)"

fun dec_nat :: "nat \<Rightarrow> string" where
  "dec_nat n = (if n < 10 then [digit_char n] else dec_nat (n div 10) @ [digit_char (n mod 10)])"

declare dec_nat.simps [simp del]

text \<open>\<^verbatim>\<open>%d\<close> given a 32-bit value: it is read as a signed integer, whatever its type was.\<close>

definition dec_int :: "int \<Rightarrow> string" where
  "dec_int i = (if i < 0 then CHR ''-'' # dec_nat (nat (- i)) else dec_nat (nat i))"

definition fmt_d :: "nat \<Rightarrow> string" where
  "fmt_d n = (let v = n mod 2 ^ 32 in
     dec_int (if v < 2 ^ 31 then int v else int v - 2 ^ 32))"

section \<open>Bounded strings\<close>

text \<open>
  \<^verbatim>\<open>snprintf\<close> keeps at most one character less than the size it is given; \<^verbatim>\<open>strncpy\<close> may fill the
  whole array, and then nothing ends the string, which reading it back (\<open>c_str\<close>) reports.
\<close>

definition snprintf :: "nat \<Rightarrow> string \<Rightarrow> string" where
  "snprintf n text = take (n - 1) text"

definition strncpy :: "nat \<Rightarrow> string \<Rightarrow> string" where
  "strncpy n text = take n text"

definition c_str :: "nat \<Rightarrow> string \<Rightarrow> string res" where
  "c_str n text = (if length text < n then Inr text else Inl Unterminated)"

section \<open>Panics and assertions\<close>

definition die_internal :: "string \<Rightarrow> string \<Rightarrow> nat \<Rightarrow> 'a res" where
  "die_internal message file line =
     Inl (Died (''PANIC: '' @ file @ '':'' @ fmt_d line @ '' -> '' @ message @ [CHR 0x0A]))"

text \<open>\<^verbatim>\<open>sprintf\<close> writes the message and its terminator into a local array of fixed size.\<close>

definition assert_internal :: "bool \<Rightarrow> string \<Rightarrow> string \<Rightarrow> nat \<Rightarrow> unit res" where
  "assert_internal status message file line =
     (if \<not> status then
        let text = ''ASSERT: '' @ file @ '':'' @ fmt_d line @ '' -> '' @ message
        in if length text < SDB_STR_MAX_LEN then die_internal text ''src/common.c'' 56
           else Inl OutOfBounds
      else Inr ())"

end
