(* ===== verification/Disk.thy ===== *)
theory Disk
  imports Common "HOL-Library.AList"
begin

text \<open>
  \<^verbatim>\<open>src/storage/disk.c\<close>: files and their mappings.  A file has the contents every process sees
  and the contents that would survive a crash; only \<^verbatim>\<open>msync\<close> makes the second follow the first.
  Mappings are shared, so a store through one is a store into the file's contents.  The file
  system is an association list from paths to files, in the order \<^verbatim>\<open>readdir\<close> reports them.
\<close>

record inode =
  contents :: bytes
  durable :: bytes

type_synonym files = "(string \<times> inode) list"

text \<open>
  A \<^verbatim>\<open>file_map_t\<close>; \<open>map_file\<close> is the file the kernel has behind the mapping.  \<^verbatim>\<open>mmap\<close> reports
  failure by \<^verbatim>\<open>MAP_FAILED\<close>, the pointer \<open>-1\<close>, which is not the null pointer.
\<close>

record file_map =
  map_data :: ptr
  map_size :: nat
  map_file :: string

definition SDB_GROW_BUFFER_SIZE :: nat where
  "SDB_GROW_BUFFER_SIZE = 65536"

definition MAP_FAILED :: ptr where
  "MAP_FAILED = Ptr (- 1)"

section \<open>Operations\<close>

definition file_open :: "'a platform_scheme \<Rightarrow> files \<Rightarrow> string \<Rightarrow> files option" where
  "file_open P fs name =
     (if fopen_ok P name
      then Some (if map_of fs name = None
                 then AList.update name \<lparr>contents = [], durable = []\<rparr> fs else fs)
      else None)"

definition file_map_create ::
  "'a platform_scheme \<Rightarrow> files \<Rightarrow> string \<Rightarrow> (files \<times> file_map option) res" where
  "file_map_create P fs name =
     (case file_open P fs name of
        None \<Rightarrow> Inr (fs, None)
      | Some fs' \<Rightarrow>
          let sz = u64 (append_pos P (length (contents (the (map_of fs' name)))));
              data = (if sz = 0 then Null else if mmap_ok P sz then Ptr 0 else MAP_FAILED)
          in if sz \<noteq> 0 \<and> data = Null
             then die_internal ''Failed to map memory'' ''src/storage/disk.c'' 49
             else Inr (fs', Some \<lparr>map_data = data, map_size = sz, map_file = name\<rparr>))"

text \<open>Unmapping leaves a handle through which nothing can be reached.\<close>

definition file_map_destroy :: "file_map \<Rightarrow> file_map" where
  "file_map_destroy fm = \<lparr>map_data = Null, map_size = 0, map_file = []\<rparr>"

definition file_map_sync :: "'a platform_scheme \<Rightarrow> files \<Rightarrow> file_map \<Rightarrow> files res" where
  "file_map_sync P fs fm =
     (if map_data fm = Null then Inr fs
      else if \<not> msync_ok P \<or> map_data fm = MAP_FAILED
        then die_internal ''Failed to synchronize the file'' ''src/storage/disk.c'' 69
      else case map_of fs (map_file fm) of
          None \<Rightarrow> Inr fs
        | Some f \<Rightarrow> Inr (AList.update (map_file fm)
            (f\<lparr>durable := take (map_size fm) (contents f) @ drop (map_size fm) (durable f)\<rparr>) fs))"

text \<open>
  The write loop of \<^verbatim>\<open>file_grow\<close>.  A round that writes nothing leaves \<^verbatim>\<open>increment\<close> as it was, so
  without progress the loop goes on for ever; with progress in every round, one round per byte
  and one more are enough fuel.
\<close>

fun grow_loop :: "'a platform_scheme \<Rightarrow> nat \<Rightarrow> nat \<Rightarrow> bytes \<Rightarrow> bytes \<Rightarrow> bytes res" where
  "grow_loop P 0 increment buffer written = Inl OutOfFuel"
| "grow_loop P (Suc fuel) increment buffer written =
     (if increment > 0 then
        let n = fwrite_count P (sdb_min SDB_GROW_BUFFER_SIZE increment)
        in grow_loop P fuel (u64_sub increment n) buffer (written @ take n buffer)
      else Inr written)"

definition file_grow :: "'a platform_scheme \<Rightarrow> files \<Rightarrow> string \<Rightarrow> nat \<Rightarrow> byte \<Rightarrow> files res" where
  "file_grow P fs name increment pattern =
     (let buffer = replicate SDB_GROW_BUFFER_SIZE pattern
      in case file_open P fs name of
           None \<Rightarrow> die_internal ''Failed to grow the file'' ''src/storage/disk.c'' 79
         | Some fs' \<Rightarrow>
             (case map_of fs' name of
                None \<Rightarrow> Inl NullDeref
              | Some f \<Rightarrow> bindR (grow_loop P (Suc increment) increment buffer []) (\<lambda>bs.
                  Inr (AList.update name (f\<lparr>contents := contents f @ bs\<rparr>) fs'))))"

definition file_unlink :: "files \<Rightarrow> string \<Rightarrow> files" where
  "file_unlink fs name = AList.delete name fs"

text \<open>The object behind a mapping, and a store into it.\<close>

definition mapped :: "files \<Rightarrow> file_map \<Rightarrow> bytes" where
  "mapped fs fm =
     (if map_data fm = Ptr 0
      then case map_of fs (map_file fm) of None \<Rightarrow> [] | Some f \<Rightarrow> take (map_size fm) (contents f)
      else [])"

definition put_mapped :: "files \<Rightarrow> file_map \<Rightarrow> bytes \<Rightarrow> files" where
  "put_mapped fs fm m =
     (case map_of fs (map_file fm) of
        None \<Rightarrow> fs
      | Some f \<Rightarrow> AList.update (map_file fm) (f\<lparr>contents := m @ drop (map_size fm) (contents f)\<rparr>) fs)"

section \<open>Growing a file\<close>

lemma grow_loop_complete:
  assumes "\<And>n. fwrite_count P n = n" and "increment < fuel" and "increment < 2 ^ 64"
  shows "grow_loop P fuel increment (replicate SDB_GROW_BUFFER_SIZE b) written
         = Inr (written @ replicate increment b)"
  using assms(2,3)
proof (induction fuel arbitrary: increment written)
  case (Suc fuel)
  show ?case
  proof (cases "increment = 0")
    case False
    let ?n = "min SDB_GROW_BUFFER_SIZE increment"
    have n: "0 < ?n" "?n \<le> increment" using False by (auto simp: SDB_GROW_BUFFER_SIZE_def)
    then have sub: "u64_sub increment ?n = increment - ?n"
      using Suc.prems by (intro u64_sub_le) auto
    have "grow_loop P fuel (increment - ?n) (replicate SDB_GROW_BUFFER_SIZE b) (written @ replicate ?n b)
        = Inr ((written @ replicate ?n b) @ replicate (increment - ?n) b)"
      using n Suc.prems by (intro Suc.IH) auto
    moreover have "replicate ?n b @ replicate (increment - ?n) b = replicate increment b"
      using n by (simp flip: replicate_add)
    ultimately show ?thesis using False sub assms(1) by (simp add: Let_def)
  qed simp
qed simp

lemma grow_loop_stuck:
  assumes "\<And>n. fwrite_count P n = 0" and "0 < increment" and "increment < 2 ^ 64"
  shows "grow_loop P fuel increment buffer written = Inl OutOfFuel"
  using assms by (induction fuel arbitrary: written) (auto simp: Let_def u64_sub_le)

lemma file_open_ok:
  assumes "fopen_ok P name"
  shows "file_open P fs name =
    Some (if map_of fs name = None then AList.update name \<lparr>contents = [], durable = []\<rparr> fs else fs)"
  using assms by (simp add: file_open_def)

lemma file_grow_existing:
  assumes "platform_ok P" and "map_of fs name = Some f" and "increment < 2 ^ 64"
  shows "file_grow P fs name increment b
         = Inr (AList.update name (f\<lparr>contents := contents f @ replicate increment b\<rparr>) fs)"
  using assms grow_loop_complete [of P increment "Suc increment" b "[]"]
  by (simp add: file_grow_def file_open_def platform_ok_def Let_def del: grow_loop.simps)

lemma file_map_create_existing:
  assumes "platform_ok P" and "map_of fs name = Some f" and "length (contents f) < 2 ^ 64"
  shows "file_map_create P fs name = Inr (fs, Some
    \<lparr>map_data = (if contents f = [] then Null else Ptr 0), map_size = length (contents f), map_file = name\<rparr>)"
  using assms by (simp add: file_map_create_def file_open_def platform_ok_def u64_id Let_def)

lemma file_map_create_new:
  assumes "platform_ok P" and "map_of fs name = None"
  shows "file_map_create P fs name = Inr (AList.update name \<lparr>contents = [], durable = []\<rparr> fs,
    Some \<lparr>map_data = Null, map_size = 0, map_file = name\<rparr>)"
  using assms by (simp add: file_map_create_def file_open_def platform_ok_def update_conv' Let_def)

section \<open>Frames\<close>

text \<open>\<open>only_changes name fs fs'\<close>: the same directory, and the same files but for \<open>name\<close>.\<close>

definition only_changes :: "string \<Rightarrow> files \<Rightarrow> files \<Rightarrow> bool" where
  "only_changes name fs fs' \<longleftrightarrow>
     map fst fs' = map fst fs \<and> (\<forall>n. n \<noteq> name \<longrightarrow> map_of fs' n = map_of fs n)"

lemma only_changes_refl [simp]: "only_changes name fs fs"
  by (simp add: only_changes_def)

lemma only_changes_trans [trans]:
  "only_changes name fs fs1 \<Longrightarrow> only_changes name fs1 fs2 \<Longrightarrow> only_changes name fs fs2"
  by (simp add: only_changes_def)

lemma only_changes_update:
  assumes "map_of fs name = Some g"
  shows "only_changes name fs (AList.update name f fs)"
proof -
  have "name \<in> set (map fst fs)" using assms by (metis fst_conv image_eqI image_set map_of_SomeD)
  then show ?thesis by (simp add: only_changes_def update_conv' update_keys)
qed

section \<open>Properties\<close>

text \<open>
  \<^verbatim>\<open>file_grow\<close> on a platform whose calls succeed returns, and has appended exactly the
  requested number of pattern bytes, whatever the size of its write buffer; no other file
  changes.
\<close>

lemma file_grow_appends:
  assumes "platform_ok P" and "map_of fs name = Some f" and "increment < 2 ^ 64"
  shows "\<exists>fs'. file_grow P fs name increment pattern = Inr fs' \<and>
           map_of fs' name = Some (f\<lparr>contents := contents f @ replicate increment pattern\<rparr>) \<and>
           only_changes name fs fs'"
  using file_grow_existing [OF assms] only_changes_update [OF assms(2)] by (simp add: update_conv')

lemma file_grow_appends_example:
  "\<exists>fs'. file_grow (posix 4) [(''a'', \<lparr>contents = [1], durable = []\<rparr>)] ''a'' 3 0xFF = Inr fs' \<and>
     map_of fs' ''a'' = Some (\<lparr>contents = [1], durable = []\<rparr>\<lparr>contents := [1] @ replicate 3 0xFF\<rparr>) \<and>
     only_changes ''a'' [(''a'', \<lparr>contents = [1], durable = []\<rparr>)] fs'"
  using file_grow_appends [of "posix 4" "[(''a'', \<lparr>contents = [1], durable = []\<rparr>)]" "''a''" "\<lparr>contents = [1], durable = []\<rparr>" 3 "0xFF"]
  by simp

text \<open>
  C19: on a disk that takes no more bytes, \<^verbatim>\<open>file_grow\<close> never returns: its write loop runs out of
  any fuel, since a round that writes nothing changes nothing.
\<close>

theorem file_grow_spins:
  assumes "\<And>n. fwrite_count P n = 0" and "0 < increment" and "increment < 2 ^ 64"
  shows "\<forall>fuel. grow_loop P fuel increment buffer written = Inl OutOfFuel"
  using grow_loop_stuck [of P, OF assms] by blast

theorem file_grow_spins_witness:
  "\<forall>fuel. grow_loop ((posix 4)\<lparr>fwrite_count := \<lambda>n. 0\<rparr>) fuel 3 [0xFF] [] = Inl OutOfFuel"
  by (rule file_grow_spins) simp_all

end
