(* ===== verification/Timeline.thy ===== *)
theory Timeline
  imports Prelude
begin

text \<open>
  The abstract view of a series: a timeline, a list of points in strictly ascending order of
  time, which is a finite map from timestamps to points.  The functions here are the
  specifications the array routines of \<^verbatim>\<open>src/data-point.c\<close> are proved to implement, and the
  locale \<open>timeline_store\<close> is the contract a store of points offers its readers.
\<close>

section \<open>Points and timelines\<close>

text \<open>\<open>point_time\<close> is the \<^verbatim>\<open>time\<close> member of a \<^verbatim>\<open>data_point_t\<close>, its first eight bytes.\<close>

type_synonym point = bytes

definition point_time :: "point \<Rightarrow> timestamp" where
  "point_time c = word_of_nat (le_dec (take 8 c))"

definition strict :: "point list \<Rightarrow> bool" where
  "strict cs \<longleftrightarrow> sorted_wrt (<) (map point_time cs)"

definition pmap :: "point list \<Rightarrow> timestamp \<rightharpoonup> point" where
  "pmap cs = map_of (map (\<lambda>c. (point_time c, c)) cs)"

definition lower_bound :: "timestamp \<Rightarrow> point list \<Rightarrow> nat" where
  "lower_bound t cs = length (takeWhile (\<lambda>c. point_time c < t) cs)"

definition window :: "timestamp \<Rightarrow> timestamp \<Rightarrow> point list \<Rightarrow> point list" where
  "window b e cs = filter (\<lambda>c. b \<le> point_time c \<and> point_time c < e) cs"

text \<open>Merging a batch into a timeline: where both have a point, the batch's point wins.\<close>

fun merge_pts :: "point list \<Rightarrow> point list \<Rightarrow> point list" where
  "merge_pts [] ds = ds"
| "merge_pts (s # ss) [] = s # ss"
| "merge_pts (s # ss) (d # ds) =
     (if point_time d < point_time s then d # merge_pts (s # ss) ds
      else if point_time s < point_time d then s # merge_pts ss (d # ds)
      else s # merge_pts ss ds)"

text \<open>
  What is left of a sorted batch: points at time 0 are dropped, and of several points at one
  time the last one stays.
\<close>

fun nzd_list :: "point list \<Rightarrow> point list \<Rightarrow> point list" where
  "nzd_list acc [] = acc"
| "nzd_list acc (c # cs) =
     (if point_time c = 0 then nzd_list acc cs
      else if acc = [] \<or> point_time (last acc) < point_time c then nzd_list (acc @ [c]) cs
      else nzd_list (butlast acc @ [c]) cs)"

text \<open>A point of sixteen bytes, a timestamp and a value, as the command line client writes them.\<close>

definition sample :: "nat \<Rightarrow> nat \<Rightarrow> point" where
  "sample t v = le_enc 8 t @ le_enc 8 v"

lemma length_sample [simp]: "length (sample t v) = 16"
  by (simp add: sample_def)

lemma point_time_sample [simp]: "point_time (sample t v) = word_of_nat t"
  by (simp add: point_time_def sample_def le_dec_enc word_of_nat_eq_iff take_bit_eq_mod)

section \<open>Order\<close>

lemma strict_simps [simp]:
  "strict []"
  "strict (c # cs) \<longleftrightarrow> (\<forall>d\<in>set cs. point_time c < point_time d) \<and> strict cs"
  "strict (cs @ ds) \<longleftrightarrow>
     strict cs \<and> strict ds \<and> (\<forall>c\<in>set cs. \<forall>d\<in>set ds. point_time c < point_time d)"
  by (auto simp: strict_def sorted_wrt_append)

lemma strict_sorted: "strict cs \<Longrightarrow> sorted (map point_time cs)"
  by (induction cs) (auto simp: less_imp_le)

lemma strict_distinct: "strict cs \<Longrightarrow> distinct (map point_time cs)"
  by (induction cs) auto

lemma strict_nth_less: "strict cs \<Longrightarrow> i < j \<Longrightarrow> j < length cs \<Longrightarrow> point_time (cs ! i) < point_time (cs ! j)"
  by (simp add: strict_def sorted_wrt_iff_nth_less)

lemma strict_take [simp]: "strict cs \<Longrightarrow> strict (take k cs)"
  by (metis append_take_drop_id strict_simps(3))

lemma strict_drop [simp]: "strict cs \<Longrightarrow> strict (drop k cs)"
  by (metis append_take_drop_id strict_simps(3))

lemma strict_filter [simp]: "strict cs \<Longrightarrow> strict (filter p cs)"
  by (induction cs) auto

section \<open>Timelines as maps\<close>

lemma pmap_Nil [simp]: "pmap [] = Map.empty"
  by (simp add: pmap_def)

lemma pmap_Cons [simp]: "pmap (c # cs) = (pmap cs)(point_time c \<mapsto> c)"
  by (simp add: pmap_def)

lemma pmap_append: "pmap (cs @ ds) = pmap ds ++ pmap cs"
  by (simp add: pmap_def)

lemma dom_pmap: "dom (pmap cs) = point_time ` set cs"
  by (simp add: pmap_def dom_map_of_conv_image_fst image_image)

lemma pmap_SomeD: "pmap cs t = Some c \<Longrightarrow> c \<in> set cs \<and> point_time c = t"
  by (induction cs) (auto split: if_splits)

lemma pmap_strict: "strict cs \<Longrightarrow> c \<in> set cs \<Longrightarrow> pmap cs (point_time c) = Some c"
  by (induction cs) auto

lemma pmap_NoneI: "(\<And>c. c \<in> set cs \<Longrightarrow> point_time c \<noteq> t) \<Longrightarrow> pmap cs t = None"
  by (induction cs) auto

text \<open>A timeline is determined by its map.\<close>

lemma strict_pmap_inject:
  assumes "strict cs" and "strict ds" and "pmap cs = pmap ds"
  shows "cs = ds"
proof -
  have "set cs = set ds"
    using assms by (metis pmap_SomeD pmap_strict subsetI subset_antisym)
  then have "map point_time cs = map point_time ds"
    using assms(1,2) by (intro strict_sorted_equal) (auto simp: strict_def)
  then have len: "length cs = length ds" by (metis length_map)
  show ?thesis
  proof (rule nth_equalityI [OF len])
    fix i assume i: "i < length cs"
    with len \<open>map point_time cs = map point_time ds\<close> have "point_time (cs ! i) = point_time (ds ! i)"
      by (metis nth_map)
    with i len assms show "cs ! i = ds ! i"
      by (metis nth_mem option.inject pmap_strict)
  qed
qed

section \<open>Merging\<close>

lemma set_merge_pts: "set (merge_pts ss ds) \<subseteq> set ss \<union> set ds"
  by (induction ss ds rule: merge_pts.induct) auto

lemma times_merge_pts: "point_time ` set (merge_pts ss ds) = point_time ` set ss \<union> point_time ` set ds"
  by (induction ss ds rule: merge_pts.induct) auto

lemma all_len_merge_pts: "all_len n ss \<Longrightarrow> all_len n ds \<Longrightarrow> all_len n (merge_pts ss ds)"
  using set_merge_pts by (metis all_len_simps(3) all_len_subset set_append)

lemma length_merge_pts_le: "length (merge_pts ss ds) \<le> length ss + length ds"
  by (induction ss ds rule: merge_pts.induct) auto

lemma length_merge_pts_ge: "length ds \<le> length (merge_pts ss ds)"
  by (induction ss ds rule: merge_pts.induct) auto

lemma merge_pts_Nil2 [simp]: "merge_pts ss [] = ss"
  by (cases ss) auto

lemma strict_merge_pts: "strict ss \<Longrightarrow> strict ds \<Longrightarrow> strict (merge_pts ss ds)"
proof (induction ss ds rule: merge_pts.induct)
  case (3 s ss d ds)
  have "\<And>x xs ys. x \<in> set (merge_pts xs ys) \<Longrightarrow> x \<in> set xs \<or> x \<in> set ys"
    using set_merge_pts by blast
  with 3 show ?case by (fastforce split: if_splits dest: order.strict_trans)
qed auto

lemma pmap_merge_pts: "strict ss \<Longrightarrow> strict ds \<Longrightarrow> pmap (merge_pts ss ds) = pmap ds ++ pmap ss"
proof (induction ss ds rule: merge_pts.induct)
  case (3 s ss d ds)
  consider "point_time d < point_time s" | "point_time s < point_time d" | "point_time s = point_time d"
    by fastforce
  then show ?case
  proof cases
    case 1
    with 3 have "pmap (s # ss) (point_time d) = None" by (intro pmap_NoneI) auto
    with 1 3 show ?thesis by (auto simp: map_add_def fun_eq_iff split: option.splits)
  next
    case 2
    with "3.IH"(2) "3.prems" show ?thesis
      by (auto simp: fun_eq_iff map_add_def split: option.splits)
  next
    case 3
    with "3.prems" "3.IH"(3) show ?thesis
      by (auto simp: fun_eq_iff map_add_def split: option.splits)
  qed
qed auto

text \<open>Points before or after the whole batch are left where they are.\<close>

lemma merge_pts_prefix:
  assumes "\<And>d s. d \<in> set pre \<Longrightarrow> s \<in> set ss \<Longrightarrow> point_time d < point_time s"
  shows "merge_pts ss (pre @ ds) = pre @ merge_pts ss ds"
  using assms
proof (induction pre)
  case (Cons d pre)
  then show ?case by (cases ss) auto
qed simp

lemma merge_pts_before:
  assumes "\<And>d s. d \<in> set ds \<Longrightarrow> s \<in> set ss \<Longrightarrow> point_time s < point_time d"
  shows "merge_pts ss ds = ss @ ds"
  using assms
proof (induction ss)
  case (Cons s ss)
  then show ?case by (cases ds) (auto dest: order.strict_implies_not_eq order.asym)
qed simp

lemma merge_pts_suffix:
  assumes "\<And>d s. d \<in> set post \<Longrightarrow> s \<in> set ss \<Longrightarrow> point_time s < point_time d"
    and "\<And>d c. d \<in> set post \<Longrightarrow> c \<in> set ds \<Longrightarrow> point_time c < point_time d"
  shows "merge_pts ss (ds @ post) = merge_pts ss ds @ post"
  using assms
proof (induction ss ds rule: merge_pts.induct)
  case (2 s ss)
  then show ?case using merge_pts_before [of post "s # ss"] by auto
qed auto

lemma merge_pts_after:
  assumes "\<And>d s. d \<in> set ds \<Longrightarrow> s \<in> set ss \<Longrightarrow> point_time d < point_time s"
  shows "merge_pts ss ds = ds @ ss"
  using merge_pts_prefix [of ds ss "[]"] assms by simp

section \<open>Searching\<close>

lemma lower_bound_le: "lower_bound t cs \<le> length cs"
  by (simp add: lower_bound_def length_takeWhile_le)

lemma take_lower_bound: "take (lower_bound t cs) cs = takeWhile (\<lambda>c. point_time c < t) cs"
  unfolding lower_bound_def by (rule takeWhile_eq_take [symmetric])

lemma drop_lower_bound: "drop (lower_bound t cs) cs = dropWhile (\<lambda>c. point_time c < t) cs"
  unfolding lower_bound_def by (rule dropWhile_eq_drop [symmetric])

lemma before_lower_bound: "c \<in> set (take (lower_bound t cs) cs) \<Longrightarrow> point_time c < t"
  by (auto simp: take_lower_bound dest: set_takeWhileD)

lemma after_lower_bound:
  assumes "sorted (map point_time cs)" and "c \<in> set (drop (lower_bound t cs) cs)"
  shows "t \<le> point_time c"
  using assms
proof (induction cs)
  case (Cons d cs)
  then show ?case by (cases "point_time d < t") (auto simp: drop_lower_bound)
qed simp

lemma nth_before_lower_bound: "j < lower_bound t cs \<Longrightarrow> point_time (cs ! j) < t"
  by (rule before_lower_bound [of _ t cs])
    (use lower_bound_le [of t cs] in \<open>auto simp: in_set_conv_nth intro!: exI [of _ j]\<close>)

lemma nth_after_lower_bound:
  assumes "sorted (map point_time cs)" and "lower_bound t cs \<le> j" and "j < length cs"
  shows "t \<le> point_time (cs ! j)"
proof (rule after_lower_bound [OF assms(1)])
  show "cs ! j \<in> set (drop (lower_bound t cs) cs)"
    using assms(2,3) by (auto simp: in_set_conv_nth intro!: exI [of _ "j - lower_bound t cs"])
qed

text \<open>The boundary is the only index with everything below it before \<open>t\<close>, nothing from it on.\<close>

lemma lower_bound_unique:
  assumes "i \<le> length cs"
    and "\<And>j. j < i \<Longrightarrow> point_time (cs ! j) < t"
    and "\<And>j. i \<le> j \<Longrightarrow> j < length cs \<Longrightarrow> t \<le> point_time (cs ! j)"
  shows "lower_bound t cs = i"
proof -
  have "takeWhile (\<lambda>c. point_time c < t) cs = take i cs"
    using assms by (intro takeWhile_eq_take_P_nth) (auto simp: not_less)
  with assms(1) show ?thesis by (simp add: lower_bound_def)
qed

lemma strict_hit:
  assumes "strict cs" and "i < length cs" and "point_time (cs ! i) = t"
  shows "i = lower_bound t cs"
proof (rule lower_bound_unique [symmetric])
  show "point_time (cs ! j) < t" if "j < i" for j
    using strict_nth_less [OF assms(1) that assms(2)] assms(3) by simp
  show "t \<le> point_time (cs ! j)" if "i \<le> j" "j < length cs" for j
    using strict_nth_less [OF assms(1) _ that(2), of i] that(1) assms(3)
    by (cases "i = j") (auto intro: less_imp_le)
qed (use assms(2) in simp)

lemma lower_bound_mono: "sorted (map point_time cs) \<Longrightarrow> s \<le> t \<Longrightarrow> lower_bound s cs \<le> lower_bound t cs"
  by (induction cs) (auto simp: lower_bound_def)

lemma filter_takeWhile_sorted:
  "sorted (map point_time cs) \<Longrightarrow>
   filter (\<lambda>c. point_time c < t) cs = takeWhile (\<lambda>c. point_time c < t) cs"
proof (induction cs)
  case (Cons c cs)
  show ?case
  proof (cases "point_time c < t")
    case False
    then have "filter (\<lambda>c. point_time c < t) (c # cs) = []"
      using Cons.prems by (auto simp: filter_empty_conv)
    with False show ?thesis by simp
  qed (use Cons in simp)
qed simp

lemma window_slice:
  assumes "sorted (map point_time cs)" and "b \<le> e"
  shows "window b e cs = take (lower_bound e cs - lower_bound b cs) (drop (lower_bound b cs) cs)"
  using assms
proof (induction cs)
  case (Cons c cs)
  show ?case
  proof (cases "point_time c < b")
    case True
    with Cons show ?thesis by (auto simp: window_def lower_bound_def)
  next
    case False
    then have lb: "lower_bound b (c # cs) = 0" by (simp add: lower_bound_def)
    have "window b e (c # cs) = filter (\<lambda>d. point_time d < e) (c # cs)"
      using False Cons.prems unfolding window_def by (intro filter_cong) (auto simp: not_less)
    also have "\<dots> = takeWhile (\<lambda>d. point_time d < e) (c # cs)"
      using Cons.prems(1) by (rule filter_takeWhile_sorted)
    finally show ?thesis by (simp add: lb take_lower_bound)
  qed
qed (simp add: window_def lower_bound_def)

section \<open>Merging only where the batch overlaps\<close>

text \<open>
  Merging into the slice from the batch's first time up to the successor of its last one is
  merging into the whole timeline, as long as that successor exists.
\<close>

lemma less_succ: "t \<noteq> - 1 \<Longrightarrow> s < t + 1 \<longleftrightarrow> s \<le> (t :: timestamp)"
  by (metis inc_less_eq_iff not_le)

lemma strict_le_last: "strict bs \<Longrightarrow> b \<in> set bs \<Longrightarrow> point_time b \<le> point_time (last bs)"
proof (induction bs)
  case (Cons c bs)
  then show ?case by (cases "bs = []") (auto simp: less_imp_le)
qed simp

lemma strict_hd_le: "strict bs \<Longrightarrow> b \<in> set bs \<Longrightarrow> point_time (hd bs) \<le> point_time b"
  by (cases bs) auto

lemma merge_pts_slice:
  assumes "strict bs" and "bs \<noteq> []" and "strict cs" and "point_time (last bs) \<noteq> - 1"
    and b: "b = lower_bound (point_time (hd bs)) cs"
    and e: "e = lower_bound (point_time (last bs) + 1) cs"
  shows "take b cs @ merge_pts bs (take (e - b) (drop b cs)) @ drop e cs = merge_pts bs cs"
    and "b \<le> e"
proof -
  have "point_time (hd bs) \<le> point_time (last bs)"
    using strict_le_last [OF assms(1)] assms(2) by simp
  then show be: "b \<le> e"
    unfolding b e using less_succ [OF assms(4)] strict_sorted [OF assms(3)]
    by (intro lower_bound_mono) (auto simp: less_imp_le)
  have split: "cs = take b cs @ take (e - b) (drop b cs) @ drop e cs"
    using be by (metis append_take_drop_id drop_drop le_add_diff_inverse2)
  have pre: "point_time d < point_time s" if "d \<in> set (take b cs)" "s \<in> set bs" for d s
    using before_lower_bound [of d] that strict_hd_le [OF assms(1)] unfolding b by (meson less_le_trans)
  have post: "point_time s < point_time d" if "d \<in> set (drop e cs)" "s \<in> set bs" for d s
  proof -
    have "point_time (last bs) + 1 \<le> point_time d"
      using after_lower_bound [OF strict_sorted [OF assms(3)]] that(1) unfolding e by blast
    then have "point_time (last bs) < point_time d"
      using less_succ [OF assms(4), of "point_time d"] by (meson leD leI)
    with strict_le_last [OF assms(1) that(2)] show ?thesis by simp
  qed
  have inner: "point_time c < point_time d"
    if "d \<in> set (drop e cs)" "c \<in> set (take (e - b) (drop b cs))" for c d
    using assms(3) that by (subst (asm) split) auto
  have "merge_pts bs cs = merge_pts bs (take b cs @ take (e - b) (drop b cs) @ drop e cs)"
    using split by simp
  also have "\<dots> = take b cs @ merge_pts bs (take (e - b) (drop b cs) @ drop e cs)"
    using pre by (rule merge_pts_prefix)
  also have "merge_pts bs (take (e - b) (drop b cs) @ drop e cs)
      = merge_pts bs (take (e - b) (drop b cs)) @ drop e cs"
    using post inner by (rule merge_pts_suffix)
  finally show "take b cs @ merge_pts bs (take (e - b) (drop b cs)) @ drop e cs = merge_pts bs cs" by simp
qed

section \<open>Preparing a batch\<close>

lemma in_set_nzd_list:
  "c \<in> set (nzd_list acc cs) \<Longrightarrow> c \<in> set acc \<or> c \<in> set cs \<and> point_time c \<noteq> 0"
proof (induction acc cs rule: nzd_list.induct)
  case (2 acc d cs)
  then show ?case by (auto split: if_splits dest: in_set_butlastD)
qed simp

lemma set_nzd_list: "set (nzd_list acc cs) \<subseteq> set acc \<union> set cs"
  by (auto dest: in_set_nzd_list)

lemma all_len_nzd_list: "all_len n acc \<Longrightarrow> all_len n cs \<Longrightarrow> all_len n (nzd_list acc cs)"
  using set_nzd_list by (metis all_len_simps(3) all_len_subset set_append)

lemma length_nzd_list_le: "length (nzd_list acc cs) \<le> length acc + length cs"
proof (induction acc cs rule: nzd_list.induct)
  case (2 acc c cs)
  then show ?case by (cases acc) (auto split: if_splits)
qed simp

text \<open>
  On a sorted batch the result is a timeline without time 0, and as a map it is what writing
  the points one after the other leaves: the last point at a time wins.
\<close>

definition last_wins :: "point list \<Rightarrow> timestamp \<rightharpoonup> point" where
  "last_wins cs = pmap (rev (filter (\<lambda>c. point_time c \<noteq> 0) cs))"

lemma add_last_wins_Cons:
  "m ++ last_wins (c # cs) = (if point_time c = 0 then m else m(point_time c \<mapsto> c)) ++ last_wins cs"
  by (auto simp: last_wins_def pmap_append map_add_def fun_eq_iff split: option.splits)

lemma nzd_list_spec:
  assumes "strict acc" and "sorted (map point_time cs)"
    and "\<And>a c. a \<in> set acc \<Longrightarrow> c \<in> set cs \<Longrightarrow> point_time a \<le> point_time c"
  shows "strict (nzd_list acc cs) \<and> pmap (nzd_list acc cs) = pmap acc ++ last_wins cs"
  using assms
proof (induction acc cs rule: nzd_list.induct)
  case (1 acc)
  then show ?case by (simp add: last_wins_def)
next
  case (2 acc c cs)
  consider (zero) "point_time c = 0"
    | (new) "point_time c \<noteq> 0" "acc = [] \<or> point_time (last acc) < point_time c"
    | (dup) "point_time c \<noteq> 0" "acc \<noteq> []" "\<not> point_time (last acc) < point_time c"
    by blast
  then show ?case
  proof cases
    case zero
    with 2 show ?thesis by (simp add: last_wins_def)
  next
    case new
    have less: "point_time a < point_time c" if "a \<in> set acc" for a
    proof (cases "acc = []")
      case False
      then obtain bs b where acc: "acc = bs @ [b]" by (metis append_butlast_last_id)
      with new that "2.prems"(1) show ?thesis by (auto dest: order.strict_trans)
    qed (use that in simp)
    then have fresh: "pmap acc (point_time c) = None"
      by (intro pmap_NoneI) (metis order.strict_implies_not_eq)
    have upd: "pmap (acc @ [c]) = (pmap acc)(point_time c \<mapsto> c)"
      using fresh by (auto simp: pmap_append map_add_def fun_eq_iff split: option.splits)
    have s1: "strict (acc @ [c])" using less "2.prems"(1) by simp
    have s2: "sorted (map point_time cs)" using "2.prems"(2) by simp
    have s3: "point_time a \<le> point_time d" if "a \<in> set (acc @ [c])" "d \<in> set cs" for a d
      using that "2.prems"(2,3) by auto
    have "strict (nzd_list (acc @ [c]) cs) \<and> pmap (nzd_list (acc @ [c]) cs) = pmap (acc @ [c]) ++ last_wins cs"
      by (rule "2.IH"(2) [OF new s1 s2 s3])
    with new upd show ?thesis by (simp only: nzd_list.simps add_last_wins_Cons if_True if_False simp_thms)
  next
    case dup
    then obtain bs b where acc: "acc = bs @ [b]" by (metis append_butlast_last_id)
    with dup "2.prems"(3) have eq: "point_time b = point_time c"
      by (metis last_in_set last_snoc list.set_intros(1) order.order_iff_strict)
    have fresh: "pmap bs (point_time c) = None"
      using "2.prems"(1) acc eq by (intro pmap_NoneI) auto
    have upd: "pmap (butlast acc @ [c]) = (pmap acc)(point_time c \<mapsto> c)"
      using fresh eq acc by (auto simp: pmap_append map_add_def fun_eq_iff split: option.splits)
    have "strict (nzd_list (butlast acc @ [c]) cs) \<and>
        pmap (nzd_list (butlast acc @ [c]) cs) = pmap (butlast acc @ [c]) ++ last_wins cs"
      using acc eq dup "2.prems" by (intro "2.IH"(3)) auto
    with dup upd show ?thesis by (simp only: nzd_list.simps add_last_wins_Cons if_True if_False simp_thms)
  qed
qed

lemma last_wins_SomeD: "last_wins cs t = Some c \<Longrightarrow> c \<in> set cs \<and> point_time c = t \<and> t \<noteq> 0"
  by (auto simp: last_wins_def dest!: pmap_SomeD)

lemma dom_last_wins: "dom (last_wins cs) = point_time ` set cs - {0}"
  by (auto simp: last_wins_def dom_pmap)

lemma nzd_list_nonzero: "c \<in> set (nzd_list [] cs) \<Longrightarrow> point_time c \<noteq> 0"
  by (auto dest: in_set_nzd_list)

section \<open>Windows\<close>

lemma window_empty: "e \<le> b \<Longrightarrow> window b e cs = []"
  by (auto simp: window_def filter_empty_conv)

lemma window_all: "window 0 e cs = filter (\<lambda>c. point_time c < e) cs"
  by (simp add: window_def)

lemma window_split:
  assumes "strict cs" and "b \<le> m" and "m \<le> e"
  shows "window b e cs = window b m cs @ window m e cs"
  using assms
proof (induction cs)
  case (Cons c cs)
  have "window b m cs = []" if "m \<le> point_time c"
    using that Cons.prems(1) by (auto simp: window_def filter_empty_conv)
  with Cons show ?case by (auto simp: window_def)
qed (simp add: window_def)

lemma window_from_nth:
  assumes "strict cs" and "k < length (window b e cs)"
  shows "window (point_time (window b e cs ! k)) e cs = drop k (window b e cs)"
    and "b \<le> point_time (window b e cs ! k)" and "point_time (window b e cs ! k) < e"
proof -
  let ?W = "window b e cs"
  have "?W ! k \<in> set ?W" using assms(2) by simp
  then show t: "b \<le> point_time (?W ! k)" "point_time (?W ! k) < e" by (auto simp: window_def)
  have W: "strict ?W" using assms(1) by (simp add: window_def)
  have "window (point_time (?W ! k)) e cs = filter (\<lambda>c. point_time (?W ! k) \<le> point_time c) ?W"
    using t(1) unfolding window_def filter_filter by (intro filter_cong) (auto dest: order.trans)
  also have "\<dots> = filter (\<lambda>c. point_time (?W ! k) \<le> point_time c) (take k ?W @ drop k ?W)" by simp
  also have "\<dots> = drop k ?W"
  proof -
    have "\<not> point_time (?W ! k) \<le> point_time c" if "c \<in> set (take k ?W)" for c
      using that strict_nth_less [OF W _ assms(2)] by (auto simp: in_set_conv_nth not_le)
    moreover have "point_time (?W ! k) \<le> point_time c" if c: "c \<in> set (drop k ?W)" for c
    proof -
      obtain j where "j < length ?W - k" "c = ?W ! (k + j)" using c by (auto simp: in_set_conv_nth)
      then show ?thesis using strict_nth_less [OF W, of k "k + j"] by (cases j) (auto intro: less_imp_le)
    qed
    ultimately show ?thesis by (simp del: append_take_drop_id)
  qed
  finally show "window (point_time (?W ! k)) e cs = drop k ?W" .
qed

section \<open>The contract of a store\<close>

text \<open>
  What a reader of a store relies on: under the store's invariant, reading an interval returns
  the points of the timeline inside it, in order, up to a limit; the latest point is the last one.
\<close>

locale timeline_store =
  fixes inv :: "'s \<Rightarrow> point list \<Rightarrow> bool"
    and rd :: "'s \<Rightarrow> timestamp \<Rightarrow> timestamp \<Rightarrow> nat \<Rightarrow> point list res"
    and rd_latest :: "'s \<Rightarrow> point list res"
  assumes inv_strict: "inv st cs \<Longrightarrow> strict cs"
    and rd_window: "inv st cs \<Longrightarrow> rd st b e n = Inr (take n (window b e cs))"
    and rd_last: "inv st cs \<Longrightarrow> rd_latest st = Inr (if cs = [] then [] else [last cs])"
begin

text \<open>A read that is not cut off by its limit is exact.\<close>

lemma rd_all:
  assumes "inv st cs" and "rd st b e n = Inr xs" and "length xs < n"
  shows "xs = window b e cs"
  using assms by (simp add: rd_window min_def split: if_splits) auto

lemma rd_point:
  assumes "inv st cs" and "rd st b e n = Inr xs" and "x \<in> set xs"
  shows "pmap cs (point_time x) = Some x" and "b \<le> point_time x" and "point_time x < e"
  using assms inv_strict [OF assms(1)] by (auto simp: rd_window window_def dest!: in_set_takeD intro: pmap_strict)

text \<open>
  Paging: read one point more than a page holds, and continue from that point's time, or stop
  at the end of the interval when it is not there.  What is left to read is what the page
  leaves.
\<close>

lemma rd_page:
  assumes "inv st cs" and "rd st b e (Suc n) = Inr xs" and "b \<le> e"
    and b': "b' = (if length xs = Suc n then point_time (last xs) else e)"
  shows "take n xs = take n (window b e cs)" and "window b' e cs = drop n (window b e cs)"
    and "b' \<le> e" and "length (window b' e cs) = length (window b e cs) - n"
proof -
  have xs: "xs = take (Suc n) (window b e cs)" using assms(1,2) by (simp add: rd_window)
  show "take n xs = take n (window b e cs)" by (simp add: xs)
  have "window b' e cs = drop n (window b e cs) \<and> b' \<le> e"
  proof (cases "length xs = Suc n")
    case True
    then have n: "n < length (window b e cs)" by (simp add: xs)
    with True have "last xs = window b e cs ! n" by (simp add: xs take_Suc_conv_app_nth)
    with True window_from_nth [OF inv_strict [OF assms(1)] n] show ?thesis
      by (simp add: b' less_imp_le)
  next
    case False
    then have "length (window b e cs) \<le> n" by (auto simp: xs)
    with False show ?thesis by (simp add: b' window_empty)
  qed
  then show "window b' e cs = drop n (window b e cs)" "b' \<le> e"
    "length (window b' e cs) = length (window b e cs) - n" by auto
qed

end

text \<open>
  A store that can be written to: a batch that is accepted is merged into the timeline, the
  batch's points winning.  \<open>eff\<close> is what the store makes of a batch.
\<close>

locale writable_store = timeline_store inv rd rd_latest
  for inv :: "'s \<Rightarrow> point list \<Rightarrow> bool" and rd rd_latest +
  fixes wr :: "'s \<Rightarrow> point list \<Rightarrow> 's res"
    and ready :: "'s \<Rightarrow> point list \<Rightarrow> bool"
    and eff :: "point list \<Rightarrow> point list"
  assumes eff_strict: "ready st bs \<Longrightarrow> strict (eff bs)"
    and wr_merges: "inv st cs \<Longrightarrow> ready st bs \<Longrightarrow> \<exists>st'. wr st bs = Inr st' \<and> inv st' (merge_pts (eff bs) cs)"
begin

text \<open>After a write, the batch's points are there and nothing else has changed.\<close>

lemma rd_after_wr:
  assumes "inv st cs" and "ready st bs" and "wr st bs = Inr st'"
  shows "rd st' b e n = Inr (take n (window b e (merge_pts (eff bs) cs)))"
    and "pmap (merge_pts (eff bs) cs) = pmap cs ++ pmap (eff bs)"
  using wr_merges [OF assms(1,2)] assms(3) rd_window pmap_merge_pts [OF eff_strict [OF assms(2)] inv_strict [OF assms(1)]]
  by auto

text \<open>Two disjoint batches commute.\<close>

lemma wr_commute:
  assumes "inv st cs" and "ready st b1" and "ready st b2"
    and "wr st b1 = Inr st1" and "ready st1 b2" and "wr st1 b2 = Inr st12"
    and "wr st b2 = Inr st2" and "ready st2 b1" and "wr st2 b1 = Inr st21"
    and disj: "point_time ` set (eff b1) \<inter> point_time ` set (eff b2) = {}"
  shows "rd st12 b e n = rd st21 b e n"
proof -
  have S: "strict cs" "strict (eff b1)" "strict (eff b2)"
    using inv_strict [OF assms(1)] eff_strict assms by blast+
  have i1: "inv st1 (merge_pts (eff b1) cs)" and i2: "inv st2 (merge_pts (eff b2) cs)"
    using wr_merges [OF assms(1,2)] wr_merges [OF assms(1,3)] assms(4,7) by auto
  have i12: "inv st12 (merge_pts (eff b2) (merge_pts (eff b1) cs))"
    and i21: "inv st21 (merge_pts (eff b1) (merge_pts (eff b2) cs))"
    using wr_merges [OF i1 assms(5)] wr_merges [OF i2 assms(8)] assms(6,9) by auto
  have comm: "pmap (eff b1) ++ pmap (eff b2) = pmap (eff b2) ++ pmap (eff b1)"
    using disj by (intro map_add_comm) (simp add: dom_pmap)
  have "pmap (merge_pts (eff b2) (merge_pts (eff b1) cs)) = pmap (merge_pts (eff b1) (merge_pts (eff b2) cs))"
    using S by (simp add: pmap_merge_pts strict_merge_pts comm flip: map_add_assoc)
  then have "merge_pts (eff b2) (merge_pts (eff b1) cs) = merge_pts (eff b1) (merge_pts (eff b2) cs)"
    using S by (intro strict_pmap_inject) (auto intro: strict_merge_pts)
  then show ?thesis using rd_window [OF i12] rd_window [OF i21] by simp
qed

end

end
