(* ===== verification/DataPoint.thy ===== *)
theory DataPoint
  imports Platform Timeline
begin

text \<open>
  The points array: \<^verbatim>\<open>src/data-point.h\<close> and \<^verbatim>\<open>src/data-point.c\<close>.  A point is \<open>point_size\<close> bytes
  of which the first eight are its timestamp, little-endian; a \<open>points_list\<close> describes an array
  of them inside some object, whose bytes the operations take beside it.  The operations follow
  the source's pointers; the lemmas relate them to lists of points.
\<close>

section \<open>Data and pointer arithmetic\<close>

record points_list =
  content :: ptr
  count_pl :: nat
  point_size :: nat

definition SDB_TIMESTAMP_MIN :: timestamp where
  "SDB_TIMESTAMP_MIN = 0"

definition SDB_TIMESTAMP_MAX :: timestamp where
  "SDB_TIMESTAMP_MAX = - 1"

text \<open>\<open>load_time\<close> is \<^verbatim>\<open>p->time\<close>.\<close>

definition load_time :: "bytes \<Rightarrow> ptr \<Rightarrow> timestamp res" where
  "load_time m p = bindR (load m p 8) (\<lambda>bs. Inr (word_of_nat (le_dec bs)))"

definition data_point_compare :: "timestamp \<Rightarrow> timestamp \<Rightarrow> int" where
  "data_point_compare lhs rhs = (if lhs = rhs then 0 else if lhs < rhs then - 1 else 1)"

definition data_point_at :: "points_list \<Rightarrow> nat \<Rightarrow> ptr" where
  "data_point_at points offset = ptr_add (content points) (int (u64 (offset * point_size points)))"

definition data_point_next :: "points_list \<Rightarrow> ptr \<Rightarrow> ptr" where
  "data_point_next points cur = ptr_add cur (int (point_size points))"

definition data_point_prev :: "points_list \<Rightarrow> ptr \<Rightarrow> ptr" where
  "data_point_prev points cur = ptr_add cur (- int (point_size points))"

definition points_list_end :: "points_list \<Rightarrow> ptr" where
  "points_list_end points = data_point_at points (count_pl points)"

definition points_list_last :: "points_list \<Rightarrow> ptr" where
  "points_list_last points = data_point_at points (u64_sub (count_pl points) 1)"

text \<open>
  The byte distance is a signed \<^verbatim>\<open>ptrdiff_t\<close> divided, towards zero, by the point size and then
  converted to \<^verbatim>\<open>uint64_t\<close>, so a negative distance becomes a count close to \<open>2 ^ 64\<close>.
\<close>

definition data_point_dist :: "points_list \<Rightarrow> ptr \<Rightarrow> ptr \<Rightarrow> nat res" where
  "data_point_dist points start fin =
     bindR (ptr_diff fin start) (\<lambda>d.
       if point_size points = 0 then Inl DivByZero
       else let q = \<bar>d\<bar> div int (point_size points)
            in Inr (nat ((if d < 0 then - q else q) mod 2 ^ 64)))"

definition data_point_index :: "points_list \<Rightarrow> ptr \<Rightarrow> nat res" where
  "data_point_index points point = data_point_dist points (content points) point"

section \<open>Merging, sorting, filtering, searching\<close>

text \<open>
  \<^verbatim>\<open>data_point_merge\<close>: \<open>src\<close> in the object \<open>sm\<close>, \<open>dst\<close> in \<open>dm\<close>, \<open>result\<close> in \<open>rm\<close>.  The guard's
  subtraction cannot wrap: \<open>duplicated\<close> only grows while it is below \<open>buffer_count\<close>.
\<close>

function merge_loop ::
  "points_list \<Rightarrow> bytes \<Rightarrow> points_list \<Rightarrow> bytes \<Rightarrow> points_list \<Rightarrow> nat \<Rightarrow>
   ptr \<Rightarrow> ptr \<Rightarrow> ptr \<Rightarrow> nat \<Rightarrow> nat \<Rightarrow> bytes \<Rightarrow> (nat \<times> bytes) res" where
  "merge_loop src sm dst dm result buffer_count src_pos dst_pos buffer processed duplicated rm =
     (if processed < buffer_count - duplicated then
        if src_pos = points_list_end src then
          bindR (copy_between rm buffer dm dst_pos (point_size result)) (\<lambda>rm'.
            merge_loop src sm dst dm result buffer_count src_pos (data_point_next dst dst_pos)
              (data_point_next result buffer) (Suc processed) duplicated rm')
        else if dst_pos = points_list_end dst then
          bindR (copy_between rm buffer sm src_pos (point_size result)) (\<lambda>rm'.
            merge_loop src sm dst dm result buffer_count (data_point_next src src_pos) dst_pos
              (data_point_next result buffer) (Suc processed) duplicated rm')
        else
          bindR (load_time dm dst_pos) (\<lambda>dst_time. bindR (load_time sm src_pos) (\<lambda>src_time.
            if dst_time < src_time then
              bindR (copy_between rm buffer dm dst_pos (point_size result)) (\<lambda>rm'.
                merge_loop src sm dst dm result buffer_count src_pos (data_point_next dst dst_pos)
                  (data_point_next result buffer) (Suc processed) duplicated rm')
            else if src_time < dst_time then
              bindR (copy_between rm buffer sm src_pos (point_size result)) (\<lambda>rm'.
                merge_loop src sm dst dm result buffer_count (data_point_next src src_pos) dst_pos
                  (data_point_next result buffer) (Suc processed) duplicated rm')
            else
              bindR (copy_between rm buffer sm src_pos (point_size result)) (\<lambda>rm'.
                merge_loop src sm dst dm result buffer_count (data_point_next src src_pos)
                  (data_point_next dst dst_pos) (data_point_next result buffer) (Suc processed)
                  (Suc duplicated) rm')))
      else Inr (duplicated, rm))"
  by pat_completeness auto
termination
  by (relation "measure (\<lambda>(src, sm, dst, dm, result, n, sp, dp, b, processed, duplicated, rm).
        n - duplicated - processed)") auto

declare merge_loop.simps [simp del]

definition data_point_merge ::
  "points_list \<Rightarrow> bytes \<Rightarrow> points_list \<Rightarrow> bytes \<Rightarrow> points_list \<Rightarrow> bytes \<Rightarrow>
   (points_list \<times> bytes) res" where
  "data_point_merge src sm dst dm result rm =
     bindR (merge_loop src sm dst dm result (count_pl result)
              (content src) (content dst) (content result) 0 0 rm)
       (\<lambda>(duplicated, rm').
          Inr (result\<lparr>count_pl := u64_sub (count_pl result) duplicated\<rparr>, rm'))"

text \<open>
  \<^verbatim>\<open>qsort\<close> hands pairs of elements to the comparison, which reads eight bytes of each: with
  smaller points it reads past the element it was given.
\<close>

definition point_cmp :: "bytes \<Rightarrow> bytes \<Rightarrow> int" where
  "point_cmp a b = data_point_compare (point_time a) (point_time b)"

definition data_point_sort :: "'a platform_scheme \<Rightarrow> points_list \<Rightarrow> bytes \<Rightarrow> bytes res" where
  "data_point_sort P points m =
     (if count_pl points \<le> 1 then Inr m
      else if point_size points < 8 then Inl OutOfBounds
      else bindR (load m (content points) (count_pl points * point_size points)) (\<lambda>bs.
             store m (content points) (concat (qsort P point_cmp (chunks (point_size points) bs)))))"

text \<open>
  \<^verbatim>\<open>data_point_non_zero_distinct\<close> compacts the array in place.  Each round moves \<open>cur\<close> (the source's \<^verbatim>\<open>curr\<close>) one point
  on, so as many rounds as there are points, and one more to leave the loop, are enough fuel.
\<close>

fun nzd_loop :: "nat \<Rightarrow> points_list \<Rightarrow> ptr \<Rightarrow> ptr \<Rightarrow> ptr \<Rightarrow> bytes \<Rightarrow> (ptr \<times> bytes) res" where
  "nzd_loop 0 points fin cur tail m = Inl OutOfFuel"
| "nzd_loop (Suc fuel) points fin cur tail m =
     (if cur < fin then
        bindR (load_time m cur) (\<lambda>curr_time.
          if curr_time \<noteq> 0 then
            bindR (if tail < content points then Inr True
                   else bindR (load_time m tail) (\<lambda>tail_time. Inr (tail_time < curr_time)))
              (\<lambda>advance.
                let tail' = (if advance then data_point_next points tail else tail)
                in bindR (memcpy m tail' cur (point_size points)) (\<lambda>m'.
                     nzd_loop fuel points fin (data_point_next points cur) tail' m'))
          else nzd_loop fuel points fin (data_point_next points cur) tail m)
      else Inr (tail, m))"

definition data_point_non_zero_distinct :: "points_list \<Rightarrow> bytes \<Rightarrow> (nat \<times> bytes) res" where
  "data_point_non_zero_distinct points m =
     bindR (nzd_loop (Suc (count_pl points)) points (points_list_end points) (content points)
              (data_point_prev points (content points)) m)
       (\<lambda>(tail, m'). bindR (data_point_index points (data_point_next points tail))
          (\<lambda>n. Inr (n, m')))"

text \<open>
  \<^verbatim>\<open>data_point_find\<close>, a binary search.  The interval \<open>[left, right)\<close> shrinks in every round, so
  one round more than the array has points is enough fuel.
\<close>

fun find_loop :: "nat \<Rightarrow> points_list \<Rightarrow> bytes \<Rightarrow> timestamp \<Rightarrow> nat \<Rightarrow> nat \<Rightarrow> ptr res" where
  "find_loop 0 points m timestamp left right = Inl OutOfFuel"
| "find_loop (Suc fuel) points m timestamp left right =
     (if left < right then
        let mid = u64 (right + left) div 2
        in bindR (load_time m (data_point_at points mid)) (\<lambda>t.
             let cmp = data_point_compare timestamp t
             in if cmp < 0 then find_loop fuel points m timestamp left mid
                else if cmp > 0 then find_loop fuel points m timestamp (u64 (mid + 1)) right
                else Inr (data_point_at points mid))
      else Inr (data_point_at points left))"

definition data_point_find :: "points_list \<Rightarrow> bytes \<Rightarrow> timestamp \<Rightarrow> ptr res" where
  "data_point_find points m timestamp =
     (if content points = Null \<or> count_pl points = 0 then Inr Null
      else bindR (load_time m (content points)) (\<lambda>first.
        if data_point_compare timestamp first < 0 then Inr (content points)
        else bindR (load_time m (points_list_last points)) (\<lambda>last.
          if data_point_compare timestamp last > 0 then Inr (points_list_end points)
          else find_loop (Suc (count_pl points)) points m timestamp 0 (count_pl points))))"

section \<open>Arrays of points in memory\<close>

text \<open>
  \<open>plist m points pre cs post\<close>: the object \<open>m\<close> holds the points \<open>cs\<close> where \<open>points\<close> says, with
  \<open>pre\<close> before and \<open>post\<close> after them.  Every object is smaller than half the address space.
\<close>

definition plist :: "bytes \<Rightarrow> points_list \<Rightarrow> bytes \<Rightarrow> point list \<Rightarrow> bytes \<Rightarrow> bool" where
  "plist m points pre cs post \<longleftrightarrow>
     m = pre @ concat cs @ post \<and> length m < 2 ^ 63 \<and>
     content points = Ptr (int (length pre)) \<and> count_pl points = length cs \<and>
     8 \<le> point_size points \<and> all_len (point_size points) cs"

lemma plistD:
  assumes "plist m points pre cs post"
  shows "m = pre @ concat cs @ post" and "length m < 2 ^ 63"
    and "content points = Ptr (int (length pre))" and "count_pl points = length cs"
    and "8 \<le> point_size points" and "0 < point_size points" and "all_len (point_size points) cs"
  using assms by (auto simp: plist_def)

lemma plist_bound:
  assumes "plist m points pre cs post" and "i \<le> length cs"
  shows "i * point_size points < 2 ^ 63"
proof -
  have "i * point_size points \<le> length cs * point_size points"
    using assms(2) by (rule mult_le_mono1)
  also have "\<dots> \<le> length m" using assms(1) by (auto simp: plist_def)
  also have "\<dots> < 2 ^ 63" using assms(1) by (auto simp: plist_def)
  finally show ?thesis .
qed

lemma plist_length_less:
  assumes "plist m points pre cs post"
  shows "length cs < 2 ^ 60"
proof -
  have "length cs * 8 \<le> length cs * point_size points"
    using assms by (intro mult_le_mono2) (simp add: plist_def)
  with plist_bound [OF assms order.refl] have "length cs * 8 < 2 ^ 63"
    using le_less_trans by blast
  then show ?thesis by simp
qed

lemma plist_at:
  assumes "plist m points pre cs post" and "i \<le> length cs"
  shows "data_point_at points i = elem (length pre) (point_size points) i"
  using plist_bound [OF assms] assms by (simp add: data_point_at_def plist_def u64_id elem_def)

lemma plist_end:
  "plist m points pre cs post \<Longrightarrow> points_list_end points = elem (length pre) (point_size points) (length cs)"
  by (subst plist_at [symmetric]) (auto simp: points_list_end_def plist_def)

lemma plist_last:
  assumes "plist m points pre cs post" and "cs \<noteq> []"
  shows "points_list_last points = elem (length pre) (point_size points) (length cs - 1)"
proof -
  have "u64_sub (length cs) 1 = length cs - 1"
    using plist_length_less [OF assms(1)] assms(2) by (intro u64_sub_le) (cases cs; simp)+
  then show ?thesis
    using plist_at [OF assms(1), of "length cs - 1"] assms(1) by (simp add: points_list_last_def plist_def)
qed

lemma next_elem [simp]: "data_point_next points (elem a (point_size points) i) = elem a (point_size points) (Suc i)"
  by (simp add: data_point_next_def)

lemma plist_load_time:
  assumes "plist m points pre cs post" and "i < length cs"
  shows "load_time m (elem (length pre) (point_size points) i) = Inr (point_time (cs ! i))"
proof -
  let ?p = "elem (length pre) (point_size points) i"
  have "load m ?p (point_size points) = Inr (cs ! i)"
    using assms by (auto simp: plist_def load_record)
  then have "load m ?p 8 = Inr (take 8 (cs ! i))"
    using plistD(5) [OF assms(1)] by (rule load_take)
  then show ?thesis by (simp add: load_time_def point_time_def)
qed

lemma plist_dist:
  assumes "plist m points pre cs post" and "i \<le> j" and "j \<le> length cs"
  shows "data_point_dist points (elem (length pre) (point_size points) i)
           (elem (length pre) (point_size points) j) = Inr (j - i)"
proof -
  have "int j * int (point_size points) - int i * int (point_size points)
        = int (j - i) * int (point_size points)"
    using assms(2) by (simp add: left_diff_distrib)
  moreover have "j - i < 2 ^ 64"
    using plist_length_less [OF assms(1)] assms(3) by simp
  moreover have "0 < point_size points" using assms(1) by (simp add: plist_def)
  ultimately show ?thesis
    by (simp add: data_point_dist_def elem_def Let_def not_less nat_less_iff mult_less_0_iff)
qed

lemma plist_index:
  assumes "plist m points pre cs post" and "j \<le> length cs"
  shows "data_point_index points (elem (length pre) (point_size points) j) = Inr j"
  using plist_dist [OF assms(1), of 0 j] assms by (simp add: data_point_index_def plist_def)

lemma plist_slice:
  assumes pl: "plist m points pre cs post" and "b \<le> e" and "e \<le> length cs"
  shows "plist m \<lparr>content = elem (length pre) (point_size points) b, count_pl = e - b, point_size = point_size points\<rparr>
    (pre @ concat (take b cs)) (take (e - b) (drop b cs)) (concat (drop e cs) @ post)"
proof -
  have "cs = take b cs @ take (e - b) (drop b cs) @ drop e cs"
    using assms(2) by (metis append_take_drop_id drop_drop le_add_diff_inverse2)
  then have "concat cs = concat (take b cs) @ concat (take (e - b) (drop b cs)) @ concat (drop e cs)"
    by (metis concat_append)
  moreover have "length (concat (take b cs)) = b * point_size points"
    using length_concat_all_len [of "point_size points" "take b cs"] plistD(7) [OF pl] assms by simp
  ultimately show ?thesis
    unfolding plist_def using plistD [OF pl] assms(2,3) by (simp add: elem_def)
qed

section \<open>Searching finds the boundary\<close>

lemma find_loop_step:
  assumes pl: "plist m points pre cs post" and lr: "left < right" "right \<le> length cs"
  obtains mid where "left \<le> mid" "mid < right"
    and "find_loop (Suc fuel) points m t left right =
        (if t < point_time (cs ! mid) then find_loop fuel points m t left mid
         else if point_time (cs ! mid) < t then find_loop fuel points m t (mid + 1) right
         else Inr (elem (length pre) (point_size points) mid))"
proof -
  define mid where "mid = u64 (right + left) div 2"
  have "right + left < 2 ^ 64" using plist_length_less [OF pl] lr by simp
  then have mid: "left \<le> mid" "mid < right" using lr by (auto simp: mid_def u64_id)
  have at: "data_point_at points mid = elem (length pre) (point_size points) mid"
    using plist_at [OF pl, of mid] mid lr by simp
  have time: "load_time m (elem (length pre) (point_size points) mid) = Inr (point_time (cs ! mid))"
    using mid lr by (intro plist_load_time [OF pl]) simp
  have wrap: "u64 (mid + 1) = mid + 1"
    using plist_length_less [OF pl] mid lr by (intro u64_id) simp
  show thesis
    using lr time wrap at
    by (intro that [OF mid]) (auto simp: mid_def [symmetric] data_point_compare_def Let_def)
qed

lemma find_loop_spec:
  assumes pl: "plist m points pre cs post"
    and so: "sorted (map point_time cs)"
    and hit: "\<And>i. i < length cs \<Longrightarrow> point_time (cs ! i) = t \<Longrightarrow> i = lower_bound t cs"
    and "left \<le> lower_bound t cs" and "lower_bound t cs \<le> right" and "right \<le> length cs"
    and "right - left < fuel"
  shows "find_loop fuel points m t left right
         = Inr (elem (length pre) (point_size points) (lower_bound t cs))"
  using assms(4-)
proof (induction fuel arbitrary: left right)
  case (Suc fuel)
  show ?case
  proof (cases "left < right")
    case False
    with Suc.prems have "left = lower_bound t cs" by simp
    with False plist_at [OF pl, of left] lower_bound_le [of t cs] show ?thesis by simp
  next
    case True
    obtain mid where mid: "left \<le> mid" "mid < right" and step: "find_loop (Suc fuel) points m t left right =
        (if t < point_time (cs ! mid) then find_loop fuel points m t left mid
         else if point_time (cs ! mid) < t then find_loop fuel points m t (mid + 1) right
         else Inr (elem (length pre) (point_size points) mid))"
      using find_loop_step [OF pl True Suc.prems(3)] by blast
    consider "t < point_time (cs ! mid)" | "point_time (cs ! mid) < t" | "point_time (cs ! mid) = t"
      by fastforce
    then show ?thesis
    proof cases
      case 1
      then have "lower_bound t cs \<le> mid"
        using nth_before_lower_bound [of mid t cs] by (meson not_le order.asym)
      with 1 mid Suc.prems show ?thesis unfolding step by (simp add: Suc.IH)
    next
      case 2
      then have "mid < lower_bound t cs"
        using nth_after_lower_bound [OF so, of t mid] mid Suc.prems by (meson leD le_less_trans not_le order.strict_trans2)
      with 2 mid Suc.prems show ?thesis unfolding step by (simp add: Suc.IH order.asym)
    next
      case 3
      then have "mid = lower_bound t cs" using hit mid Suc.prems by simp
      with 3 show ?thesis unfolding step by simp
    qed
  qed
qed simp

lemma data_point_find_lower_bound:
  assumes pl: "plist m points pre cs post" and "cs \<noteq> []"
    and so: "sorted (map point_time cs)"
    and hit: "\<And>i. i < length cs \<Longrightarrow> point_time (cs ! i) = t \<Longrightarrow> i = lower_bound t cs"
  shows "data_point_find points m t = Inr (elem (length pre) (point_size points) (lower_bound t cs))"
proof -
  let ?el = "elem (length pre) (point_size points)"
  let ?n = "length cs"
  have pos: "0 < ?n" using assms(2) by simp
  have start: "content points = ?el 0" "count_pl points = ?n"
    using pl by (auto simp: plist_def)
  have first: "load_time m (content points) = Inr (point_time (cs ! 0))"
    unfolding start by (rule plist_load_time [OF pl pos])
  have last: "load_time m (points_list_last points) = Inr (point_time (cs ! (?n - 1)))"
    unfolding plist_last [OF pl assms(2)] using pos by (intro plist_load_time [OF pl]) simp
  have before: "lower_bound t cs = 0" if "t < point_time (cs ! 0)"
    using nth_before_lower_bound [of 0 t cs] that by (meson gr0I order.asym)
  have after: "lower_bound t cs = ?n" if "point_time (cs ! (?n - 1)) < t"
    using nth_after_lower_bound [OF so, of t "?n - 1"] that pos lower_bound_le [of t cs]
    by (metis Suc_diff_1 le_antisym leD less_Suc_eq_le not_less diff_less zero_less_one)
  have loop: "find_loop (Suc ?n) points m t 0 ?n = Inr (?el (lower_bound t cs))"
    using lower_bound_le [of t cs] by (intro find_loop_spec [OF pl so hit]) auto
  show ?thesis
    using pos first last before after loop plist_end [OF pl]
    by (auto simp: data_point_find_def data_point_compare_def start)
qed

lemma find_strict:
  assumes "plist m points pre cs post" and "cs \<noteq> []" and "strict cs"
  shows "data_point_find points m t = Inr (elem (length pre) (point_size points) (lower_bound t cs))"
  using data_point_find_lower_bound [OF assms(1,2) strict_sorted [OF assms(3)]] strict_hit [OF assms(3)] by blast

section \<open>Merging implements the merge of timelines\<close>

text \<open>
  \<open>filled pre rs post acc\<close>: the object whose array of records \<open>rs\<close> has been overwritten by \<open>acc\<close>
  from its start.
\<close>

definition filled :: "bytes \<Rightarrow> point list \<Rightarrow> bytes \<Rightarrow> point list \<Rightarrow> bytes" where
  "filled pre rs post acc = pre @ concat (acc @ drop (length acc) rs) @ post"

lemma copy_point:
  assumes "plist m points pre cs post" and "i < length cs" and "point_size points = ps"
    and "all_len ps acc" and "all_len ps rs" and "length acc < length rs"
  shows "copy_between (filled rpre rs rpost acc) (elem (length rpre) ps (length acc))
           m (elem (length pre) ps i) ps
         = Inr (filled rpre rs rpost (acc @ [cs ! i]))"
proof -
  have "load m (elem (length pre) ps i) ps = Inr (cs ! i)"
    using plistD [OF assms(1)] assms(2,3) by (auto simp: load_record)
  moreover have "store (filled rpre rs rpost acc) (elem (length rpre) ps (length acc)) (cs ! i)
      = Inr (rpre @ concat ((acc @ drop (length acc) rs)[length acc := cs ! i]) @ rpost)"
    unfolding filled_def using assms plistD(7) [OF assms(1)] by (intro store_record) auto
  moreover have "(acc @ drop (length acc) rs)[length acc := cs ! i]
      = (acc @ [cs ! i]) @ drop (length (acc @ [cs ! i])) rs"
    using assms(6) by (simp add: list_update_append Cons_nth_drop_Suc [symmetric])
  ultimately show ?thesis by (simp add: copy_between_def filled_def)
qed

text \<open>
  One round of the merge: the next point of \<open>merge_pts\<close> is written behind the ones already there,
  and the cursor it came from moves on, both cursors when the times are equal.
\<close>

lemma merge_loop_step:
  assumes S: "plist sm src spre ss spost" and D: "plist dm dst dpre ds dpost"
    and sz: "point_size src = ps" "point_size dst = ps" "point_size result = ps"
    and rs: "all_len ps rs" "length acc < length rs - dup" and acc: "all_len ps acc"
    and ij: "i \<le> length ss" "j \<le> length ds" "\<not> (i = length ss \<and> j = length ds)"
  obtains c i' j' dup' where "merge_pts (drop i ss) (drop j ds) = c # merge_pts (drop i' ss) (drop j' ds)"
    and "i \<le> i'" "i' \<le> length ss" "j \<le> j'" "j' \<le> length ds" "i + j < i' + j'" "dup' + i + j + 1 = dup + i' + j'"
    and "length c = ps"
    and "merge_loop src sm dst dm result (length rs) (elem (length spre) ps i) (elem (length dpre) ps j)
           (elem (length rpre) ps (length acc)) (length acc) dup (filled rpre rs rpost acc)
         = merge_loop src sm dst dm result (length rs) (elem (length spre) ps i') (elem (length dpre) ps j')
           (elem (length rpre) ps (length (acc @ [c]))) (length (acc @ [c])) dup' (filled rpre rs rpost (acc @ [c]))"
proof -
  have ps: "0 < ps" using plistD(6) [OF S] sz(1) by simp
  have ends: "elem (length spre) ps i = points_list_end src \<longleftrightarrow> length ss \<le> i"
    "elem (length dpre) ps j = points_list_end dst \<longleftrightarrow> length ds \<le> j"
    using plist_end [OF S] plist_end [OF D] sz ps ij(1,2) by auto
  note nexts = next_elem [of src, unfolded sz] next_elem [of dst, unfolded sz] next_elem [of result, unfolded sz]
  have room: "length acc < length rs" using rs(2) by simp
  note copyS = copy_point [OF S _ sz(1) acc rs(1) room] and copyD = copy_point [OF D _ sz(2) acc rs(1) room]
  note unfold = merge_loop.simps [of src sm dst dm result "length rs" "elem (length spre) ps i" "elem (length dpre) ps j"]
  note lens = all_len_nth [OF plistD(7) [OF S]] all_len_nth [OF plistD(7) [OF D]]
  have drS: "drop i ss = ss ! i # drop (Suc i) ss" if "i < length ss" using that by (simp add: Cons_nth_drop_Suc)
  have drD: "drop j ds = ds ! j # drop (Suc j) ds" if "j < length ds" using that by (simp add: Cons_nth_drop_Suc)
  consider (src) "length ss \<le> i" "j < length ds" | (dst) "i < length ss" "length ds \<le> j"
    | (both) "i < length ss" "j < length ds" using ij by linarith
  then show thesis
  proof cases
    case src
    then show thesis
      using rs(2) lens sz ij by (intro that [of "ds ! j" i "Suc j" dup]) (simp_all add: unfold ends copyD nexts drD)
  next
    case dst
    then show thesis
      using rs(2) lens sz ij by (intro that [of "ss ! i" "Suc i" j dup]) (simp_all add: unfold ends copyS nexts drS)
  next
    case both
    have times: "load_time dm (elem (length dpre) ps j) = Inr (point_time (ds ! j))"
      "load_time sm (elem (length spre) ps i) = Inr (point_time (ss ! i))"
      using plist_load_time [OF D both(2)] plist_load_time [OF S both(1)] sz by auto
    note facts = both rs(2) lens sz times
    note rules = unfold ends copyS copyD nexts drS drD
    consider "\<not> point_time (ds ! j) < point_time (ss ! i)" "point_time (ss ! i) \<noteq> point_time (ds ! j)" | "point_time (ds ! j) < point_time (ss ! i)"
      | "point_time (ss ! i) = point_time (ds ! j)" by fastforce
    then show thesis
    proof cases
      case 1
      then show thesis using facts by (intro that [of "ss ! i" "Suc i" j dup]) (simp_all add: rules)
    next
      case 2
      then show thesis using facts by (intro that [of "ds ! j" i "Suc j" dup]) (simp_all add: rules)
    next
      case 3
      then show thesis using facts by (intro that [of "ss ! i" "Suc i" "Suc j" "Suc dup"]) (simp_all add: rules)
    qed
  qed
qed

lemma merge_loop_spec:
  assumes S: "plist sm src spre ss spost" and D: "plist dm dst dpre ds dpost"
    and sz: "point_size src = ps" "point_size dst = ps" "point_size result = ps"
    and rs: "all_len ps rs" "length rs = length ss + length ds"
    and "i \<le> length ss" and "j \<le> length ds" and "length acc + dup = i + j" and "all_len ps acc"
  shows "merge_loop src sm dst dm result (length rs) (elem (length spre) ps i) (elem (length dpre) ps j)
           (elem (length rpre) ps (length acc)) (length acc) dup (filled rpre rs rpost acc)
         = Inr (length rs - length (acc @ merge_pts (drop i ss) (drop j ds)),
             filled rpre rs rpost (acc @ merge_pts (drop i ss) (drop j ds)))"
  using assms(8-)
proof (induction "length ss - i + (length ds - j)" arbitrary: i j acc dup rule: less_induct)
  case less
  show ?case
  proof (cases "i = length ss \<and> j = length ds")
    case True
    with less.prems rs have "\<not> length acc < length rs - dup" "dup = length rs - length acc" by auto
    with True show ?thesis by (simp add: merge_loop.simps [of src])
  next
    case False
    then have "length acc < length rs - dup" using less.prems rs(2) by auto
    from merge_loop_step [OF S D sz rs(1) this less.prems(4,1,2) False] obtain c i' j' dup' where
      c: "merge_pts (drop i ss) (drop j ds) = c # merge_pts (drop i' ss) (drop j' ds)" "length c = ps"
      and ij: "i \<le> i'" "i' \<le> length ss" "j \<le> j'" "j' \<le> length ds" "i + j < i' + j'" "dup' + i + j + 1 = dup + i' + j'"
      and step: "merge_loop src sm dst dm result (length rs) (elem (length spre) ps i) (elem (length dpre) ps j)
           (elem (length rpre) ps (length acc)) (length acc) dup (filled rpre rs rpost acc)
         = merge_loop src sm dst dm result (length rs) (elem (length spre) ps i') (elem (length dpre) ps j')
           (elem (length rpre) ps (length (acc @ [c]))) (length (acc @ [c])) dup' (filled rpre rs rpost (acc @ [c]))"
      by metis
    have "length ss - i' + (length ds - j') < length ss - i + (length ds - j)" using ij by linarith
    from less.hyps [OF this, of "acc @ [c]" dup'] less.prems ij c show ?thesis unfolding step by simp
  qed
qed

text \<open>
  \<open>data_point_merge\<close> is \<open>merge_pts\<close>: given room for both inputs, the result holds their merge and
  says how long it is.
\<close>

lemma data_point_merge_spec:
  assumes S: "plist sm src spre ss spost" and D: "plist dm dst dpre ds dpost"
    and sz: "point_size src = ps" "point_size dst = ps" "point_size result = ps"
    and rs: "all_len ps rs" "length rs = length ss + length ds"
    and R: "content result = Ptr (int (length rpre))" "count_pl result = length rs"
  shows "data_point_merge src sm dst dm result (rpre @ concat rs @ rpost)
         = Inr (result\<lparr>count_pl := length (merge_pts ss ds)\<rparr>, filled rpre rs rpost (merge_pts ss ds))"
proof -
  have loop: "merge_loop src sm dst dm result (length rs) (content src) (content dst) (content result)
      0 0 (rpre @ concat rs @ rpost)
    = Inr (length rs - length (merge_pts ss ds), filled rpre rs rpost (merge_pts ss ds))"
    using merge_loop_spec [OF S D sz rs, of 0 0 "[]" 0 rpre rpost] plistD(3) [OF S] plistD(3) [OF D] R
    by (simp add: filled_def)
  have "length rs < 2 ^ 64"
    using plist_length_less [OF S] plist_length_less [OF D] rs(2) by simp
  moreover have "length (merge_pts ss ds) \<le> length rs"
    using length_merge_pts_le [of ss ds] rs(2) by simp
  ultimately have "u64_sub (length rs) (length rs - length (merge_pts ss ds)) = length (merge_pts ss ds)"
    by (subst u64_sub_le) auto
  with loop show ?thesis by (simp add: data_point_merge_def R(2))
qed

section \<open>Sorting and filtering\<close>

lemma cmp_order_point_cmp: "cmp_order point_cmp"
  by (auto simp: cmp_order_def point_cmp_def data_point_compare_def split: if_splits)

lemma point_cmp_le: "point_cmp a b \<le> 0 \<longleftrightarrow> point_time a \<le> point_time b"
  by (auto simp: point_cmp_def data_point_compare_def)

context c_qsort
begin

lemma sorted_points: "sorted (map point_time (qs point_cmp cs))"
  using qs_ascending [OF cmp_order_point_cmp, of cs]
  by (simp add: point_cmp_le sorted_wrt_map sorted_wrt_iff_nth_less sorted_iff_nth_mono_less)

lemmas points_perm = qs_perm [OF cmp_order_point_cmp]
lemmas points_set = qs_set [OF cmp_order_point_cmp]
lemmas points_length = qs_length [OF cmp_order_point_cmp]
lemmas points_all_len = qs_all_len [OF cmp_order_point_cmp]

end

lemma data_point_sort_spec:
  assumes "c_qsort (qsort P)" and pl: "plist m points pre cs post"
  shows "data_point_sort P points m = Inr (pre @ concat (qsort P point_cmp cs) @ post)"
proof (cases "length cs \<le> 1")
  case True
  then have "qsort P point_cmp cs = cs"
    using c_qsort.points_perm [OF assms(1), of cs] by (cases cs) auto
  with True plistD [OF pl] show ?thesis by (simp add: data_point_sort_def)
next
  case False
  let ?ps = "point_size points"
  have "load m (elem (length pre) ?ps 0) (length cs * ?ps) = Inr (concat cs)"
    using plistD [OF pl] load_records [of ?ps cs 0 "length cs" pre post] by simp
  moreover have "store m (elem (length pre) ?ps 0) (concat (qsort P point_cmp cs))
      = Inr (pre @ concat (qsort P point_cmp cs) @ post)"
    using plistD [OF pl] c_qsort.points_length [OF assms(1)] c_qsort.points_all_len [OF assms(1)]
    by (subst plistD(1) [OF pl], subst store_records) auto
  ultimately show ?thesis
    using False plistD [OF pl] by (simp add: data_point_sort_def)
qed

text \<open>
  The compaction loop: the array is \<open>acc @ junk @ rest\<close>, the points kept so far, those they have
  overwritten or skipped, and those still to come.  \<open>kept points k\<close> is \<^verbatim>\<open>tail\<close> after \<open>k\<close> points.
\<close>

definition kept :: "points_list \<Rightarrow> nat \<Rightarrow> nat \<Rightarrow> ptr" where
  "kept points a k = (if k = 0 then data_point_prev points (Ptr (int a)) else elem a (point_size points) (k - 1))"

lemma next_kept: "data_point_next points (kept points a k) = elem a (point_size points) k"
  by (cases k) (simp_all add: kept_def data_point_prev_def data_point_next_def elem_def algebra_simps)

lemma kept_less: "0 < point_size points \<Longrightarrow> kept points a k < Ptr (int a) \<longleftrightarrow> k = 0"
  by (auto simp: kept_def data_point_prev_def elem_def mult_less_0_iff)

lemma plist_update:
  assumes "plist m points pre cs post" and "all_len (point_size points) ds" and "length ds = length cs"
  shows "plist (pre @ concat ds @ post) points pre ds post"
  using assms by (auto simp: plist_def)

text \<open>One round, in its three ways: skip a zero, keep a new time, replace the last one.\<close>

lemma nzd_loop_skip:
  "cur < fin \<Longrightarrow> load_time m cur = Inr 0 \<Longrightarrow>
   nzd_loop (Suc fuel) points fin cur tail m
   = nzd_loop fuel points fin (data_point_next points cur) tail m"
  by simp

lemma nzd_loop_keep:
  assumes "cur < fin" and "load_time m cur = Inr t" and "t \<noteq> 0"
    and "tail < content points \<or> load_time m tail = Inr tt \<and> tt < t"
    and "memcpy m (data_point_next points tail) cur (point_size points) = Inr m'"
  shows "nzd_loop (Suc fuel) points fin cur tail m
         = nzd_loop fuel points fin (data_point_next points cur) (data_point_next points tail) m'"
  using assms by (cases "tail < content points") (simp_all add: Let_def)

lemma nzd_loop_replace:
  assumes "cur < fin" and "load_time m cur = Inr t" and "t \<noteq> 0"
    and "\<not> tail < content points" and "load_time m tail = Inr tt" and "\<not> tt < t"
    and "memcpy m tail cur (point_size points) = Inr m'"
  shows "nzd_loop (Suc fuel) points fin cur tail m
         = nzd_loop fuel points fin (data_point_next points cur) tail m'"
  using assms by (simp add: Let_def)

declare nzd_loop.simps(2) [simp del]

text \<open>
  One round on the array \<open>acc @ junk @ c # rest\<close>: afterwards the array is \<open>acc' @ junk' @ rest\<close>, where
  \<open>acc'\<close> is what \<open>nzd_list\<close> keeps of \<open>acc\<close> and \<open>c\<close>.
\<close>

lemma nzd_loop_round:
  assumes pl: "plist m points pre (acc @ junk @ c # rest) post"
    and n: "n = length (acc @ junk @ c # rest)" and i: "i = length (acc @ junk)"
  obtains acc' junk' where "length (acc' @ junk') = Suc i" and "all_len (point_size points) (acc' @ junk')"
    and "nzd_list acc (c # rest) = nzd_list acc' rest"
    and "nzd_loop (Suc fuel) points (elem (length pre) (point_size points) n)
           (elem (length pre) (point_size points) i) (kept points (length pre) (length acc)) m
         = nzd_loop fuel points (elem (length pre) (point_size points) n)
           (elem (length pre) (point_size points) (Suc i)) (kept points (length pre) (length acc'))
           (pre @ concat (acc' @ junk' @ rest) @ post)"
proof -
  let ?ps = "point_size points" and ?k = "length acc" and ?cs = "acc @ junk @ c # rest"
  let ?el = "elem (length pre) ?ps"
  note D = plistD [OF pl]
  have lt: "?el i < ?el n" using D(6) n i by simp
  have nth: "?cs ! i = c" using i by (simp add: nth_append)
  have time: "load_time m (?el i) = Inr (point_time c)" using plist_load_time [OF pl, of i] nth i by simp
  have tail: "load_time m (kept points (length pre) ?k) = Inr (point_time (last acc))" if "acc \<noteq> []"
    using plist_load_time [OF pl, of "?k - 1"] that by (simp add: kept_def nth_append last_conv_nth)
  have kl: "kept points (length pre) ?k < content points \<longleftrightarrow> acc = []"
    unfolding D(3) using kept_less [OF D(6)] by simp
  have copy: "memcpy m (?el j) (?el i) ?ps = Inr (pre @ concat (?cs[j := c]) @ post)" if "j \<le> i" for j
    using copy_record [OF D(7), of j i pre post] that nth D(1) i by simp
  consider (zero) "point_time c = 0"
    | (keep) "point_time c \<noteq> 0" "acc = [] \<or> point_time (last acc) < point_time c"
    | (replace) "point_time c \<noteq> 0" "acc \<noteq> []" "\<not> point_time (last acc) < point_time c" by blast
  then show thesis
  proof cases
    case zero
    then show thesis
      using nzd_loop_skip [OF lt] time D(1,7) i by (intro that [of acc "junk @ [c]"]) simp_all
  next
    case keep
    have eq: "?cs[?k := c] = (acc @ [c]) @ tl (junk @ [c]) @ rest" by (cases junk) (simp_all add: list_update_append)
    have "nzd_loop (Suc fuel) points (?el n) (?el i) (kept points (length pre) ?k) m
        = nzd_loop fuel points (?el n) (?el (Suc i)) (?el ?k) (pre @ concat (?cs[?k := c]) @ post)"
      unfolding next_elem [symmetric] using keep tail kl copy [of ?k] i
      by (subst next_kept [symmetric], intro nzd_loop_keep [OF lt time keep(1), where tt = "point_time (last acc)"])
        (auto simp: next_kept)
    with keep D(7) i eq show thesis
      by (intro that [of "acc @ [c]" "tl (junk @ [c])"]) (cases junk; simp add: kept_def del: concat_append)+
  next
    case replace
    then obtain bs b where acc: "acc = bs @ [b]" by (metis append_butlast_last_id)
    have eq: "?cs[?k - 1 := c] = (butlast acc @ [c]) @ (junk @ [c]) @ rest" unfolding acc by (simp add: list_update_append)
    have k1: "kept points (length pre) ?k = ?el (?k - 1)" using replace(2) by (simp add: kept_def)
    have "nzd_loop (Suc fuel) points (?el n) (?el i) (kept points (length pre) ?k) m
        = nzd_loop fuel points (?el n) (?el (Suc i)) (kept points (length pre) ?k) (pre @ concat (?cs[?k - 1 := c]) @ post)"
      using replace tail kl i copy [of "?k - 1"] k1
      by (subst nzd_loop_replace [OF lt time replace(1), where tt = "point_time (last acc)"]) auto
    with replace D(7) i eq acc show thesis
      by (intro that [of "butlast acc @ [c]" "junk @ [c]"]) (simp_all del: concat_append)
  qed
qed

lemma nzd_loop_spec:
  assumes "plist m points pre (acc @ junk @ rest) post" and "length rest < fuel"
    and "n = length (acc @ junk @ rest)" and "i = length (acc @ junk)"
  shows "\<exists>left. length (nzd_list acc rest @ left) = n \<and>
           all_len (point_size points) (nzd_list acc rest @ left) \<and>
           nzd_loop fuel points (elem (length pre) (point_size points) n)
             (elem (length pre) (point_size points) i) (kept points (length pre) (length acc)) m
           = Inr (kept points (length pre) (length (nzd_list acc rest)),
                  pre @ concat (nzd_list acc rest @ left) @ post)"
  using assms
proof (induction rest arbitrary: acc junk m fuel i)
  case Nil
  then obtain f where "fuel = Suc f" by (cases fuel) auto
  with plistD [OF Nil.prems(1)] Nil.prems(3,4) show ?case
    by (intro exI [of _ junk]) (simp add: nzd_loop.simps)
next
  case (Cons c rest)
  let ?el = "elem (length pre) (point_size points)"
  from Cons.prems(2) obtain f where f: "fuel = Suc f" "length rest < f" by (cases fuel) auto
  obtain acc' junk' where new: "length (acc' @ junk') = Suc i" "all_len (point_size points) (acc' @ junk')"
    and keep: "nzd_list acc (c # rest) = nzd_list acc' rest"
    and step: "nzd_loop (Suc f) points (?el n) (?el i) (kept points (length pre) (length acc)) m
      = nzd_loop f points (?el n) (?el (Suc i)) (kept points (length pre) (length acc')) (pre @ concat (acc' @ junk' @ rest) @ post)"
    using nzd_loop_round [OF Cons.prems(1,3,4)] by metis
  have "plist (pre @ concat (acc' @ junk' @ rest) @ post) points pre (acc' @ junk' @ rest) post"
    using new plistD(7) [OF Cons.prems(1)] Cons.prems(4) by (intro plist_update [OF Cons.prems(1)]) auto
  from Cons.IH [OF this f(2), of "Suc i"] new(1) Cons.prems(3,4) show ?case
    unfolding keep f(1) step by simp
qed

text \<open>
  The compacted array starts with what \<open>nzd_list\<close> keeps, and the returned count is its length.
\<close>

lemma data_point_non_zero_distinct_spec:
  assumes pl: "plist m points pre cs post"
  obtains left where "length (nzd_list [] cs @ left) = length cs"
    and "all_len (point_size points) (nzd_list [] cs @ left)"
    and "data_point_non_zero_distinct points m
         = Inr (length (nzd_list [] cs), pre @ concat (nzd_list [] cs @ left) @ post)"
proof -
  have pl': "plist m points pre ([] @ [] @ cs) post" using pl by simp
  obtain left where left: "length (nzd_list [] cs @ left) = length cs"
    "all_len (point_size points) (nzd_list [] cs @ left)"
    and loop: "nzd_loop (Suc (length cs)) points (elem (length pre) (point_size points) (length cs))
        (elem (length pre) (point_size points) 0) (kept points (length pre) 0) m
      = Inr (kept points (length pre) (length (nzd_list [] cs)), pre @ concat (nzd_list [] cs @ left) @ post)"
    using nzd_loop_spec [OF pl', of "Suc (length cs)" "length cs" 0]
    unfolding append_Nil list.size by blast
  have "length (nzd_list [] cs) \<le> length cs" using length_nzd_list_le [of "[]" cs] by simp
  note index = plist_index [OF pl this]
  have start: "data_point_prev points (content points) = kept points (length pre) 0"
    "content points = elem (length pre) (point_size points) 0"
    by (simp_all add: kept_def plistD(3) [OF pl])
  have "data_point_non_zero_distinct points m
      = Inr (length (nzd_list [] cs), pre @ concat (nzd_list [] cs @ left) @ post)"
    unfolding data_point_non_zero_distinct_def start(1) plistD(4) [OF pl] plist_end [OF pl]
    unfolding start(2) loop by (simp only: bindR_Inr prod.case next_kept index)
  with left show thesis by (rule that)
qed

section \<open>Sizes\<close>

text \<open>Whatever the arguments are, sorting and compacting never change the size of an object.\<close>

lemma memcpy_length: "memcpy m d s n = Inr m' \<Longrightarrow> length m' = length m"
  by (auto simp: memcpy_def memmove_def split: if_splits elim!: bindR_InrE dest: store_length)

lemma data_point_sort_length: "data_point_sort P points m = Inr m' \<Longrightarrow> length m' = length m"
  by (auto simp: data_point_sort_def split: if_splits elim!: bindR_InrE dest: store_length)

lemma nzd_loop_length: "nzd_loop fuel points fin cur tail m = Inr (tail', m') \<Longrightarrow> length m' = length m"
proof (induction fuel arbitrary: cur tail m)
  case (Suc fuel)
  from Suc.prems show ?case
    by (auto simp: nzd_loop.simps Let_def split: if_splits elim!: bindR_InrE) (metis Suc.IH memcpy_length)+
qed (simp add: nzd_loop.simps)

lemma data_point_non_zero_distinct_length:
  "data_point_non_zero_distinct points m = Inr (n, m') \<Longrightarrow> length m' = length m"
  by (auto simp: data_point_non_zero_distinct_def elim!: bindR_InrE dest: nzd_loop_length)

section \<open>Properties\<close>

text \<open>The inputs of the witnesses: arrays of sample points at the start of their object.\<close>

definition sample_list :: "nat \<Rightarrow> points_list" where
  "sample_list n = \<lparr>content = Ptr 0, count_pl = n, point_size = 16\<rparr>"

text \<open>
  C12: \<^verbatim>\<open>data_point_find\<close> on a non-empty ordered array returns the boundary: every point before the
  returned element is earlier than the searched time, and none from it on is.
\<close>

theorem data_point_find_boundary:
  assumes "plist m points pre cs post" and "cs \<noteq> []" and "strict cs"
  shows "\<exists>i\<le>length cs. data_point_find points m t = Inr (data_point_at points i) \<and>
           (\<forall>j<i. point_time (cs ! j) < t) \<and> (\<forall>j<length cs. i \<le> j \<longrightarrow> t \<le> point_time (cs ! j))"
  using find_strict [OF assms] plist_at [OF assms(1) lower_bound_le] lower_bound_le
    nth_before_lower_bound nth_after_lower_bound [OF strict_sorted [OF assms(3)]]
  by (intro exI [of _ "lower_bound t cs"]) auto

theorem data_point_find_boundary_witness:
  "\<exists>i\<le>length [sample 10 1, sample 20 2, sample 30 3].
     data_point_find (sample_list 3) (concat [sample 10 1, sample 20 2, sample 30 3]) 15
       = Inr (data_point_at (sample_list 3) i) \<and>
     (\<forall>j<i. point_time ([sample 10 1, sample 20 2, sample 30 3] ! j) < 15) \<and>
     (\<forall>j<length [sample 10 1, sample 20 2, sample 30 3].
        i \<le> j \<longrightarrow> 15 \<le> point_time ([sample 10 1, sample 20 2, sample 30 3] ! j))"
  by (rule data_point_find_boundary [where pre = "[]" and post = "[]"]) (simp_all add: plist_def sample_list_def)

text \<open>
  C11: \<^verbatim>\<open>data_point_merge\<close> of two ordered arrays writes into the result block an ordered array that,
  as a map from times to points, is the destination overridden by the source, and sets the
  result's count to its length; the rest of the block is left as it was.
\<close>

theorem data_point_merge_overrides:
  assumes "plist sm src spre ss spost" and "plist dm dst dpre ds dpost" and "strict ss" and "strict ds"
    and "point_size src = ps" and "point_size dst = ps" and "point_size result = ps"
    and "all_len ps rs" and "length rs = length ss + length ds"
    and "content result = Ptr (int (length rpre))" and "count_pl result = length rs"
  shows "\<exists>ms. data_point_merge src sm dst dm result (rpre @ concat rs @ rpost)
           = Inr (result\<lparr>count_pl := length ms\<rparr>, rpre @ concat (ms @ drop (length ms) rs) @ rpost) \<and>
         strict ms \<and> pmap ms = pmap ds ++ pmap ss \<and> length ms \<le> length rs"
  using data_point_merge_spec [OF assms(1,2,5-11)] strict_merge_pts [OF assms(3,4)]
    pmap_merge_pts [OF assms(3,4)] length_merge_pts_le [of ss ds] assms(9)
  by (intro exI [of _ "merge_pts ss ds"]) (simp add: filled_def)

theorem data_point_merge_overrides_witness:
  "\<exists>ms. data_point_merge (sample_list 2) (concat [sample 10 7, sample 30 7])
      (sample_list 2) (concat [sample 10 1, sample 20 2]) (sample_list 4) ([] @ concat (replicate 4 (sample 0 0)) @ [])
    = Inr ((sample_list 4)\<lparr>count_pl := length ms\<rparr>, [] @ concat (ms @ drop (length ms) (replicate 4 (sample 0 0))) @ []) \<and>
    strict ms \<and> pmap ms = pmap [sample 10 1, sample 20 2] ++ pmap [sample 10 7, sample 30 7] \<and>
    length ms \<le> length (replicate 4 (sample 0 0))"
  by (rule data_point_merge_overrides [where spre = "[]" and spost = "[]" and dpre = "[]" and dpost = "[]" and ps = 16])
    (simp_all add: plist_def sample_list_def all_len_def)

end
