(* ===== verification/PointsReader.thy ===== *)
theory PointsReader
  imports DataPoint Common
begin

text \<open>
  \<^verbatim>\<open>src/storage/points-reader.c\<close>: a reader owns a copy of the points it was created from, in an
  object of its own.
\<close>

record points_reader =
  reader_points :: points_list
  reader_mem :: bytes

definition points_reader_create :: "bytes \<Rightarrow> ptr \<Rightarrow> nat \<Rightarrow> nat \<Rightarrow> points_reader res" where
  "points_reader_create m pts points_count ps =
     (let list = \<lparr>content = (if points_count = 0 then Null else Ptr 0), count_pl = points_count, point_size = ps\<rparr>;
          block = (if points_count = 0 then [] else sdb_alloc (u64 (points_count * ps)))
      in if content list \<noteq> Null
         then bindR (copy_between block (content list) m pts (u64 (points_count * ps)))
                (\<lambda>block'. Inr \<lparr>reader_points = list, reader_mem = block'\<rparr>)
         else Inr \<lparr>reader_points = list, reader_mem = block\<rparr>)"

text \<open>What a reader holds: its points, cut out of its object.\<close>

definition reader_list :: "points_reader \<Rightarrow> point list" where
  "reader_list r = take (count_pl (reader_points r)) (chunks (point_size (reader_points r)) (reader_mem r))"

definition empty_reader :: "nat \<Rightarrow> points_reader" where
  "empty_reader ps = \<lparr>reader_points = \<lparr>content = Null, count_pl = 0, point_size = ps\<rparr>, reader_mem = []\<rparr>"

definition full_reader :: "nat \<Rightarrow> point list \<Rightarrow> points_reader" where
  "full_reader ps cs = (if cs = [] then empty_reader ps else
     \<lparr>reader_points = \<lparr>content = Ptr 0, count_pl = length cs, point_size = ps\<rparr>, reader_mem = concat cs\<rparr>)"

lemma points_reader_create_empty [simp]: "points_reader_create m p 0 ps = Inr (empty_reader ps)"
  by (simp add: points_reader_create_def empty_reader_def Let_def)

lemma store_all: "length bs = length m \<Longrightarrow> store m (Ptr 0) bs = Inr bs"
  by (auto simp: store_def)

lemma points_reader_create_slice:
  assumes pl: "plist m points pre cs post" and "i + n \<le> length cs"
  shows "points_reader_create m (elem (length pre) (point_size points) i) n (point_size points)
         = Inr (full_reader (point_size points) (take n (drop i cs)))"
proof (cases "n = 0")
  case False
  let ?ps = "point_size points"
  note D = plistD [OF pl]
  have "n * ?ps < 2 ^ 63" using plist_bound [OF pl, of n] assms(2) by simp
  then have "n * ?ps < 2 ^ 64" by simp
  then have wrap: "u64 (n * ?ps) = n * ?ps" by (rule u64_id)
  have len: "length (concat (take n (drop i cs))) = n * ?ps"
    using length_concat_all_len [of ?ps "take n (drop i cs)"] D(7) assms(2) by simp
  have "copy_between (sdb_alloc (n * ?ps)) (Ptr 0) m (elem (length pre) ?ps i) (n * ?ps)
      = Inr (concat (take n (drop i cs)))"
    using load_records [OF D(7) assms(2), of pre post] D(1) len
    by (simp add: copy_between_def store_all)
  moreover have "take n (drop i cs) \<noteq> []" using False assms(2) by auto
  ultimately show ?thesis
    using False wrap assms(2) by (simp add: points_reader_create_def full_reader_def Let_def)
qed (simp add: full_reader_def)

lemma reader_list_full:
  "0 < ps \<Longrightarrow> all_len ps cs \<Longrightarrow> reader_list (full_reader ps cs) = cs"
  by (simp add: reader_list_def full_reader_def empty_reader_def)

end
