(* ===== verification/Series.thy ===== *)
theory Series
  imports Disk PointsReader
begin

text \<open>
  \<^verbatim>\<open>src/storage/series.c\<close>: one data series, a mapped file of points in ascending order of time
  whose unused slots hold \<^verbatim>\<open>0xFF\<close> bytes.  The operations thread the file system; the bytes of
  the mapped file are only there, so that what a write leaves in the file is visible to the
  next open.
\<close>

record series =
  file_name :: string
  file_map :: file_map
  points :: points_list
  points_capacity :: nat
  no_flush :: bool

definition series_mem :: "files \<Rightarrow> series \<Rightarrow> bytes" where
  "series_mem fs s = mapped fs (file_map s)"

section \<open>Operations\<close>

definition series_grow :: "'a platform_scheme \<Rightarrow> files \<Rightarrow> series \<Rightarrow> nat \<Rightarrow> (files \<times> series) res" where
  "series_grow P fs s n =
     (if point_size (points s) = 0 then Inl DivByZero
      else let increment = sdb_max (file_grow_increment P div point_size (points s)) n
        in bindR (c_str SDB_STR_MAX_LEN (file_name s)) (\<lambda>name.
           let s1 = s\<lparr>file_map := file_map_destroy (file_map s)\<rparr>
           in bindR (file_grow P fs name (u64 (increment * point_size (points s))) 0xFF) (\<lambda>fs1.
              let s2 = s1\<lparr>points_capacity := u64 (points_capacity s1 + increment)\<rparr>
              in bindR (file_map_create P fs1 name) (\<lambda>(fs2, m).
                   case m of
                     None \<Rightarrow> Inl NullDeref
                   | Some fm \<Rightarrow> Inr (fs2, s2\<lparr>file_map := fm,
                       points := (points s2)\<lparr>content := map_data fm\<rparr>\<rparr>)))))"

definition series_create ::
  "'a platform_scheme \<Rightarrow> files \<Rightarrow> string \<Rightarrow> nat \<Rightarrow> bool \<Rightarrow> (files \<times> series option) res" where
  "series_create P fs name ps nf =
     bindR (file_map_create P fs name) (\<lambda>(fs1, m).
       case m of
         None \<Rightarrow> Inr (fs1, None)
       | Some fm \<Rightarrow>
           if ps = 0 then Inl DivByZero
           else let s = \<lparr>file_name = strncpy SDB_STR_MAX_LEN name, file_map = fm,
                         points = \<lparr>content = map_data fm, count_pl = 0, point_size = ps\<rparr>,
                         points_capacity = map_size fm div ps, no_flush = nf\<rparr>
             in bindR (if map_size fm = 0 then series_grow P fs1 s (file_grow_increment P div ps)
                       else Inr (fs1, s)) (\<lambda>(fs2, s2).
                let s3 = s2\<lparr>points := (points s2)\<lparr>count_pl := points_capacity s2\<rparr>\<rparr>
                in bindR (data_point_find (points s3) (series_mem fs2 s3) 0xFFFFFFFFFFFFFFFE) (\<lambda>fin.
                   bindR (data_point_dist (points s3) (content (points s3)) fin) (\<lambda>n.
                     Inr (fs2, Some (s3\<lparr>points := (points s3)\<lparr>count_pl := n\<rparr>\<rparr>))))))"

text \<open>Closing a series unmaps its file and frees it; truncating unlinks the file first.\<close>

definition series_destroy :: "series \<Rightarrow> file_map" where
  "series_destroy s = file_map_destroy (file_map s)"

definition series_truncate_and_destroy :: "files \<Rightarrow> series \<Rightarrow> files res" where
  "series_truncate_and_destroy fs s =
     bindR (c_str SDB_STR_MAX_LEN (file_name s)) (\<lambda>name. Inr (file_unlink fs name))"

definition series_prepare_input :: "'a platform_scheme \<Rightarrow> points_list \<Rightarrow> bytes \<Rightarrow> (nat \<times> bytes) res" where
  "series_prepare_input P list m =
     bindR (data_point_sort P list m) (\<lambda>m1. data_point_non_zero_distinct list m1)"

text \<open>
  The two ways \<^verbatim>\<open>series_write\<close> stores a prepared batch \<open>w\<close> (in the object \<open>tm\<close>): behind the last
  point, or merged into the points it overlaps.  Both return the file system and the series.
\<close>

definition series_append :: "files \<Rightarrow> series \<Rightarrow> points_list \<Rightarrow> bytes \<Rightarrow> (files \<times> series) res" where
  "series_append fs s w tm =
     bindR (copy_between (series_mem fs s) (points_list_end (points s)) tm (content w)
              (u64 (point_size w * count_pl w))) (\<lambda>m.
       Inr (put_mapped fs (file_map s) m,
            s\<lparr>points := (points s)\<lparr>count_pl := u64 (count_pl (points s) + count_pl w)\<rparr>\<rparr>))"

definition series_merge :: "files \<Rightarrow> series \<Rightarrow> points_list \<Rightarrow> bytes \<Rightarrow> (files \<times> series) res" where
  "series_merge fs s w tm =
     (let m = series_mem fs s; ps = point_size (points s) in
      bindR (load_time tm (content w)) (\<lambda>first.
      bindR (data_point_find (points s) m first) (\<lambda>begin_elem.
      bindR (load_time tm (points_list_last w)) (\<lambda>last.
      bindR (data_point_find (points s) m (last + 1)) (\<lambda>end_elem.
      bindR (data_point_dist (points s) begin_elem end_elem) (\<lambda>slice_count.
      let slice = \<lparr>content = begin_elem, count_pl = slice_count, point_size = point_size w\<rparr>;
          merged = \<lparr>content = Ptr 0, count_pl = u64 (slice_count + count_pl w), point_size = ps\<rparr>;
          block = sdb_alloc (u64 (count_pl merged * ps)) in
      bindR (data_point_merge w tm slice m merged block) (\<lambda>(merged', block').
      bindR (data_point_dist (points s) end_elem (points_list_end (points s))) (\<lambda>tail_count.
      bindR (if tail_count > 0 then
               bindR (data_point_index (points s) begin_elem) (\<lambda>i.
                 memmove m (data_point_at (points s) (u64 (i + count_pl merged'))) end_elem
                   (u64 (tail_count * ps)))
             else Inr m) (\<lambda>m1.
      bindR (copy_between m1 begin_elem block' (content merged') (u64 (count_pl merged' * ps))) (\<lambda>m2.
      Inr (put_mapped fs (file_map s) m2,
           s\<lparr>points := (points s)\<lparr>count_pl :=
             u64 (count_pl (points s) + u64_sub (count_pl merged') slice_count)\<rparr>\<rparr>)))))))))))"

text \<open>
  \<^verbatim>\<open>series_write\<close>: the status, and everything it may have changed: the file system, the series,
  the caller's list and the caller's object, which is sorted and compacted in place.
\<close>

definition series_write ::
  "'a platform_scheme \<Rightarrow> files \<Rightarrow> series \<Rightarrow> points_list \<Rightarrow> bytes \<Rightarrow>
   (int \<times> files \<times> series \<times> points_list \<times> bytes) res" where
  "series_write P fs s w tm =
     (if point_size w \<noteq> point_size (points s) then Inr (- 1, fs, s, w, tm)
      else bindR (series_prepare_input P w tm) (\<lambda>(n, tm1).
        let w1 = w\<lparr>count_pl := n\<rparr> in
        if n = 0 then Inr (- 1, fs, s, w1, tm1)
        else
          bindR (if u64 (count_pl (points s) + n) > points_capacity s then series_grow P fs s n
                 else Inr (fs, s)) (\<lambda>(fs1, s1).
          bindR (if count_pl (points s1) = 0 then Inr 0
                 else load_time (series_mem fs1 s1)
                        (data_point_at (points s1) (u64_sub (count_pl (points s1)) 1))) (\<lambda>latest.
          bindR (load_time tm1 (content w1)) (\<lambda>first.
          bindR (if first > latest then series_append fs1 s1 w1 tm1 else series_merge fs1 s1 w1 tm1)
            (\<lambda>(fs2, s2).
          bindR (if \<not> no_flush s2 then file_map_sync P fs2 (file_map s2) else Inr fs2) (\<lambda>fs3.
            Inr (0, fs3, s2, w1, tm1))))))))"

definition series_read :: "files \<Rightarrow> series \<Rightarrow> timestamp \<Rightarrow> timestamp \<Rightarrow> nat \<Rightarrow> points_reader res" where
  "series_read fs s begin fin max_points =
     (if begin > fin then points_reader_create [] Null 0 0
      else bindR (data_point_find (points s) (series_mem fs s) begin) (\<lambda>begin_elem.
           bindR (data_point_find (points s) (series_mem fs s) fin) (\<lambda>end_elem.
           bindR (data_point_dist (points s) begin_elem end_elem) (\<lambda>d.
             let total_points = sdb_min max_points d
             in points_reader_create (series_mem fs s) begin_elem (sdb_min max_points total_points)
                  (point_size (points s))))))"

definition series_read_latest :: "files \<Rightarrow> series \<Rightarrow> points_reader res" where
  "series_read_latest fs s =
     (let latest = (if count_pl (points s) = 0 then Null
                    else data_point_at (points s) (u64_sub (count_pl (points s)) 1))
      in points_reader_create (series_mem fs s) latest (if latest = Null then 0 else 1)
           (point_size (points s)))"

section \<open>The invariant\<close>

text \<open>
  \<open>series_ok fs s cs\<close>: the series \<open>s\<close> is open on a file that holds the timeline \<open>cs\<close>, every slot
  behind it, and the remainder too short for a slot, filled with \<^verbatim>\<open>0xFF\<close>.
\<close>

definition free_slot :: "nat \<Rightarrow> point" where
  "free_slot ps = replicate ps 255"

definition slots :: "nat \<Rightarrow> nat \<Rightarrow> point list \<Rightarrow> point list" where
  "slots ps cap cs = cs @ replicate (cap - length cs) (free_slot ps)"

definition series_at :: "files \<Rightarrow> series \<Rightarrow> point list \<Rightarrow> inode \<Rightarrow> nat \<Rightarrow> bool" where
  "series_at fs s cs f r \<longleftrightarrow>
     map_of fs (file_name s) = Some f \<and>
     contents f = concat (slots (point_size (points s)) (points_capacity s) cs) @ replicate r 255 \<and>
     r < point_size (points s) \<and> length (contents f) < 2 ^ 63 \<and>
     file_map s = \<lparr>map_data = (if contents f = [] then Null else Ptr 0),
                   map_size = length (contents f), map_file = file_name s\<rparr> \<and>
     content (points s) = map_data (file_map s) \<and>
     length (file_name s) < SDB_STR_MAX_LEN \<and>
     8 \<le> point_size (points s) \<and> point_size (points s) < 2 ^ 32 \<and>
     count_pl (points s) = length cs \<and> length cs \<le> points_capacity s \<and>
     all_len (point_size (points s)) cs \<and> strict cs \<and> (\<forall>c\<in>set cs. point_time c \<noteq> 0)"

definition series_ok :: "files \<Rightarrow> series \<Rightarrow> point list \<Rightarrow> bool" where
  "series_ok fs s cs \<longleftrightarrow> (\<exists>f r. series_at fs s cs f r)"

section \<open>Reaching the points of a series\<close>

lemma concat_replicate: "concat (replicate n (replicate k x)) = replicate (n * k) x"
  by (induction n) (simp_all add: replicate_add)

lemma concat_slots:
  "concat (slots ps cap cs) = concat cs @ replicate ((cap - length cs) * ps) 255"
  by (simp add: slots_def free_slot_def concat_replicate)

lemma all_len_slots [simp]: "all_len ps cs \<Longrightarrow> all_len ps (slots ps cap cs)"
  by (auto simp: slots_def all_len_def free_slot_def)

lemma length_slots [simp]: "length cs \<le> cap \<Longrightarrow> length (slots ps cap cs) = cap"
  by (simp add: slots_def)

lemma length_concat_slots [simp]:
  "all_len ps cs \<Longrightarrow> length cs \<le> cap \<Longrightarrow> length (concat (slots ps cap cs)) = cap * ps"
  using length_concat_all_len [of ps "slots ps cap cs"] by simp

lemma series_atD:
  assumes "series_at fs s cs f r"
  shows "map_of fs (file_name s) = Some f"
    and "contents f = concat (slots (point_size (points s)) (points_capacity s) cs) @ replicate r 255"
    and "r < point_size (points s)" and "length (contents f) < 2 ^ 63"
    and "file_map s = \<lparr>map_data = (if contents f = [] then Null else Ptr 0),
                       map_size = length (contents f), map_file = file_name s\<rparr>"
    and "content (points s) = map_data (file_map s)"
    and "length (file_name s) < SDB_STR_MAX_LEN" and "8 \<le> point_size (points s)"
    and "0 < point_size (points s)" and "point_size (points s) < 2 ^ 32"
    and "count_pl (points s) = length cs" and "length cs \<le> points_capacity s"
    and "all_len (point_size (points s)) cs" and "strict cs" and "\<forall>c\<in>set cs. point_time c \<noteq> 0"
  using assms unfolding series_at_def by (blast | simp)+

lemma series_mem_at: "series_at fs s cs f r \<Longrightarrow> series_mem fs s = contents f"
  using series_atD(1,5) by (simp add: series_mem_def mapped_def)

lemma length_contents_at:
  assumes "series_at fs s cs f r"
  shows "length (contents f) = points_capacity s * point_size (points s) + r"
  unfolding series_atD(2) [OF assms] using series_atD(12,13) [OF assms] by simp

lemma content_at:
  assumes "series_at fs s cs f r" and "0 < points_capacity s"
  shows "content (points s) = Ptr 0"
proof -
  have "0 < length (contents f)"
    unfolding length_contents_at [OF assms(1)] using assms series_atD(9) by simp
  then show ?thesis using series_atD(5,6) [OF assms(1)] by simp
qed

lemma plist_series:
  assumes "series_at fs s cs f r" and "0 < points_capacity s"
  shows "plist (contents f) (points s) [] cs
    (replicate ((points_capacity s - length cs) * point_size (points s)) 255 @ replicate r 255)"
  unfolding plist_def using series_atD [OF assms(1)] content_at [OF assms]
  by (simp add: concat_slots)

text \<open>Storing a timeline into the slots of the file.\<close>

lemma series_at_put:
  assumes ok: "series_at fs s cs f r"
    and ds: "all_len (point_size (points s)) ds" "strict ds" "\<forall>c\<in>set ds. point_time c \<noteq> 0"
    and len: "length ds \<le> points_capacity s"
    and c: "c = concat (slots (point_size (points s)) (points_capacity s) ds) @ replicate r 255"
  shows "series_at (put_mapped fs (file_map s) c)
           (s\<lparr>points := (points s)\<lparr>count_pl := length ds\<rparr>\<rparr>) ds (f\<lparr>contents := c\<rparr>) r"
    and "only_changes (file_name s) fs (put_mapped fs (file_map s) c)"
proof -
  note D = series_atD [OF ok]
  have lc: "length c = length (contents f)"
    unfolding c length_contents_at [OF ok] using ds(1) len by simp
  then have nil: "c = [] \<longleftrightarrow> contents f = []" by (metis length_0_conv)
  have upd: "put_mapped fs (file_map s) c = AList.update (file_name s) (f\<lparr>contents := c\<rparr>) fs"
    using D(1) by (simp add: put_mapped_def D(5))
  show "series_at (put_mapped fs (file_map s) c)
      (s\<lparr>points := (points s)\<lparr>count_pl := length ds\<rparr>\<rparr>) ds (f\<lparr>contents := c\<rparr>) r"
    unfolding series_at_def upd using D(3-10) ds len lc nil by (simp add: update_conv' c)
  show "only_changes (file_name s) fs (put_mapped fs (file_map s) c)"
    unfolding upd using D(1) by (rule only_changes_update)
qed

section \<open>Growing\<close>

lemma series_grow_at:
  assumes P: "platform_ok P" and at: "series_at fs s cs f r"
    and k: "k = max (file_grow_increment P div point_size (points s)) n"
    and bound: "length (contents f) + k * point_size (points s) < 2 ^ 63"
  obtains fs' s' f' where "series_grow P fs s n = Inr (fs', s')" and "series_at fs' s' cs f' r"
    and "points_capacity s' = points_capacity s + k" and "file_name s' = file_name s"
    and "no_flush s' = no_flush s" and "point_size (points s') = point_size (points s)"
    and "durable f' = durable f" and "only_changes (file_name s) fs fs'"
proof -
  let ?ps = "point_size (points s)"
  note D = series_atD [OF at]
  define c where "c = contents f @ replicate (k * ?ps) 255"
  define fs' where "fs' = AList.update (file_name s) (f\<lparr>contents := c\<rparr>) fs"
  define fm where "fm = \<lparr>map_data = (if c = [] then Null else Ptr 0), map_size = length c, map_file = file_name s\<rparr>"
  define s' where "s' = s\<lparr>file_map := fm, points := (points s)\<lparr>content := map_data fm\<rparr>,
      points_capacity := points_capacity s + k\<rparr>"
  have kps: "k * ?ps < 2 ^ 64" using bound by simp
  have lc: "length c < 2 ^ 63" using bound by (simp add: c_def)
  have "(points_capacity s + k) * 1 \<le> (points_capacity s + k) * ?ps" using D(9) by (intro mult_le_mono2) simp
  also have "\<dots> < 2 ^ 63" using bound length_contents_at [OF at] by (simp add: add_mult_distrib)
  finally have cap: "points_capacity s + k < 2 ^ 64" by simp
  have get: "map_of fs' (file_name s) = Some (f\<lparr>contents := c\<rparr>)" by (simp add: fs'_def update_conv')
  have grow: "file_grow P fs (file_name s) (k * ?ps) 255 = Inr fs'"
    using file_grow_existing [OF P D(1) kps] by (simp add: fs'_def c_def)
  have create: "file_map_create P fs' (file_name s) = Inr (fs', Some fm)"
    using file_map_create_existing [OF P get] lc by (simp add: fm_def)
  have "series_grow P fs s n = Inr (fs', s')"
    using D(7,9) grow create kps cap
    by (simp add: series_grow_def c_str_def Let_def u64_id s'_def flip: k)
  moreover have "series_at fs' s' cs (f\<lparr>contents := c\<rparr>) r"
  proof -
    have slots_len: "(points_capacity s + k - length cs) * ?ps + r
        = (points_capacity s - length cs) * ?ps + (r + k * ?ps)"
    proof -
      have "points_capacity s + k - length cs = points_capacity s - length cs + k" using D(12) by simp
      then show ?thesis by (simp only: add_mult_distrib)
    qed
    have "c = concat (slots ?ps (points_capacity s + k) cs) @ replicate r 255"
      unfolding c_def D(2) concat_slots by (simp add: slots_len flip: replicate_add)
    then show ?thesis
      unfolding series_at_def using D get lc by (simp add: s'_def fm_def)
  qed
  moreover have "only_changes (file_name s) fs fs'"
    unfolding fs'_def using D(1) by (rule only_changes_update)
  ultimately show thesis
    by (intro that [of fs' s' "f\<lparr>contents := c\<rparr>"]) (simp_all add: s'_def)
qed

section \<open>Storing a batch\<close>

lemma take_slots: "k \<le> length cs \<Longrightarrow> take k (slots ps cap cs) = take k cs"
  by (simp add: slots_def)

lemma drop_slots: "length cs \<le> k \<Longrightarrow> drop k (slots ps cap cs) = replicate (cap - k) (free_slot ps)"
  by (simp add: slots_def)

lemma drop_slots_before:
  "e \<le> length cs \<Longrightarrow> drop e (slots ps cap cs) = drop e cs @ replicate (cap - length cs) (free_slot ps)"
  by (simp add: slots_def)

lemma slots_append:
  "length cs + length bs \<le> cap \<Longrightarrow>
   take (length cs) (slots ps cap cs) @ bs @ drop (length cs + length bs) (slots ps cap cs)
   = slots ps cap (cs @ bs)"
  by (simp add: take_slots drop_slots) (simp add: slots_def diff_diff_eq)

lemma series_append_at:
  assumes at: "series_at fs s cs f r" and W: "plist tm w pre bs post"
    and sz: "point_size w = point_size (points s)"
    and room: "length cs + length bs \<le> points_capacity s" and "bs \<noteq> []"
    and c: "c = concat (slots (point_size (points s)) (points_capacity s) (cs @ bs)) @ replicate r 255"
  shows "series_append fs s w tm = Inr (put_mapped fs (file_map s) c,
           s\<lparr>points := (points s)\<lparr>count_pl := length (cs @ bs)\<rparr>\<rparr>)"
proof -
  let ?ps = "point_size (points s)"
  have pos: "0 < points_capacity s" using room \<open>bs \<noteq> []\<close> by (cases bs) auto
  note D = series_atD [OF at] and B = plistD [OF W] and pl = plist_series [OF at pos]
  have wrap: "u64 (?ps * length bs) = length bs * ?ps"
    using plist_bound [OF W order.refl] sz by (simp add: u64_id mult.commute)
  have "load tm (content w) (length bs * ?ps) = Inr (concat bs)"
    using load_records [OF B(7), of 0 "length bs" pre post] B(1,3) sz by simp
  moreover have "store (contents f) (elem 0 ?ps (length cs)) (concat bs) = Inr c"
    unfolding D(2) using store_records [of ?ps "slots ?ps (points_capacity s) cs" bs "length cs" "[]" "replicate r 255"]
    using D(12,13) B(7) room sz slots_append [OF room, of ?ps] by (simp add: c)
  moreover have "points_list_end (points s) = elem 0 ?ps (length cs)"
    using plist_end [OF pl] by simp
  moreover have "u64 (length cs + length bs) = length cs + length bs"
    using plist_length_less [OF pl] plist_length_less [OF W] by (intro u64_id) simp
  ultimately show ?thesis
    using wrap B(4) D(11) sz
    by (simp add: series_append_def series_mem_at [OF at] copy_between_def)
qed

text \<open>
  Merging: the tail moves behind the space the merged points take, then the merged points fill
  the gap.
\<close>

lemma slots_splice:
  assumes "b \<le> e" and "e \<le> length cs" and "e - b \<le> length M"
    and "b + length M + (length cs - e) \<le> cap" and "length cs \<le> cap"
    and "S = take (b + length M) (slots ps cap cs) @ drop e cs @
             drop (b + length M + (length cs - e)) (slots ps cap cs)"
  shows "take b S @ M @ drop (b + length M) S = slots ps cap (take b cs @ M @ drop e cs)"
proof -
  have "drop (b + length M + (length cs - e)) (slots ps cap cs)
      = replicate (cap - (b + length M + (length cs - e))) (free_slot ps)"
    using assms(1-3) by (intro drop_slots) simp
  moreover have "take b S = take b cs" "drop (b + length M) S
      = drop e cs @ drop (b + length M + (length cs - e)) (slots ps cap cs)"
    unfolding assms(6) using assms(1,2,4,5) by (simp_all add: take_slots)
  ultimately show ?thesis using assms(1,2) by (simp add: slots_def)
qed

lemma plist_all_slots:
  assumes "series_at fs s cs f r" and "0 < points_capacity s"
  shows "plist (contents f) ((points s)\<lparr>count_pl := points_capacity s\<rparr>) []
    (slots (point_size (points s)) (points_capacity s) cs) (replicate r 255)"
  unfolding plist_def using series_atD [OF assms(1)] content_at [OF assms] by simp

lemma data_point_at_slot:
  assumes "series_at fs s cs f r" and "0 < points_capacity s" and "k \<le> points_capacity s"
  shows "data_point_at (points s) k = elem 0 (point_size (points s)) k"
  using plist_at [OF plist_all_slots [OF assms(1,2)], of k] assms(3) series_atD(12) [OF assms(1)]
  by (simp add: data_point_at_def)

lemma merge_back:
  assumes at: "series_at fs s cs f r" and M: "all_len (point_size (points s)) M"
    and be: "b \<le> e" "e \<le> length cs" "e - b \<le> length M"
    and room: "b + length M + (length cs - e) \<le> points_capacity s"
    and blk: "all_len (point_size (points s)) rest"
    and c: "c = concat (slots (point_size (points s)) (points_capacity s) (take b cs @ M @ drop e cs)) @ replicate r 255"
  shows "bindR (if length cs - e > 0
           then memmove (contents f) (elem 0 (point_size (points s)) (b + length M))
                  (elem 0 (point_size (points s)) e) ((length cs - e) * point_size (points s))
           else Inr (contents f))
         (\<lambda>m1. copy_between m1 (elem 0 (point_size (points s)) b) (concat (M @ rest)) (Ptr 0)
                  (length M * point_size (points s))) = Inr c"
proof -
  let ?ps = "point_size (points s)" and ?cap = "points_capacity s"
  let ?sl = "slots ?ps ?cap cs"
  note D = series_atD [OF at]
  define S where "S = take (b + length M) ?sl @ drop e cs @ drop (b + length M + (length cs - e)) ?sl"
  have S: "all_len ?ps S" "length S = ?cap" using D(12,13) be room by (auto simp: S_def)
  have ld: "load (contents f) (elem 0 ?ps e) ((length cs - e) * ?ps) = Inr (concat (drop e cs))"
    unfolding D(2) using load_records [of ?ps ?sl e "length cs - e" "[]" "replicate r 255"] D(12,13) be
    by (simp add: drop_slots_before)
  have "store (contents f) (elem 0 ?ps (b + length M)) (concat (drop e cs)) = Inr (concat S @ replicate r 255)"
    unfolding D(2) S_def
    using store_records [of ?ps ?sl "drop e cs" "b + length M" "[]" "replicate r 255"] D(12,13) be room by simp
  with ld have first: "(if length cs - e > 0
           then memmove (contents f) (elem 0 ?ps (b + length M)) (elem 0 ?ps e) ((length cs - e) * ?ps)
           else Inr (contents f)) = Inr (concat S @ replicate r 255)"
    unfolding memmove_def using D(2) by (cases "length cs - e = 0") (simp_all add: S_def flip: concat_append)
  have "load (concat (M @ rest)) (Ptr 0) (length M * ?ps) = Inr (concat M)"
    using load_records [of ?ps "M @ rest" 0 "length M" "[]" "[]"] M blk by simp
  moreover have "store (concat S @ replicate r 255) (elem 0 ?ps b) (concat M) = Inr c"
    using store_records [of ?ps S M b "[]" "replicate r 255"] S M room
      slots_splice [OF be room D(12) S_def]
    by (simp add: c)
  ultimately show ?thesis unfolding first by (simp add: copy_between_def)
qed

text \<open>
  The temporary block of \<open>series_merge\<close> has room for both lists, so the merge of the batch with the
  slice of the mapping it overlaps succeeds and stands at the start of the block.
\<close>

lemma slice_merge:
  assumes at: "series_at fs s cs f r" and pos: "0 < points_capacity s" and W: "plist tm w pre bs post"
    and sz: "point_size w = point_size (points s)" and be: "b \<le> e" "e \<le> length cs"
    and ps: "ps = point_size (points s)" and M: "M = merge_pts bs (take (e - b) (drop b cs))"
  obtains rest where "all_len ps M" and "all_len ps rest"
    and "data_point_merge w tm \<lparr>content = elem 0 ps b, count_pl = e - b, point_size = ps\<rparr> (contents f)
      \<lparr>content = Ptr 0, count_pl = e - b + length bs, point_size = ps\<rparr> (sdb_alloc (u64 ((e - b + length bs) * ps)))
      = Inr (\<lparr>content = Ptr 0, count_pl = length M, point_size = ps\<rparr>, concat (M @ rest))"
proof -
  define ss where "ss = take (e - b) (drop b cs)"
  define rs where "rs = replicate (e - b + length bs) (replicate ps (0 :: byte))"
  note D = series_atD [OF at] and B = plistD [OF W] and pl = plist_series [OF at pos]
  have lss: "length ss = e - b" using be by (simp add: ss_def)
  have bytes: "(e - b) * ps < 2 ^ 63" "length bs * ps < 2 ^ 63"
    using plist_bound [OF pl, of "e - b"] plist_bound [OF W order.refl] be sz ps by simp_all
  then have block: "sdb_alloc (u64 ((e - b + length bs) * ps)) = concat rs"
    by (simp add: rs_def concat_replicate u64_id add_mult_distrib sdb_alloc_def)
  have SL: "plist (contents f) \<lparr>content = elem 0 ps b, count_pl = e - b, point_size = ps\<rparr>
      (concat (take b cs)) ss (concat (drop e cs) @ replicate ((points_capacity s - length cs) * ps) 255 @ replicate r 255)"
    using plist_slice [OF pl be] by (simp add: ss_def ps)
  have rs: "all_len ps rs" "length rs = length bs + length ss" by (simp_all add: rs_def lss all_len_def)
  show thesis
  proof (rule that [of "drop (length M) rs"])
    show "all_len ps M" unfolding M using B(7) D(13) sz ps by (intro all_len_merge_pts) auto
    show "data_point_merge w tm \<lparr>content = elem 0 ps b, count_pl = e - b, point_size = ps\<rparr> (contents f)
      \<lparr>content = Ptr 0, count_pl = e - b + length bs, point_size = ps\<rparr> (sdb_alloc (u64 ((e - b + length bs) * ps)))
      = Inr (\<lparr>content = Ptr 0, count_pl = length M, point_size = ps\<rparr>, concat (M @ drop (length M) rs))"
      using data_point_merge_spec [OF W SL _ _ _ rs, of "\<lparr>content = Ptr 0, count_pl = e - b + length bs, point_size = ps\<rparr>" "[]" "[]"]
        rs(2) lss sz unfolding block by (simp add: filled_def M ss_def flip: ps)
  qed (simp add: rs(1))
qed

lemma merge_slice_length:
  assumes be: "b \<le> e" "e \<le> length cs" and M: "M = merge_pts bs (take (e - b) (drop b cs))"
    and all: "take b cs @ M @ drop e cs = all"
  shows "e - b \<le> length M" and "length M \<le> e - b + length bs"
    and "length all = length cs + (length M - (e - b))" and "b + length M + (length cs - e) \<le> length cs + length bs"
proof -
  have "length (take (e - b) (drop b cs)) = e - b" using be by simp
  then show M': "e - b \<le> length M" "length M \<le> e - b + length bs"
    using length_merge_pts_ge [of "take (e - b) (drop b cs)" bs] length_merge_pts_le [of bs "take (e - b) (drop b cs)"]
    by (simp_all add: M)
  show "length all = length cs + (length M - (e - b))" unfolding all [symmetric] using be M'(1) by simp
  show "b + length M + (length cs - e) \<le> length cs + length bs" using M'(2) be by simp
qed

lemma series_merge_at:
  assumes at: "series_at fs s cs f r" and W: "plist tm w pre bs post"
    and sz: "point_size w = point_size (points s)"
    and room: "length cs + length bs \<le> points_capacity s" and ne: "bs \<noteq> []" "cs \<noteq> []"
    and bs: "strict bs" "point_time (last bs) \<noteq> - 1"
    and c: "c = concat (slots (point_size (points s)) (points_capacity s) (merge_pts bs cs)) @ replicate r 255"
  shows "series_merge fs s w tm = Inr (put_mapped fs (file_map s) c,
           s\<lparr>points := (points s)\<lparr>count_pl := length (merge_pts bs cs)\<rparr>\<rparr>)"
proof -
  let ?ps = "point_size (points s)"
  have pos: "0 < points_capacity s" using room ne by (cases bs) auto
  note D = series_atD [OF at] and B = plistD [OF W] and pl = plist_series [OF at pos]
  define b where "b = lower_bound (point_time (hd bs)) cs"
  define e where "e = lower_bound (point_time (last bs) + 1) cs"
  define M where "M = merge_pts bs (take (e - b) (drop b cs))"
  note slice = merge_pts_slice [OF bs(1) ne(1) D(14) bs(2) b_def e_def, folded M_def]
  have e: "e \<le> length cs" unfolding e_def by (rule lower_bound_le)
  note M = merge_slice_length [OF slice(2) e M_def slice(1)]
  have room': "b + length M + (length cs - e) \<le> points_capacity s" using M(4) room by simp
  have times: "load_time tm (content w) = Inr (point_time (hd bs))"
    "load_time tm (points_list_last w) = Inr (point_time (last bs))"
    using plist_load_time [OF W, of 0] B(3) plist_last [OF W ne(1)] plist_load_time [OF W, of "length bs - 1"] ne
    by (simp_all add: hd_conv_nth last_conv_nth)
  have bytes: "(length cs - e) * ?ps < 2 ^ 63" "length M * ?ps < 2 ^ 63"
    using plist_bound [OF pl, of "length cs - e"] plist_bound [OF plist_all_slots [OF at pos], of "length M"] room' D(12)
    by simp_all
  obtain rest where allM: "all_len ?ps M" and rest: "all_len ?ps rest"
    and merge: "data_point_merge w tm \<lparr>content = elem 0 ?ps b, count_pl = e - b, point_size = ?ps\<rparr> (contents f)
      \<lparr>content = Ptr 0, count_pl = e - b + length bs, point_size = ?ps\<rparr> (sdb_alloc (u64 ((e - b + length bs) * ?ps)))
      = Inr (\<lparr>content = Ptr 0, count_pl = length M, point_size = ?ps\<rparr>, concat (M @ rest))"
    using slice_merge [OF at pos W sz slice(2) e refl M_def] by blast
  obtain m1 where m1: "(if length cs - e > 0
           then memmove (contents f) (elem 0 ?ps (b + length M)) (elem 0 ?ps e) ((length cs - e) * ?ps)
           else Inr (contents f)) = Inr m1"
    and put: "copy_between m1 (elem 0 ?ps b) (concat (M @ rest)) (Ptr 0) (length M * ?ps) = Inr c"
    using merge_back [OF at allM slice(2) e M(1) room' rest, unfolded slice(1), OF c] unfolding bindR_eq_Inr_iff by blast
  have dist: "data_point_dist (points s) (elem 0 ?ps b) (elem 0 ?ps e) = Inr (e - b)"
    "data_point_dist (points s) (elem 0 ?ps e) (elem 0 ?ps (length cs)) = Inr (length cs - e)"
    "data_point_index (points s) (elem 0 ?ps b) = Inr b"
    using plist_dist [OF pl slice(2) e] plist_dist [OF pl e order.refl] plist_index [OF pl, of b] slice(2) e by simp_all
  have wraps: "u64 (e - b + length bs) = e - b + length bs" "u64 (b + length M) = b + length M"
    "u64 ((length cs - e) * ?ps) = (length cs - e) * ?ps" "u64 (length M * ?ps) = length M * ?ps"
    "u64 (length cs + u64_sub (length M) (e - b)) = length (merge_pts bs cs)"
    using plist_length_less [OF pl] plist_length_less [OF W] e M slice(2) bytes by (simp_all add: u64_id u64_sub_le)
  have slot: "data_point_at (points s) (b + length M) = elem 0 ?ps (b + length M)"
    using room' by (intro data_point_at_slot [OF at pos]) simp
  show ?thesis
    using m1 put merge
    by (simp add: series_merge_def series_mem_at [OF at] Let_def times find_strict [OF pl ne(2) D(14)] dist wraps sz B(4) D(11)
        plist_end [OF pl] slot flip: b_def e_def split del: if_split cong: if_cong)
qed

section \<open>Writing\<close>

text \<open>What is left of a batch once it is sorted and compacted.\<close>

definition prepared :: "'a platform_scheme \<Rightarrow> point list \<Rightarrow> point list" where
  "prepared P bs = nzd_list [] (qsort P point_cmp bs)"

lemma prepared_props:
  assumes "c_qsort (qsort P)"
  shows "strict (prepared P bs)" and "length (prepared P bs) \<le> length bs"
    and "all_len n bs \<Longrightarrow> all_len n (prepared P bs)"
    and "c \<in> set (prepared P bs) \<Longrightarrow> c \<in> set bs \<and> point_time c \<noteq> 0"
    and "pmap (prepared P bs) = last_wins (qsort P point_cmp bs)"
    and "prepared P bs = [] \<longleftrightarrow> (\<forall>c\<in>set bs. point_time c = 0)"
proof -
  note Q = c_qsort.sorted_points [OF assms] c_qsort.points_set [OF assms] c_qsort.points_length [OF assms]
    c_qsort.points_all_len [OF assms]
  have spec: "strict (prepared P bs)" "pmap (prepared P bs) = last_wins (qsort P point_cmp bs)"
    using nzd_list_spec [of "[]" "qsort P point_cmp bs"] Q(1) by (simp_all add: prepared_def)
  then show "strict (prepared P bs)" "pmap (prepared P bs) = last_wins (qsort P point_cmp bs)" .
  show "length (prepared P bs) \<le> length bs"
    using length_nzd_list_le [of "[]" "qsort P point_cmp bs"] Q(3) by (simp add: prepared_def)
  show "all_len n bs \<Longrightarrow> all_len n (prepared P bs)"
    using all_len_nzd_list [of n "[]" "qsort P point_cmp bs"] Q(4) by (simp add: prepared_def)
  show "c \<in> set (prepared P bs) \<Longrightarrow> c \<in> set bs \<and> point_time c \<noteq> 0"
    using in_set_nzd_list [of c "[]" "qsort P point_cmp bs"] Q(2) by (auto simp: prepared_def)
  have "dom (pmap (prepared P bs)) = point_time ` set bs - {0}"
    unfolding spec(2) dom_last_wins using Q(2) by simp
  then show "prepared P bs = [] \<longleftrightarrow> (\<forall>c\<in>set bs. point_time c = 0)"
    by (auto simp: dom_pmap image_constant_conv split: if_splits)
qed

lemma series_prepare_input_spec:
  assumes "c_qsort (qsort P)" and W: "plist tm w pre bs post"
  obtains tm' post' where "series_prepare_input P w tm = Inr (length (prepared P bs), tm')"
    and "plist tm' (w\<lparr>count_pl := length (prepared P bs)\<rparr>) pre (prepared P bs) post'"
    and "length tm' = length tm"
proof -
  let ?q = "qsort P point_cmp bs"
  note B = plistD [OF W] and Q = c_qsort.points_length [OF assms(1)] c_qsort.points_all_len [OF assms(1)]
  have lenq: "length (concat ?q) = length (concat bs)"
    using length_concat_all_len [of "point_size w" ?q] length_concat_all_len [OF B(7)] Q B(7) by simp
  have pq: "plist (pre @ concat ?q @ post) w pre ?q post"
    using B Q lenq by (simp add: plist_def)
  obtain left where left: "length (nzd_list [] ?q @ left) = length ?q"
      "all_len (point_size w) (nzd_list [] ?q @ left)"
    and run: "data_point_non_zero_distinct w (pre @ concat ?q @ post)
       = Inr (length (nzd_list [] ?q), pre @ concat (nzd_list [] ?q @ left) @ post)"
    using data_point_non_zero_distinct_spec [OF pq] by blast
  have len: "length (concat (nzd_list [] ?q @ left)) = length (concat bs)"
    using length_concat_all_len [OF left(2)] length_concat_all_len [of "point_size w" ?q] left(1) lenq Q B(7) by simp
  show thesis
  proof (rule that)
    show "series_prepare_input P w tm = Inr (length (prepared P bs), pre @ concat (nzd_list [] ?q @ left) @ post)"
      using data_point_sort_spec [OF assms] run by (simp add: series_prepare_input_def prepared_def)
    show "plist (pre @ concat (nzd_list [] ?q @ left) @ post) (w\<lparr>count_pl := length (prepared P bs)\<rparr>) pre
        (prepared P bs) (concat left @ post)"
      using B left(2) len by (simp add: plist_def prepared_def)
    show "length (pre @ concat (nzd_list [] ?q @ left) @ post) = length tm"
      using len B(1) by simp
  qed
qed

text \<open>A batch is prepared inside its array; what lies around it in the object is not touched.\<close>

lemma series_prepare_input_frame:
  assumes "c_qsort (qsort P)" and W: "plist tm w pre bs post" and "series_prepare_input P w tm = Inr (n, tm')"
  obtains mid where "tm' = pre @ mid @ post" and "length mid = length (concat bs)"
proof -
  let ?q = "qsort P point_cmp bs"
  note B = plistD [OF W] and Q = c_qsort.points_length [OF assms(1)] c_qsort.points_all_len [OF assms(1)]
  have lenq: "length (concat ?q) = length (concat bs)"
    using length_concat_all_len [of "point_size w" ?q] length_concat_all_len [OF B(7)] Q B(7) by simp
  have pq: "plist (pre @ concat ?q @ post) w pre ?q post"
    using B Q lenq by (simp add: plist_def)
  obtain left where left: "length (nzd_list [] ?q @ left) = length ?q"
      "all_len (point_size w) (nzd_list [] ?q @ left)"
    and run: "data_point_non_zero_distinct w (pre @ concat ?q @ post)
       = Inr (length (nzd_list [] ?q), pre @ concat (nzd_list [] ?q @ left) @ post)"
    using data_point_non_zero_distinct_spec [OF pq] by blast
  have "length (concat (nzd_list [] ?q @ left)) = length (concat bs)"
    using length_concat_all_len [OF left(2)] length_concat_all_len [of "point_size w" ?q] left(1) lenq Q B(7) by simp
  moreover have "tm' = pre @ concat (nzd_list [] ?q @ left) @ post"
    using assms(3) data_point_sort_spec [OF assms(1,2)] run by (simp add: series_prepare_input_def)
  ultimately show thesis by (rule that [rotated])
qed

lemma series_write_frame:
  assumes "c_qsort (qsort P)" and W: "plist tm w pre bs post"
    and run: "series_write P fs s w tm = Inr (st, fs', s', w', tm')"
  obtains mid where "tm' = pre @ mid @ post" and "length mid = length (concat bs)"
proof (cases "point_size w = point_size (points s)")
  case False
  with run have "tm' = pre @ concat bs @ post" using plistD(1) [OF W] by (simp add: series_write_def)
  then show thesis by (rule that) simp
next
  case True
  then obtain n where "series_prepare_input P w tm = Inr (n, tm')"
    using run by (auto simp: series_write_def Let_def split: if_splits elim!: bindR_InrE)
  from series_prepare_input_frame [OF assms(1) W this] that show thesis by blast
qed

lemma series_write_length:
  assumes "series_write P fs s w tm = Inr (st, fs', s', w', tm')"
  shows "length tm' = length tm"
proof -
  have "length tm1 = length tm" if "series_prepare_input P w tm = Inr (n, tm1)" for n tm1
    using that by (auto simp: series_prepare_input_def elim!: bindR_InrE
        dest!: data_point_sort_length data_point_non_zero_distinct_length)
  with assms show ?thesis
    by (auto simp: series_write_def Let_def split: if_splits elim!: bindR_InrE)
qed

text \<open>
  The room for a batch: the series grows by a whole increment, or by the batch when that is
  more, and the file must stay below half the address space.
\<close>

definition growth :: "'a platform_scheme \<Rightarrow> nat \<Rightarrow> nat \<Rightarrow> nat" where
  "growth P ps n = max (file_grow_increment P div ps) n * ps"

lemma series_room:
  assumes P: "platform_ok P" and at: "series_at fs s cs f r"
    and bound: "length (contents f) + growth P (point_size (points s)) n < 2 ^ 63" and n: "n < 2 ^ 60"
  obtains fs' s' f' where
    "(if u64 (count_pl (points s) + n) > points_capacity s then series_grow P fs s n else Inr (fs, s)) = Inr (fs', s')"
    and "series_at fs' s' cs f' r" and "length cs + n \<le> points_capacity s'"
    and "file_name s' = file_name s" and "no_flush s' = no_flush s"
    and "point_size (points s') = point_size (points s)" and "only_changes (file_name s) fs fs'"
    and "length (contents f') \<le> length (contents f) + growth P (point_size (points s)) n"
proof (cases "u64 (count_pl (points s) + n) > points_capacity s")
  case False
  note D = series_atD [OF at]
  have "points_capacity s * 8 \<le> points_capacity s * point_size (points s)" using D(8) by (rule mult_le_mono2)
  also have "\<dots> < 2 ^ 63" using length_contents_at [OF at] D(4) by simp
  finally have "points_capacity s < 2 ^ 60" by simp
  then have "length cs + n \<le> points_capacity s"
    using False n D(11,12) by (simp add: u64_id)
  with False at show thesis by (intro that [of fs s f]) auto
next
  case True
  have "length (contents f) + max (file_grow_increment P div point_size (points s)) n * point_size (points s) < 2 ^ 63"
    using bound by (simp add: growth_def)
  then obtain fs' s' f' where g: "series_grow P fs s n = Inr (fs', s')" "series_at fs' s' cs f' r"
    "points_capacity s' = points_capacity s + max (file_grow_increment P div point_size (points s)) n"
    "file_name s' = file_name s" "no_flush s' = no_flush s" "point_size (points s') = point_size (points s)"
    "only_changes (file_name s) fs fs'"
    using series_grow_at [OF P at refl] by metis
  with series_atD(12) [OF at] have "length cs + n \<le> points_capacity s'" by simp
  moreover have "length (contents f') \<le> length (contents f) + growth P (point_size (points s)) n"
    using length_contents_at [OF at] length_contents_at [OF g(2)] g(3,6) by (simp add: growth_def add_mult_distrib)
  ultimately show thesis using g True by (intro that [of fs' s' f']) auto
qed

text \<open>Append or merge, the batch ends up merged into the timeline.\<close>

lemma series_store_at:
  assumes at: "series_at fs s cs f r" and W: "plist tm w pre bs post"
    and sz: "point_size w = point_size (points s)"
    and room: "length cs + length bs \<le> points_capacity s" and ne: "bs \<noteq> []"
    and bs: "strict bs" "point_time (last bs) \<noteq> - 1" "\<forall>b\<in>set bs. point_time b \<noteq> 0"
  obtains fs' f' where
    "bindR (if count_pl (points s) = 0 then Inr 0
            else load_time (series_mem fs s) (data_point_at (points s) (u64_sub (count_pl (points s)) 1)))
       (\<lambda>latest. bindR (load_time tm (content w)) (\<lambda>first.
          if first > latest then series_append fs s w tm else series_merge fs s w tm))
     = Inr (fs', s\<lparr>points := (points s)\<lparr>count_pl := length (merge_pts bs cs)\<rparr>\<rparr>)"
    and "series_at fs' (s\<lparr>points := (points s)\<lparr>count_pl := length (merge_pts bs cs)\<rparr>\<rparr>) (merge_pts bs cs) f' r"
    and "only_changes (file_name s) fs fs'"
proof -
  let ?ps = "point_size (points s)"
  define c where "c = concat (slots ?ps (points_capacity s) (merge_pts bs cs)) @ replicate r 255"
  note D = series_atD [OF at] and B = plistD [OF W]
  have pos: "0 < points_capacity s" using room ne by (cases bs) auto
  note pl = plist_series [OF at pos]
  define latest where "latest = (if cs = [] then 0 else point_time (last cs))"
  have lt: "(if count_pl (points s) = 0 then Inr 0
      else load_time (series_mem fs s) (data_point_at (points s) (u64_sub (count_pl (points s)) 1))) = Inr latest"
    using D(11) plist_last [OF pl] plist_load_time [OF pl, of "length cs - 1"]
    by (simp add: series_mem_at [OF at] latest_def last_conv_nth points_list_last_def)
  have first: "load_time tm (content w) = Inr (point_time (hd bs))"
    using plist_load_time [OF W, of 0] B(3) ne by (simp add: hd_conv_nth)
  have run: "(if point_time (hd bs) > latest then series_append fs s w tm else series_merge fs s w tm)
      = Inr (put_mapped fs (file_map s) c, s\<lparr>points := (points s)\<lparr>count_pl := length (merge_pts bs cs)\<rparr>\<rparr>)"
  proof (cases "point_time (hd bs) > latest")
    case True
    have "point_time d < point_time b" if "d \<in> set cs" "b \<in> set bs" for d b
    proof -
      have "point_time d \<le> latest" using strict_le_last [OF D(14) that(1)] that(1) by (auto simp: latest_def)
      also have "\<dots> < point_time (hd bs)" by (rule True)
      also have "\<dots> \<le> point_time b" by (rule strict_hd_le [OF bs(1) that(2)])
      finally show ?thesis .
    qed
    then have "merge_pts bs cs = cs @ bs" by (intro merge_pts_after)
    with True show ?thesis using series_append_at [OF at W sz room ne] by (simp add: c_def)
  next
    case False
    have "cs \<noteq> []" using False bs(3) ne by (auto simp: latest_def word_greater_zero_iff)
    then show ?thesis using False series_merge_at [OF at W sz room ne _ bs(1,2) c_def] by simp
  qed
  have M: "all_len ?ps (merge_pts bs cs)" "strict (merge_pts bs cs)"
    "\<forall>d\<in>set (merge_pts bs cs). point_time d \<noteq> 0" "length (merge_pts bs cs) \<le> points_capacity s"
    using all_len_merge_pts [of ?ps bs cs] strict_merge_pts [OF bs(1) D(14)] set_merge_pts [of bs cs]
      length_merge_pts_le [of bs cs] B(7) D(13,15) sz room bs(3) by auto
  note put = series_at_put [OF at M c_def]
  show thesis
    by (rule that [OF _ put]) (simp only: lt first bindR_Inr run)
qed

lemma series_sync_at:
  assumes P: "platform_ok P" and at: "series_at fs s cs f r" and "cs \<noteq> []"
  obtains fs' f' where "file_map_sync P fs (file_map s) = Inr fs'" and "series_at fs' s cs f' r"
    and "only_changes (file_name s) fs fs'" and "take (length (contents f')) (durable f') = contents f'"
proof -
  note D = series_atD [OF at]
  have "0 < points_capacity s" using D(12) assms(3) by (cases cs) auto
  then have data: "map_data (file_map s) = Ptr 0" using content_at [OF at] D(6) by simp
  define f' where "f' = f\<lparr>durable := contents f @ drop (length (contents f)) (durable f)\<rparr>"
  define fs' where "fs' = AList.update (file_name s) f' fs"
  have same: "contents f' = contents f" by (simp add: f'_def)
  have run: "file_map_sync P fs (file_map s) = Inr fs'"
    using P D(1,5) data by (simp add: file_map_sync_def platform_ok_def MAP_FAILED_def fs'_def f'_def)
  have "map_of fs' (file_name s) = Some f'" by (simp add: fs'_def update_conv')
  then have "series_at fs' s cs f' r" using at unfolding series_at_def same by blast
  then show thesis
    by (rule that [OF run]) (simp_all add: fs'_def only_changes_update [OF D(1)] f'_def)
qed

lemma series_flush_at:
  assumes P: "platform_ok P" and at: "series_at fs s cs f r" and ne: "cs \<noteq> []"
  obtains fs' f' where "(if \<not> no_flush s then file_map_sync P fs (file_map s) else Inr fs) = Inr fs'"
    and "series_at fs' s cs f' r" and "only_changes (file_name s) fs fs'"
    and "\<not> no_flush s \<longrightarrow> take (length (contents f')) (durable f') = contents f'"
proof (cases "no_flush s")
  case True
  with at show thesis by (intro that [of fs f]) simp_all
next
  case False
  obtain fs' f' where "file_map_sync P fs (file_map s) = Inr fs'" "series_at fs' s cs f' r"
    "only_changes (file_name s) fs fs'" "take (length (contents f')) (durable f') = contents f'"
    using series_sync_at [OF P at ne] by blast
  with False show thesis by (intro that [of fs' f']) simp_all
qed

lemma series_write_at:
  assumes P: "platform_ok P" and at: "series_at fs s cs f r" and W: "plist tm w pre bs post"
    and sz: "point_size w = point_size (points s)"
    and ne: "prepared P bs \<noteq> []" and max: "\<forall>b\<in>set bs. point_time b \<noteq> SDB_TIMESTAMP_MAX"
    and bound: "length (contents f) + growth P (point_size (points s)) (length bs) < 2 ^ 63"
  obtains fs' s' w' tm' f' where "series_write P fs s w tm = Inr (0, fs', s', w', tm')"
    and "series_at fs' s' (merge_pts (prepared P bs) cs) f' r"
    and "file_name s' = file_name s" and "no_flush s' = no_flush s"
    and "point_size (points s') = point_size (points s)" and "only_changes (file_name s) fs fs'"
    and "\<not> no_flush s \<longrightarrow> take (length (contents f')) (durable f') = contents f'"
    and "w' = w\<lparr>count_pl := length (prepared P bs)\<rparr>" and "length tm' = length tm"
    and "length (contents f') \<le> length (contents f) + growth P (point_size (points s)) (length bs)"
proof -
  let ?b = "prepared P bs"
  note Q = prepared_props [OF platform_ok_qsort [OF P], where bs = bs]
  obtain tm1 post1 where prep: "series_prepare_input P w tm = Inr (length ?b, tm1)"
    and W1: "plist tm1 (w\<lparr>count_pl := length ?b\<rparr>) pre ?b post1" and ltm: "length tm1 = length tm"
    using series_prepare_input_spec [OF platform_ok_qsort [OF P] W] by blast
  have less: "growth P (point_size (points s)) (length ?b) \<le> growth P (point_size (points s)) (length bs)"
    using Q(2) by (auto simp: growth_def intro!: mult_le_mono1)
  with bound have bound': "length (contents f) + growth P (point_size (points s)) (length ?b) < 2 ^ 63" by simp
  obtain fs1 s1 f1 where room: "(if u64 (count_pl (points s) + length ?b) > points_capacity s
        then series_grow P fs s (length ?b) else Inr (fs, s)) = Inr (fs1, s1)"
    and at1: "series_at fs1 s1 cs f1 r" and cap: "length cs + length ?b \<le> points_capacity s1"
    and same: "file_name s1 = file_name s" "no_flush s1 = no_flush s"
      "point_size (points s1) = point_size (points s)" and ch1: "only_changes (file_name s) fs fs1"
    and len: "length (contents f1) \<le> length (contents f) + growth P (point_size (points s)) (length ?b)"
    using series_room [OF P at bound' plist_length_less [OF W1]] by metis
  define s2 where "s2 = s1\<lparr>points := (points s1)\<lparr>count_pl := length (merge_pts ?b cs)\<rparr>\<rparr>"
  have last: "point_time (last ?b) \<noteq> - 1" and nz: "\<forall>b\<in>set ?b. point_time b \<noteq> 0"
    using Q(4) last_in_set [OF ne] max by (auto simp: SDB_TIMESTAMP_MAX_def)
  have sz1: "point_size (w\<lparr>count_pl := length ?b\<rparr>) = point_size (points s1)" using sz same by simp
  obtain fs2 f2 where store: "bindR (if count_pl (points s1) = 0 then Inr 0
            else load_time (series_mem fs1 s1) (data_point_at (points s1) (u64_sub (count_pl (points s1)) 1)))
       (\<lambda>latest. bindR (load_time tm1 (content (w\<lparr>count_pl := length ?b\<rparr>))) (\<lambda>first.
          if first > latest then series_append fs1 s1 (w\<lparr>count_pl := length ?b\<rparr>) tm1
          else series_merge fs1 s1 (w\<lparr>count_pl := length ?b\<rparr>) tm1))
     = Inr (fs2, s2)" and at2: "series_at fs2 s2 (merge_pts ?b cs) f2 r" and ch2: "only_changes (file_name s1) fs1 fs2"
    using series_store_at [OF at1 W1 sz1 cap ne Q(1) last nz] unfolding s2_def by blast
  have "merge_pts ?b cs \<noteq> []" using ne times_merge_pts [of ?b cs] by auto
  from series_flush_at [OF P at2 this] obtain fs3 f3 where
    sync: "(if \<not> no_flush s2 then file_map_sync P fs2 (file_map s2) else Inr fs2) = Inr fs3"
    and at3: "series_at fs3 s2 (merge_pts ?b cs) f3 r" and ch3: "only_changes (file_name s2) fs2 fs3"
    and dur: "\<not> no_flush s2 \<longrightarrow> take (length (contents f3)) (durable f3) = contents f3" .
  show thesis
  proof (rule that [of fs3 s2 "w\<lparr>count_pl := length ?b\<rparr>" tm1 f3])
    show "series_write P fs s w tm = Inr (0, fs3, s2, w\<lparr>count_pl := length ?b\<rparr>, tm1)"
      using store sync prep room sz ne unfolding bindR_eq_Inr_iff
      by (auto simp: series_write_def Let_def)
    have "file_name s2 = file_name s" using same by (simp add: s2_def)
    with ch1 ch2 ch3 same show "only_changes (file_name s) fs fs3" using only_changes_trans by metis
    show "length (contents f3) \<le> length (contents f) + growth P (point_size (points s)) (length bs)"
      using length_contents_at [OF at1] length_contents_at [OF at3] len less by (simp add: s2_def)
  qed (use at3 same dur ltm in \<open>simp_all add: s2_def\<close>)
qed

text \<open>A batch with nothing but points at time 0 is refused.\<close>

lemma series_write_zero:
  assumes "c_qsort (qsort P)" and "plist tm w pre bs post" and "point_size w = point_size (points s)"
    and "\<forall>b\<in>set bs. point_time b = 0"
  obtains tm' where "series_write P fs s w tm = Inr (- 1, fs, s, w\<lparr>count_pl := 0\<rparr>, tm')"
proof -
  have "prepared P bs = []" using prepared_props(6) [OF assms(1)] assms(4) by blast
  with series_prepare_input_spec [OF assms(1,2)] obtain tm' where "series_prepare_input P w tm = Inr (0, tm')"
    by (metis list.size(3))
  with assms(3) show thesis by (intro that) (simp add: series_write_def Let_def)
qed

section \<open>Opening\<close>

text \<open>
  A free slot reads as the last timestamp, so the binary search for \<^verbatim>\<open>0xFFFFFFFFFFFFFFFE\<close> ends
  behind the last point of a file whose points are all before it.
\<close>

lemma point_time_free_slot: "8 \<le> ps \<Longrightarrow> point_time (free_slot ps) = - 1"
proof -
  assume "8 \<le> ps"
  then have "take 8 (free_slot ps) = replicate 8 255" by (simp add: free_slot_def)
  moreover have "le_dec (replicate 8 255) = 2 ^ 64 - 1" by (simp add: le_dec_ones)
  ultimately show ?thesis by (simp add: point_time_def)
qed

lemma slots_sorted:
  assumes "8 \<le> ps" and "strict cs"
  shows "sorted (map point_time (slots ps cap cs))"
  using strict_sorted [OF assms(2)] point_time_free_slot [OF assms(1)]
  by (auto simp: slots_def sorted_append)

lemma slots_end:
  assumes "8 \<le> ps" and "strict (cs @ ds)" and "length (cs @ ds) \<le> cap"
    and "\<forall>c\<in>set cs. point_time c < 0xFFFFFFFFFFFFFFFE" and "\<forall>d\<in>set ds. 0xFFFFFFFFFFFFFFFE \<le> point_time d"
  shows "lower_bound 0xFFFFFFFFFFFFFFFE (slots ps cap (cs @ ds)) = length cs"
    and "i < cap \<Longrightarrow> point_time (slots ps cap (cs @ ds) ! i) = 0xFFFFFFFFFFFFFFFE \<Longrightarrow> i = length cs"
proof -
  let ?sl = "slots ps cap (cs @ ds)"
  have at: "?sl ! j = (if j < length (cs @ ds) then (cs @ ds) ! j else free_slot ps)" if "j < cap" for j
    using that assms(3) by (auto simp: slots_def nth_append)
  have low: "point_time (?sl ! j) < 0xFFFFFFFFFFFFFFFE" if "j < length cs" for j
    using assms(3,4) that at [of j] by (simp add: nth_append)
  have high: "0xFFFFFFFFFFFFFFFE \<le> point_time (?sl ! j)" if "length cs \<le> j" "j < cap" for j
    using assms(5) that at [OF that(2)] point_time_free_slot [OF assms(1)] by (auto simp: nth_append)
  show "lower_bound 0xFFFFFFFFFFFFFFFE ?sl = length cs"
    using low high assms(3) by (intro lower_bound_unique) auto
  show "i = length cs" if "i < cap" "point_time (?sl ! i) = 0xFFFFFFFFFFFFFFFE"
  proof (rule ccontr)
    assume "i \<noteq> length cs"
    with low [of i] that(2) have i: "length cs < i" by (cases i "length cs" rule: linorder_cases) auto
    have "i < length (cs @ ds)" using at [OF that(1)] that(2) point_time_free_slot [OF assms(1)] by (auto split: if_splits)
    then have "point_time (?sl ! length cs) < point_time (?sl ! i)"
      using strict_nth_less [OF assms(2) i] at [of "length cs"] at [OF that(1)] i assms(3) by auto
    with high [of "length cs"] i that show False by simp
  qed
qed

lemma series_find_end:
  assumes at: "series_at fs s (cs @ ds) f r" and times: "\<forall>c\<in>set cs. point_time c < 0xFFFFFFFFFFFFFFFE"
    "\<forall>d\<in>set ds. 0xFFFFFFFFFFFFFFFE \<le> point_time d"
    and "r = 0 \<or> 0 < points_capacity s"
  shows "bindR (data_point_find ((points s)\<lparr>count_pl := points_capacity s\<rparr>) (contents f) 0xFFFFFFFFFFFFFFFE) (\<lambda>fin.
           data_point_dist ((points s)\<lparr>count_pl := points_capacity s\<rparr>) (content (points s)) fin) = Inr (length cs)"
proof (cases "points_capacity s = 0")
  case True
  note D = series_atD [OF at]
  have "length (contents f) = 0" using length_contents_at [OF at] True assms(4) by simp
  then have "content (points s) = Null" using D(5,6) by simp
  with True D(9,12) show ?thesis by (simp add: data_point_find_def data_point_dist_def)
next
  case False
  let ?ps = "point_size (points s)" and ?cap = "points_capacity s"
  note D = series_atD [OF at]
  have pl: "plist (contents f) ((points s)\<lparr>count_pl := ?cap\<rparr>) [] (slots ?ps ?cap (cs @ ds)) (replicate r 255)"
    using plist_all_slots [OF at] False by simp
  have len: "length (slots ?ps ?cap (cs @ ds)) = ?cap" using D(12) by simp
  have ne: "slots ?ps ?cap (cs @ ds) \<noteq> []" using len False by (metis list.size(3))
  note fin = slots_end [OF D(8,14,12) times]
  have "data_point_find ((points s)\<lparr>count_pl := ?cap\<rparr>) (contents f) 0xFFFFFFFFFFFFFFFE = Inr (elem 0 ?ps (length cs))"
    using data_point_find_lower_bound [OF pl ne slots_sorted [OF D(8,14)], of "0xFFFFFFFFFFFFFFFE"] fin len by simp
  moreover have "data_point_dist ((points s)\<lparr>count_pl := ?cap\<rparr>) (Ptr 0) (elem 0 ?ps (length cs)) = Inr (length cs)"
    using plist_dist [OF pl, of 0 "length cs"] D(12) len by simp
  ultimately show ?thesis using content_at [OF at] False by simp
qed

text \<open>Both ways into a series: on a new file, and on a file that already holds points.\<close>

lemma series_create_new:
  assumes P: "platform_ok P" and new: "map_of fs name = None" and "length name < SDB_STR_MAX_LEN"
    and ps: "8 \<le> ps" "ps < 2 ^ 32" and inc: "file_grow_increment P < 2 ^ 63"
  obtains fs' s f where "series_create P fs name ps nf = Inr (fs', Some s)" and "series_at fs' s [] f 0"
    and "file_name s = name" and "no_flush s = nf" and "point_size (points s) = ps"
    and "points_capacity s = file_grow_increment P div ps"
    and "only_changes name (AList.update name \<lparr>contents = [], durable = []\<rparr> fs) fs'"
proof -
  define fs1 where "fs1 = AList.update name \<lparr>contents = [], durable = []\<rparr> fs"
  define s0 where "s0 = \<lparr>file_name = name, file_map = \<lparr>map_data = Null, map_size = 0, map_file = name\<rparr>,
      points = \<lparr>content = Null, count_pl = 0, point_size = ps\<rparr>, points_capacity = 0, no_flush = nf\<rparr>"
  have create: "file_map_create P fs name = Inr (fs1, Some (file_map s0))"
    using file_map_create_new [OF P new] by (simp add: fs1_def s0_def)
  have at0: "series_at fs1 s0 [] \<lparr>contents = [], durable = []\<rparr> 0"
    unfolding series_at_def using assms(3) ps by (simp add: fs1_def s0_def slots_def update_conv')
  have bound: "length (contents \<lparr>contents = [], durable = []\<rparr>)
      + file_grow_increment P div point_size (points s0) * point_size (points s0) < 2 ^ 63"
    using le_less_trans [OF div_times_less_eq_dividend inc] by (simp add: s0_def)
  have k: "file_grow_increment P div ps = max (file_grow_increment P div point_size (points s0)) (file_grow_increment P div ps)"
    by (simp add: s0_def)
  obtain fs2 s2 f2 where g: "series_grow P fs1 s0 (file_grow_increment P div ps) = Inr (fs2, s2)"
    "series_at fs2 s2 [] f2 0" "points_capacity s2 = file_grow_increment P div ps" "file_name s2 = name"
    "no_flush s2 = nf" "point_size (points s2) = ps" "only_changes name fs1 fs2"
    by (rule series_grow_at [OF P at0 k]) (use bound in \<open>simp_all add: s0_def\<close>)
  have mem: "series_mem fs2 (s2\<lparr>points := (points s2)\<lparr>count_pl := points_capacity s2\<rparr>\<rparr>) = contents f2"
    using series_mem_at [OF g(2)] by (simp add: series_mem_def)
  have back_to: "s2\<lparr>points := (points s2)\<lparr>count_pl := 0\<rparr>\<rparr> = s2"
    using series_atD(11) [OF g(2)] by simp
  obtain fin where fin: "data_point_find ((points s2)\<lparr>count_pl := points_capacity s2\<rparr>) (contents f2) 0xFFFFFFFFFFFFFFFE = Inr fin"
    "data_point_dist ((points s2)\<lparr>count_pl := points_capacity s2\<rparr>) (content (points s2)) fin = Inr 0"
    using series_find_end [of fs2 s2 "[]" "[]"] g(2) unfolding bindR_eq_Inr_iff by auto
  have "series_create P fs name ps nf = Inr (fs2, Some s2)"
    using create g(1) fin mem back_to assms(3) ps
    by (simp add: series_create_def s0_def strncpy_def Let_def)
  then show thesis by (rule that [OF _ g(2)]) (use g in \<open>simp_all add: fs1_def\<close>)
qed

lemma series_reopen:
  assumes P: "platform_ok P" and at: "series_at fs s (cs @ ds) f r" and cap: "0 < points_capacity s"
    and times: "\<forall>c\<in>set cs. point_time c < 0xFFFFFFFFFFFFFFFE" "\<forall>d\<in>set ds. 0xFFFFFFFFFFFFFFFE \<le> point_time d"
  shows "series_create P fs (file_name s) (point_size (points s)) (no_flush s)
         = Inr (fs, Some (s\<lparr>points := (points s)\<lparr>count_pl := length cs\<rparr>\<rparr>))"
proof -
  let ?ps = "point_size (points s)"
  note D = series_atD [OF at]
  have ne: "contents f \<noteq> []" using length_contents_at [OF at] cap D(9) by auto
  have create: "file_map_create P fs (file_name s) = Inr (fs, Some (file_map s))"
    using file_map_create_existing [OF P D(1)] D(4,5) by simp
  have "length (contents f) div ?ps = points_capacity s"
    unfolding length_contents_at [OF at] using D(3,9) by simp
  then have "map_size (file_map s) div ?ps = points_capacity s" by (simp add: D(5))
  then have s: "\<lparr>file_name = file_name s, file_map = file_map s,
      points = \<lparr>content = map_data (file_map s), count_pl = n, point_size = ?ps\<rparr>,
      points_capacity = map_size (file_map s) div ?ps, no_flush = no_flush s\<rparr>
    = s\<lparr>points := (points s)\<lparr>count_pl := n\<rparr>\<rparr>" for n
    using D(6) by (cases s; cases "points s") simp
  have mem: "series_mem fs (s\<lparr>points := (points s)\<lparr>count_pl := points_capacity s\<rparr>\<rparr>) = contents f"
    using series_mem_at [OF at] by (simp add: series_mem_def)
  obtain fin where fin: "data_point_find ((points s)\<lparr>count_pl := points_capacity s\<rparr>) (contents f) 0xFFFFFFFFFFFFFFFE = Inr fin"
    "data_point_dist ((points s)\<lparr>count_pl := points_capacity s\<rparr>) (content (points s)) fin = Inr (length cs)"
    using series_find_end [OF at times] cap unfolding bindR_eq_Inr_iff by auto
  have sz: "map_size (file_map s) \<noteq> 0" using ne by (simp add: D(5))
  show ?thesis
    using create fin mem D(7,9) sz
    by (simp add: series_create_def strncpy_def s Let_def)
qed

lemma series_reopen_at:
  assumes "platform_ok P" and at: "series_at fs s cs f r" and "0 < points_capacity s"
    and "\<forall>c\<in>set cs. point_time c < 0xFFFFFFFFFFFFFFFE"
  shows "series_create P fs (file_name s) (point_size (points s)) (no_flush s) = Inr (fs, Some s)"
  using series_reopen [OF assms(1), of fs s cs "[]"] assms series_atD(11) [OF at] by simp

section \<open>Reading\<close>

lemma series_read_at:
  assumes at: "series_at fs s cs f r" and "b \<le> e"
  shows "series_read fs s b e n = Inr (full_reader (point_size (points s)) (take n (window b e cs)))"
proof (cases "cs = []")
  case True
  note D = series_atD [OF at]
  have "data_point_find (points s) m t = Inr Null" for m t
    using True D(11) by (simp add: data_point_find_def)
  with True D(9) assms(2) show ?thesis
    by (simp add: series_read_def data_point_dist_def window_def full_reader_def)
next
  case False
  let ?ps = "point_size (points s)"
  note D = series_atD [OF at]
  have pos: "0 < points_capacity s" using False D(12) by (cases cs) auto
  note pl = plist_series [OF at pos] and so = strict_sorted [OF D(14)]
  define i where "i = lower_bound b cs"
  define j where "j = lower_bound e cs"
  have ij: "i \<le> j" "j \<le> length cs"
    unfolding i_def j_def using lower_bound_mono [OF so assms(2)] lower_bound_le by auto
  have W: "window b e cs = take (j - i) (drop i cs)"
    using window_slice [OF so assms(2)] by (simp add: i_def j_def)
  have "points_reader_create (contents f) (elem 0 ?ps i) (min n (min n (j - i))) ?ps
      = Inr (full_reader ?ps (take (min n (min n (j - i))) (drop i cs)))"
    using points_reader_create_slice [OF pl, of i "min n (min n (j - i))"] ij by simp
  moreover have "take (min n (min n (j - i))) (drop i cs) = take n (window b e cs)"
    using W by (simp add: min_def)
  ultimately show ?thesis
    using find_strict [OF pl False D(14)] plist_dist [OF pl ij] assms(2) leD [OF assms(2)]
    by (simp add: series_read_def series_mem_at [OF at] Let_def flip: i_def j_def)
qed

lemma series_read_latest_at:
  assumes at: "series_at fs s cs f r"
  shows "series_read_latest fs s = Inr (full_reader (point_size (points s)) (if cs = [] then [] else [last cs]))"
proof (cases "cs = []")
  case True
  with series_atD(11) [OF at] show ?thesis by (simp add: series_read_latest_def full_reader_def)
next
  case False
  note D = series_atD [OF at]
  have pos: "0 < points_capacity s" using False D(12) by (cases cs) auto
  note pl = plist_series [OF at pos]
  have "data_point_at (points s) (u64_sub (length cs) 1) = elem 0 (point_size (points s)) (length cs - 1)"
    using plist_last [OF pl False] D(11) by (simp add: points_list_last_def)
  moreover have "take 1 (drop (length cs - 1) cs) = [last cs]"
    using False by (cases cs rule: rev_cases) auto
  ultimately show ?thesis
    using points_reader_create_slice [OF pl, of "length cs - 1" 1] False D(11)
    by (simp add: series_read_latest_def series_mem_at [OF at] Let_def elem_def)
qed

section \<open>A series is a store\<close>

text \<open>
  The operations a client sees, on the pair of the file system and the series; a batch is
  handed over in an object of its own, as a request carries it.
\<close>

definition series_points :: "files \<times> series \<Rightarrow> timestamp \<Rightarrow> timestamp \<Rightarrow> nat \<Rightarrow> point list res" where
  "series_points st b e n = bindR (series_read (fst st) (snd st) b e n) (\<lambda>r. Inr (reader_list r))"

definition series_latest :: "files \<times> series \<Rightarrow> point list res" where
  "series_latest st = bindR (series_read_latest (fst st) (snd st)) (\<lambda>r. Inr (reader_list r))"

definition series_put :: "'a platform_scheme \<Rightarrow> files \<times> series \<Rightarrow> point list \<Rightarrow> (files \<times> series) res" where
  "series_put P st bs =
     bindR (series_write P (fst st) (snd st)
       \<lparr>content = Ptr 0, count_pl = length bs, point_size = point_size (points (snd st))\<rparr> (concat bs))
       (\<lambda>(status, fs, s, w, tm). Inr (fs, s))"

text \<open>What a batch must satisfy to be accepted.\<close>

definition series_accepts :: "'a platform_scheme \<Rightarrow> files \<times> series \<Rightarrow> point list \<Rightarrow> bool" where
  "series_accepts P st bs \<longleftrightarrow>
     platform_ok P \<and> all_len (point_size (points (snd st))) bs \<and> length (concat bs) < 2 ^ 63 \<and>
     (\<exists>b\<in>set bs. point_time b \<noteq> 0) \<and> (\<forall>b\<in>set bs. point_time b \<noteq> SDB_TIMESTAMP_MAX) \<and>
     map_size (file_map (snd st)) + growth P (point_size (points (snd st))) (length bs) < 2 ^ 63"

lemma series_put_ok:
  assumes "series_ok fs s cs" and acc: "series_accepts P (fs, s) bs"
  obtains fs' s' where "series_put P (fs, s) bs = Inr (fs', s')"
    and "series_ok fs' s' (merge_pts (prepared P bs) cs)"
    and "only_changes (file_name s) fs fs'" and "file_name s' = file_name s"
proof -
  obtain f r where at: "series_at fs s cs f r" using assms(1) by (auto simp: series_ok_def)
  note D = series_atD [OF at]
  have P: "platform_ok P" using acc by (simp add: series_accepts_def)
  define w where "w = \<lparr>content = Ptr 0, count_pl = length bs, point_size = point_size (points s)\<rparr>"
  have W: "plist (concat bs) w [] bs []"
    using acc D(8) by (simp add: plist_def w_def series_accepts_def)
  have ne: "prepared P bs \<noteq> []"
    using acc prepared_props(6) [OF platform_ok_qsort [OF P], of bs] by (auto simp: series_accepts_def)
  have sz: "point_size w = point_size (points s)" by (simp add: w_def)
  have max: "\<forall>b\<in>set bs. point_time b \<noteq> SDB_TIMESTAMP_MAX"
    and bound: "length (contents f) + growth P (point_size (points s)) (length bs) < 2 ^ 63"
    using acc D(5) by (simp_all add: series_accepts_def)
  obtain fs' s' w' tm' f' where "series_write P fs s w (concat bs) = Inr (0, fs', s', w', tm')"
    "series_at fs' s' (merge_pts (prepared P bs) cs) f' r" "file_name s' = file_name s"
    "only_changes (file_name s) fs fs'"
    using series_write_at [OF P at W sz ne max bound] by metis
  then show thesis
    by (intro that [of fs' s']) (auto simp: series_put_def series_ok_def simp flip: w_def)
qed

interpretation series_store: timeline_store "\<lambda>st. series_ok (fst st) (snd st)" series_points series_latest
proof
  fix st :: "files \<times> series" and cs b e n
  assume "series_ok (fst st) (snd st) cs"
  then obtain f r where at: "series_at (fst st) (snd st) cs f r" by (auto simp: series_ok_def)
  note D = series_atD [OF at]
  show "strict cs" by (rule D(14))
  show "series_latest st = Inr (if cs = [] then [] else [last cs])"
    using series_read_latest_at [OF at] reader_list_full [OF D(9), of "if cs = [] then [] else [last cs]"] D(13)
    by (auto simp: series_latest_def all_len_def)
  have "all_len (point_size (points (snd st))) (take n (window b e cs))"
    using D(13) by (auto simp: all_len_def window_def dest: in_set_takeD)
  then show "series_points st b e n = Inr (take n (window b e cs))"
    using series_read_at [OF at, of b e n] reader_list_full [OF D(9)] window_empty [of e b cs]
    by (cases "b \<le> e") (auto simp: series_points_def series_read_def not_le reader_list_def empty_reader_def)
qed

interpretation series_wstore: writable_store "\<lambda>st. series_ok (fst st) (snd st)" series_points series_latest
    "series_put P" "series_accepts P" "prepared P" for P
proof
  fix st :: "files \<times> series" and cs bs
  assume acc: "series_accepts P st bs"
  then show "strict (prepared P bs)"
    using prepared_props(1) [OF platform_ok_qsort] by (auto simp: series_accepts_def)
  assume "series_ok (fst st) (snd st) cs"
  with acc show "\<exists>st'. series_put P st bs = Inr st' \<and> series_ok (fst st') (snd st') (merge_pts (prepared P bs) cs)"
    using series_put_ok [of "fst st" "snd st" cs P bs] by (metis fst_conv prod.collapse snd_conv)
qed

section \<open>Properties\<close>

text \<open>The series of the witnesses: two points in a file of four slots.\<close>

definition sample_inode :: inode where
  "sample_inode = \<lparr>contents = concat (slots 16 4 [sample 10 1, sample 20 2]), durable = []\<rparr>"

definition sample_files :: files where
  "sample_files = [(''d/7-16'', sample_inode)]"

definition sample_series :: series where
  "sample_series = \<lparr>file_name = ''d/7-16'',
     file_map = \<lparr>map_data = Ptr 0, map_size = 64, map_file = ''d/7-16''\<rparr>,
     points = sample_list 2, points_capacity = 4, no_flush = False\<rparr>"

lemma sample_series_at: "series_at sample_files sample_series [sample 10 1, sample 20 2] sample_inode 0"
proof -
  have len: "length (contents sample_inode) = 64"
    using length_concat_slots [of 16 "[sample 10 1, sample 20 2]" 4] by (simp add: sample_inode_def)
  then have "contents sample_inode \<noteq> []" by auto
  with len show ?thesis
    unfolding series_at_def
    by (simp add: sample_files_def sample_series_def sample_list_def SDB_STR_MAX_LEN_def sample_inode_def)
qed

lemma sample_series_ok: "series_ok sample_files sample_series [sample 10 1, sample 20 2]"
  using sample_series_at by (auto simp: series_ok_def)

text \<open>
  C5: \<^verbatim>\<open>series_write\<close> of a batch of the right point size, with a point at a time other than 0 and
  none at the largest timestamp, returns 0.  The file then holds, ordered and without
  duplicates, the timeline it had with the batch's points added, the batch winning on equal
  times and its last point (in the order \<^verbatim>\<open>qsort\<close> leaves) winning inside the batch; the file
  system is otherwise unchanged, and unless the series was opened with \<^verbatim>\<open>no_flush\<close> the new
  contents are durable.
\<close>

theorem series_write_merges:
  assumes "platform_ok P" and "series_ok fs s cs" and "plist tm w pre bs post"
    and "point_size w = point_size (points s)"
    and "\<exists>b\<in>set bs. point_time b \<noteq> 0" and "\<forall>b\<in>set bs. point_time b \<noteq> SDB_TIMESTAMP_MAX"
    and "map_size (file_map s) + growth P (point_size (points s)) (length bs) < 2 ^ 63"
  shows "\<exists>fs' s' w' tm' cs' f. series_write P fs s w tm = Inr (0, fs', s', w', tm') \<and>
           series_ok fs' s' cs' \<and> pmap cs' = pmap cs ++ last_wins (qsort P point_cmp bs) \<and>
           only_changes (file_name s) fs fs' \<and> map_of fs' (file_name s) = Some f \<and>
           (\<not> no_flush s \<longrightarrow> take (length (contents f)) (durable f) = contents f)"
proof -
  obtain f r where at: "series_at fs s cs f r" using assms(2) by (auto simp: series_ok_def)
  note Q = prepared_props [OF platform_ok_qsort [OF assms(1)], where bs = bs]
  have ne: "prepared P bs \<noteq> []" using Q(6) assms(5) by blast
  have bound: "length (contents f) + growth P (point_size (points s)) (length bs) < 2 ^ 63"
    using assms(7) series_atD(5) [OF at] by simp
  obtain fs' s' w' tm' f' where run: "series_write P fs s w tm = Inr (0, fs', s', w', tm')"
    and at': "series_at fs' s' (merge_pts (prepared P bs) cs) f' r" and name: "file_name s' = file_name s"
    and ch: "only_changes (file_name s) fs fs'"
    and dur: "\<not> no_flush s \<longrightarrow> take (length (contents f')) (durable f') = contents f'"
    using series_write_at [OF assms(1) at assms(3,4) ne assms(6) bound] by metis
  have "pmap (merge_pts (prepared P bs) cs) = pmap cs ++ last_wins (qsort P point_cmp bs)"
    using pmap_merge_pts [OF Q(1) series_atD(14) [OF at]] Q(5) by simp
  moreover have "map_of fs' (file_name s) = Some f'" using series_atD(1) [OF at'] name by simp
  ultimately show ?thesis using run at' ch dur unfolding series_ok_def by blast
qed

theorem series_write_merges_witness:
  "\<exists>fs' s' w' tm' cs' f. series_write (posix 64) sample_files sample_series (sample_list 2)
      (concat [sample 15 7, sample 10 8]) = Inr (0, fs', s', w', tm') \<and>
     series_ok fs' s' cs' \<and>
     pmap cs' = pmap [sample 10 1, sample 20 2] ++ last_wins (qsort (posix 64) point_cmp [sample 15 7, sample 10 8]) \<and>
     only_changes (file_name sample_series) sample_files fs' \<and> map_of fs' (file_name sample_series) = Some f \<and>
     (\<not> no_flush sample_series \<longrightarrow> take (length (contents f)) (durable f) = contents f)"
  by (rule series_write_merges [OF platform_ok_posix sample_series_ok, where pre = "[]" and post = "[]"])
    (simp_all add: plist_def sample_list_def sample_series_def SDB_TIMESTAMP_MAX_def growth_def posix_def)

text \<open>
  The two ways \<^verbatim>\<open>series_write\<close> refuses a batch.  A batch of another point size changes nothing
  at all; a batch with nothing but points at time 0 changes neither the file system nor the
  series, only the caller's list.  Both return -1.
\<close>

lemma series_write_refuses:
  assumes "c_qsort (qsort P)" and "plist tm w pre bs post"
  shows "if point_size w \<noteq> point_size (points s) then series_write P fs s w tm = Inr (- 1, fs, s, w, tm)
         else (\<forall>b\<in>set bs. point_time b = 0) \<longrightarrow>
           (\<exists>tm'. series_write P fs s w tm = Inr (- 1, fs, s, w\<lparr>count_pl := 0\<rparr>, tm'))"
proof (cases "point_size w = point_size (points s)")
  case True
  then show ?thesis using series_write_zero [OF assms True, of fs] by fastforce
qed (simp add: series_write_def)

lemma series_write_refuses_example:
  "series_write (posix 64) sample_files (sample_series\<lparr>points := (sample_list 2)\<lparr>point_size := 24\<rparr>\<rparr>) (sample_list 1)
     (concat [sample 15 7])
     = Inr (- 1, sample_files, sample_series\<lparr>points := (sample_list 2)\<lparr>point_size := 24\<rparr>\<rparr>, sample_list 1, concat [sample 15 7]) \<and>
   (\<exists>tm'. series_write (posix 64) sample_files sample_series (sample_list 1) (concat [sample 0 7])
     = Inr (- 1, sample_files, sample_series, (sample_list 1)\<lparr>count_pl := 0\<rparr>, tm'))"
proof -
  have W: "plist (concat [sample t 7]) (sample_list 1) [] [sample t 7] []" for t
    by (simp add: plist_def sample_list_def)
  note refuses = series_write_refuses [OF platform_ok_qsort [OF platform_ok_posix [of 64]] W]
  show ?thesis
    using refuses [of "sample_series\<lparr>points := (sample_list 2)\<lparr>point_size := 24\<rparr>\<rparr>" sample_files 15]
      refuses [of sample_series sample_files 0]
    by (simp add: sample_list_def sample_series_def)
qed

text \<open>
  C13: \<^verbatim>\<open>series_read\<close> returns a reader over the points of the half-open interval \<open>[b, e)\<close>, in order,
  at most as many as asked for, and never a fault; \<^verbatim>\<open>series_read_latest\<close> returns the last point
  of the timeline, and an empty reader on an empty series.
\<close>

theorem series_read_window:
  assumes "series_ok fs s cs"
  shows "series_points (fs, s) b e n = Inr (take n (window b e cs)) \<and>
         series_latest (fs, s) = Inr (if cs = [] then [] else [last cs])"
  using series_store.rd_window [of "(fs, s)"] series_store.rd_last [of "(fs, s)"] assms by simp

theorem series_read_window_witness:
  "series_points (sample_files, sample_series) 10 20 5 = Inr (take 5 (window 10 20 [sample 10 1, sample 20 2])) \<and>
   series_latest (sample_files, sample_series)
     = Inr (if [sample 10 1, sample 20 2] = [] then [] else [last [sample 10 1, sample 20 2]])"
  by (rule series_read_window [OF sample_series_ok])

text \<open>
  \<^verbatim>\<open>series_create\<close> on a path without a file creates the file, filled with free slots, and
  returns an empty series on it; nothing else in the file system changes.
\<close>

lemma series_create_fresh:
  assumes "platform_ok P" and "map_of fs name = None" and "length name < SDB_STR_MAX_LEN"
    and "8 \<le> ps" and "ps < 2 ^ 32" and "file_grow_increment P < 2 ^ 63"
  shows "\<exists>fs' s. series_create P fs name ps nf = Inr (fs', Some s) \<and> series_ok fs' s [] \<and>
           file_name s = name \<and> point_size (points s) = ps \<and>
           points_capacity s = file_grow_increment P div ps \<and> (\<forall>n. n \<noteq> name \<longrightarrow> map_of fs' n = map_of fs n)"
proof -
  obtain fs' s f where c: "series_create P fs name ps nf = Inr (fs', Some s)" "series_at fs' s [] f 0"
    "file_name s = name" "point_size (points s) = ps" "points_capacity s = file_grow_increment P div ps"
    "only_changes name (AList.update name \<lparr>contents = [], durable = []\<rparr> fs) fs'"
    using series_create_new [OF assms] by metis
  then have "\<forall>n. n \<noteq> name \<longrightarrow> map_of fs' n = map_of fs n" by (auto simp: only_changes_def update_conv')
  with c show ?thesis unfolding series_ok_def by blast
qed

lemma series_create_fresh_example:
  "\<exists>fs' s. series_create (posix 64) sample_files ''d/8-16'' 16 True = Inr (fs', Some s) \<and> series_ok fs' s [] \<and>
     file_name s = ''d/8-16'' \<and> point_size (points s) = 16 \<and>
     points_capacity s = file_grow_increment (posix 64) div 16 \<and>
     (\<forall>n. n \<noteq> ''d/8-16'' \<longrightarrow> map_of fs' n = map_of sample_files n)"
  by (rule series_create_fresh [OF platform_ok_posix]) (simp_all add: sample_files_def SDB_STR_MAX_LEN_def posix_def)

text \<open>
  C14: what was written survives closing the series: opening the file again gives back the very
  series that was closed, with every point, as long as no point is at or after
  \<^verbatim>\<open>0xFFFFFFFFFFFFFFFE\<close>.
\<close>

theorem series_reopen_same:
  assumes "platform_ok P" and "series_ok fs s cs" and "0 < points_capacity s"
    and "\<forall>c\<in>set cs. point_time c < 0xFFFFFFFFFFFFFFFE"
  shows "series_create P fs (file_name s) (point_size (points s)) (no_flush s) = Inr (fs, Some s)"
  using series_reopen_at [OF assms(1) _ assms(3,4)] assms(2) by (auto simp: series_ok_def)

theorem series_reopen_same_witness:
  "series_create (posix 64) sample_files (file_name sample_series) (point_size (points sample_series)) (no_flush sample_series)
     = Inr (sample_files, Some sample_series)"
  by (rule series_reopen_same [OF platform_ok_posix sample_series_ok]) (simp_all add: sample_series_def)

text \<open>
  C17: points at the two largest timestamps do not survive reopening: the series that is opened
  counts only the points before \<^verbatim>\<open>0xFFFFFFFFFFFFFFFE\<close>, although the file still holds the others.
\<close>

theorem series_reopen_loses:
  assumes "platform_ok P" and "series_ok fs s (cs @ [d])"
    and "\<forall>c\<in>set cs. point_time c < 0xFFFFFFFFFFFFFFFE" and "0xFFFFFFFFFFFFFFFE \<le> point_time d"
  shows "\<exists>s'. series_create P fs (file_name s) (point_size (points s)) (no_flush s) = Inr (fs, Some s') \<and>
           count_pl (points s) = length cs + 1 \<and> count_pl (points s') = length cs"
proof -
  obtain f r where at: "series_at fs s (cs @ [d]) f r" using assms(2) by (auto simp: series_ok_def)
  have "0 < points_capacity s" using series_atD(12) [OF at] by simp
  from series_reopen [OF assms(1) at this assms(3)] assms(4) series_atD(11) [OF at]
  show ?thesis by simp
qed

text \<open>The same file with a third point, at the largest timestamp but one.\<close>

definition late_inode :: inode where
  "late_inode = \<lparr>contents = concat (slots 16 4 [sample 10 1, sample 20 2, sample (2 ^ 64 - 2) 3]), durable = []\<rparr>"

lemma late_series_ok:
  "series_ok [(''d/7-16'', late_inode)] (sample_series\<lparr>points := sample_list 3\<rparr>)
     ([sample 10 1, sample 20 2] @ [sample (2 ^ 64 - 2) 3])"
proof -
  have len: "length (contents late_inode) = 64"
    using length_concat_slots [of 16 "[sample 10 1, sample 20 2, sample (2 ^ 64 - 2) 3]" 4] by (simp add: late_inode_def)
  then have "contents late_inode \<noteq> []" by auto
  with len have "series_at [(''d/7-16'', late_inode)] (sample_series\<lparr>points := sample_list 3\<rparr>)
     ([sample 10 1, sample 20 2] @ [sample (2 ^ 64 - 2) 3]) late_inode 0"
    unfolding series_at_def
    by (simp add: sample_series_def sample_list_def SDB_STR_MAX_LEN_def late_inode_def)
  then show ?thesis unfolding series_ok_def by blast
qed

theorem series_reopen_loses_witness:
  "\<exists>s'. series_create (posix 64) [(''d/7-16'', late_inode)] (file_name (sample_series\<lparr>points := sample_list 3\<rparr>))
      (point_size (points (sample_series\<lparr>points := sample_list 3\<rparr>))) (no_flush (sample_series\<lparr>points := sample_list 3\<rparr>))
      = Inr ([(''d/7-16'', late_inode)], Some s') \<and>
     count_pl (points (sample_series\<lparr>points := sample_list 3\<rparr>)) = length [sample 10 1, sample 20 2] + 1 \<and>
     count_pl (points s') = length [sample 10 1, sample 20 2]"
  by (rule series_reopen_loses [OF platform_ok_posix late_series_ok]) simp_all

end
