(* ===== verification/Database.thy ===== *)
theory Database
  imports Series
begin

text \<open>
  \<^verbatim>\<open>src/storage/database.c\<close>: a directory of series, one file \<^verbatim>\<open><id>-<point size>\<close> each, opened on
  first use and kept open in a table indexed by series id.  The abstract view is a map from
  series ids to a point size and a timeline.
\<close>

record database =
  directory :: string
  db_series :: "series option list"
  max_series_count :: nat
  db_no_flush :: bool

section \<open>Reading numbers and directories\<close>

text \<open>
  \<^verbatim>\<open>strtol\<close> with base 0: leading white space, a sign, then a hexadecimal number after \<^verbatim>\<open>0x\<close>, an
  octal one after \<^verbatim>\<open>0\<close>, a decimal one otherwise, up to the first character that is not a digit
  of the base; the result saturates at the bounds of \<^verbatim>\<open>long\<close>.
\<close>

definition is_space :: "char \<Rightarrow> bool" where
  "is_space c \<longleftrightarrow> c = CHR '' '' \<or> 9 \<le> (of_char c :: nat) \<and> (of_char c :: nat) \<le> 13"

definition digit_val :: "char \<Rightarrow> nat option" where
  "digit_val c =
     (let n = (of_char c :: nat) in
      if 48 \<le> n \<and> n \<le> 57 then Some (n - 48)
      else if 65 \<le> n \<and> n \<le> 90 then Some (n - 55)
      else if 97 \<le> n \<and> n \<le> 122 then Some (n - 87)
      else None)"

fun read_digits :: "nat \<Rightarrow> nat \<Rightarrow> string \<Rightarrow> nat" where
  "read_digits base acc [] = acc"
| "read_digits base acc (c # cs) =
     (case digit_val c of
        Some d \<Rightarrow> if d < base then read_digits base (acc * base + d) cs else acc
      | None \<Rightarrow> acc)"

fun read_magnitude :: "string \<Rightarrow> nat" where
  "read_magnitude (CHR ''0'' # x # d # cs) =
     (if (x = CHR ''x'' \<or> x = CHR ''X'') \<and> (case digit_val d of Some v \<Rightarrow> v < 16 | None \<Rightarrow> False)
      then read_digits 16 0 (d # cs) else read_digits 8 0 (x # d # cs))"
| "read_magnitude (CHR ''0'' # cs) = read_digits 8 0 cs"
| "read_magnitude cs = read_digits 10 0 cs"

definition strtol :: "string \<Rightarrow> int" where
  "strtol text =
     (let t = dropWhile is_space text;
          v = (case t of
                 [] \<Rightarrow> 0
               | c # cs \<Rightarrow> if c = CHR ''-'' then - int (read_magnitude cs)
                           else if c = CHR ''+'' then int (read_magnitude cs)
                           else int (read_magnitude t))
      in max (- (2 ^ 63)) (min (2 ^ 63 - 1) v))"

text \<open>The names \<^verbatim>\<open>readdir\<close> reports, but for \<^verbatim>\<open>.\<close> and \<^verbatim>\<open>..\<close>, which no series id matches.\<close>

definition starts_with :: "string \<Rightarrow> string \<Rightarrow> bool" where
  "starts_with p text \<longleftrightarrow> take (length p) text = p"

definition dir_entries :: "string \<Rightarrow> files \<Rightarrow> string list" where
  "dir_entries dir fs =
     filter (\<lambda>n. CHR ''/'' \<notin> set n)
       (map (drop (length dir + 1)) (filter (starts_with (dir @ ''/'')) (map fst fs)))"

section \<open>Operations\<close>

definition database_create :: "string \<Rightarrow> nat \<Rightarrow> bool \<Rightarrow> database" where
  "database_create dir max_series nf =
     \<lparr>directory = strncpy SDB_STR_MAX_LEN dir, db_series = replicate max_series None,
      max_series_count = max_series, db_no_flush = nf\<rparr>"

text \<open>What is left of every series that was open: its unmapped handle.\<close>

definition database_destroy :: "database \<Rightarrow> file_map list" where
  "database_destroy db = map series_destroy (List.map_filter id (db_series db))"

text \<open>The scan of \<^verbatim>\<open>database_get_or_load_data_series\<close> over the names in the directory.\<close>

fun load_scan ::
  "'a platform_scheme \<Rightarrow> files \<Rightarrow> string \<Rightarrow> bool \<Rightarrow> string \<Rightarrow> string list \<Rightarrow> (files \<times> series option) res" where
  "load_scan P fs dir nf file_root [] = Inr (fs, None)"
| "load_scan P fs dir nf file_root (d_name # names) =
     (if length file_root \<ge> length d_name \<or> \<not> starts_with file_root d_name
      then load_scan P fs dir nf file_root names
      else let ps = nat (strtol (drop (length file_root) d_name) mod 2 ^ 32);
               file_name = snprintf SDB_STR_MAX_LEN (dir @ ''/'' @ d_name)
        in bindR (series_create P fs file_name ps nf) (\<lambda>(fs', s).
             case s of
               Some s' \<Rightarrow> Inr (fs', Some s')
             | None \<Rightarrow> load_scan P fs' dir nf file_root names))"

definition database_get_or_load_data_series ::
  "'a platform_scheme \<Rightarrow> files \<Rightarrow> database \<Rightarrow> nat \<Rightarrow> (files \<times> database \<times> series option) res" where
  "database_get_or_load_data_series P fs db series_id =
     (if series_id \<ge> max_series_count db then Inr (fs, db, None)
      else case db_series db ! series_id of
        Some s \<Rightarrow> Inr (fs, db, Some s)
      | None \<Rightarrow>
          bindR (c_str SDB_STR_MAX_LEN (directory db)) (\<lambda>dir.
            if \<not> opendir_ok P dir then Inr (fs, db, None)
            else bindR (load_scan P fs dir (db_no_flush db) (snprintf SDB_STR_MAX_LEN (fmt_d series_id @ ''-''))
                          (dir_entries dir fs)) (\<lambda>(fs', s).
                   Inr (fs', db\<lparr>db_series := (db_series db)[series_id := s]\<rparr>, s))))"

definition database_get_or_create_data_series ::
  "'a platform_scheme \<Rightarrow> files \<Rightarrow> database \<Rightarrow> nat \<Rightarrow> nat \<Rightarrow> (files \<times> database \<times> series option) res" where
  "database_get_or_create_data_series P fs db series_id ps =
     (if series_id \<ge> max_series_count db then Inr (fs, db, None)
      else bindR (database_get_or_load_data_series P fs db series_id) (\<lambda>(fs1, db1, s).
        case s of
          Some s' \<Rightarrow> Inr (fs1, db1, Some s')
        | None \<Rightarrow>
            bindR (c_str SDB_STR_MAX_LEN (directory db1)) (\<lambda>dir.
            bindR (series_create P fs1
                     (snprintf SDB_STR_MAX_LEN (dir @ ''/'' @ fmt_d series_id @ ''-'' @ fmt_d ps)) ps (db_no_flush db1))
              (\<lambda>(fs2, s2). Inr (fs2, db1\<lparr>db_series := (db_series db1)[series_id := s2]\<rparr>, s2)))))"

text \<open>
  \<^verbatim>\<open>database_write\<close> returns the status and, as \<^verbatim>\<open>series_write\<close> does, the caller's list and object.
  The series it writes through stays in the table.
\<close>

definition database_write ::
  "'a platform_scheme \<Rightarrow> files \<Rightarrow> database \<Rightarrow> nat \<Rightarrow> points_list \<Rightarrow> bytes \<Rightarrow>
   (int \<times> files \<times> database \<times> points_list \<times> bytes) res" where
  "database_write P fs db series_id w tm =
     bindR (database_get_or_create_data_series P fs db series_id (point_size w)) (\<lambda>(fs1, db1, s).
       case s of
         None \<Rightarrow> Inr (- 1, fs1, db1, w, tm)
       | Some s1 \<Rightarrow>
           bindR (series_write P fs1 s1 w tm) (\<lambda>(status, fs2, s2, w2, tm2).
             Inr (status, fs2, db1\<lparr>db_series := (db_series db1)[series_id := Some s2]\<rparr>, w2, tm2)))"

definition database_truncate ::
  "'a platform_scheme \<Rightarrow> files \<Rightarrow> database \<Rightarrow> nat \<Rightarrow> (int \<times> files \<times> database) res" where
  "database_truncate P fs db series_id =
     bindR (database_get_or_load_data_series P fs db series_id) (\<lambda>(fs1, db1, s).
       case s of
         None \<Rightarrow> Inr (0, fs1, db1)
       | Some s1 \<Rightarrow>
           bindR (series_truncate_and_destroy fs1 s1) (\<lambda>fs2.
             Inr (0, fs2, db1\<lparr>db_series := (db_series db1)[series_id := None]\<rparr>)))"

definition database_get_point_size ::
  "'a platform_scheme \<Rightarrow> files \<Rightarrow> database \<Rightarrow> nat \<Rightarrow> (files \<times> database \<times> nat) res" where
  "database_get_point_size P fs db series_id =
     bindR (database_get_or_load_data_series P fs db series_id) (\<lambda>(fs1, db1, s).
       Inr (fs1, db1, case s of None \<Rightarrow> 0 | Some s1 \<Rightarrow> point_size (points s1)))"

definition database_read_latest ::
  "'a platform_scheme \<Rightarrow> files \<Rightarrow> database \<Rightarrow> nat \<Rightarrow> (files \<times> database \<times> points_reader) res" where
  "database_read_latest P fs db series_id =
     bindR (database_get_or_load_data_series P fs db series_id) (\<lambda>(fs1, db1, s).
     bindR (case s of None \<Rightarrow> points_reader_create [] Null 0 0 | Some s1 \<Rightarrow> series_read_latest fs1 s1) (\<lambda>r.
       Inr (fs1, db1, r)))"

definition database_read ::
  "'a platform_scheme \<Rightarrow> files \<Rightarrow> database \<Rightarrow> nat \<Rightarrow> timestamp \<Rightarrow> timestamp \<Rightarrow> nat \<Rightarrow>
   (files \<times> database \<times> points_reader) res" where
  "database_read P fs db series_id begin fin max_points =
     bindR (database_get_or_load_data_series P fs db series_id) (\<lambda>(fs1, db1, s).
     bindR (case s of None \<Rightarrow> points_reader_create [] Null 0 0
                    | Some s1 \<Rightarrow> series_read fs1 s1 begin fin max_points) (\<lambda>r.
       Inr (fs1, db1, r)))"

text \<open>No operation changes where the database is and how it was set up.\<close>

definition db_config :: "database \<Rightarrow> string \<times> nat \<times> bool" where
  "db_config db = (directory db, max_series_count db, db_no_flush db)"

lemma get_or_load_config:
  "database_get_or_load_data_series P fs db sid = Inr (fs', db', s) \<Longrightarrow> db_config db' = db_config db"
  by (auto simp: database_get_or_load_data_series_def db_config_def elim!: bindR_InrE split: if_splits option.splits)

lemma get_or_create_config:
  "database_get_or_create_data_series P fs db sid ps = Inr (fs', db', s) \<Longrightarrow> db_config db' = db_config db"
  by (auto simp: database_get_or_create_data_series_def elim!: bindR_InrE split: if_splits option.splits
      dest!: get_or_load_config) (simp_all add: db_config_def)

lemma database_config:
  "database_write P fs db sid w tm = Inr (st, fs', db', w', tm') \<Longrightarrow> db_config db' = db_config db"
  "database_truncate P fs db sid = Inr (st, fs', db') \<Longrightarrow> db_config db' = db_config db"
  "database_get_point_size P fs db sid = Inr (fs', db', n) \<Longrightarrow> db_config db' = db_config db"
  "database_read P fs db sid b e m = Inr (fs', db', r) \<Longrightarrow> db_config db' = db_config db"
  "database_read_latest P fs db sid = Inr (fs', db', r) \<Longrightarrow> db_config db' = db_config db"
proof -
  assume "database_write P fs db sid w tm = Inr (st, fs', db', w', tm')"
  then obtain db1 where "db_config db1 = db_config db" "db_config db' = db_config db1"
    by (auto simp: database_write_def elim!: bindR_InrE split: option.splits dest!: get_or_create_config)
      (simp_all add: db_config_def)
  then show "db_config db' = db_config db" by simp
next
  assume "database_truncate P fs db sid = Inr (st, fs', db')"
  then obtain db1 where "db_config db1 = db_config db" "db_config db' = db_config db1"
    by (auto simp: database_truncate_def elim!: bindR_InrE split: option.splits dest!: get_or_load_config)
      (simp_all add: db_config_def)
  then show "db_config db' = db_config db" by simp
next
  assume "database_get_point_size P fs db sid = Inr (fs', db', n)"
  then show "db_config db' = db_config db"
    by (auto simp: database_get_point_size_def elim!: bindR_InrE dest!: get_or_load_config)
next
  assume "database_read P fs db sid b e m = Inr (fs', db', r)"
  then show "db_config db' = db_config db"
    by (auto simp: database_read_def Let_def elim!: bindR_InrE split: option.splits if_splits dest!: get_or_load_config)
next
  assume "database_read_latest P fs db sid = Inr (fs', db', r)"
  then show "db_config db' = db_config db"
    by (auto simp: database_read_latest_def Let_def elim!: bindR_InrE split: option.splits if_splits dest!: get_or_load_config)
qed

section \<open>File names\<close>

text \<open>The decimal text of a number, read back.\<close>

lemma of_digit_char [simp]: "d < 10 \<Longrightarrow> (of_char (digit_char d) :: nat) = 48 + d"
  by (simp add: digit_char_def)

lemma digit_val_digit_char [simp]: "d < 10 \<Longrightarrow> digit_val (digit_char d) = Some d"
  by (simp add: digit_val_def)

lemma digit_char_0 [simp]: "digit_char 0 = CHR ''0''"
proof -
  have "char_of (of_char (CHR ''0'') :: nat) = CHR ''0''" by (rule char_of_char)
  then show ?thesis by (simp add: digit_char_def)
qed

lemma digit_char_neq [simp]:
  "d < 10 \<Longrightarrow> digit_char d \<noteq> CHR ''-''" "d < 10 \<Longrightarrow> digit_char d \<noteq> CHR ''/''"
  "d < 10 \<Longrightarrow> digit_char d \<noteq> CHR ''+''" "d < 10 \<Longrightarrow> \<not> is_space (digit_char d)"
  "d < 10 \<Longrightarrow> digit_char d = CHR ''0'' \<longleftrightarrow> d = 0"
  by (auto simp: is_space_def dest: arg_cong [of _ _ "of_char :: char \<Rightarrow> nat"])

lemma dec_nat_digits: "c \<in> set (dec_nat n) \<Longrightarrow> \<exists>d<10. c = digit_char d"
proof (induction n rule: dec_nat.induct)
  case (1 n)
  show ?case
  proof (cases "n < 10")
    case True
    with 1 show ?thesis by (auto simp: dec_nat.simps [of n])
  next
    case False
    with 1 show ?thesis by (auto simp: dec_nat.simps [of n] intro: exI [of _ "n mod 10"])
  qed
qed

lemma dec_nat_neq_Nil [simp]: "dec_nat n \<noteq> []"
  by (simp add: dec_nat.simps [of n])

lemma hd_dec_nat: "0 < n \<Longrightarrow> \<exists>d. hd (dec_nat n) = digit_char d \<and> 0 < d \<and> d < 10"
proof (induction n rule: dec_nat.induct)
  case (1 n)
  show ?case
  proof (cases "n < 10")
    case True
    with 1 show ?thesis by (auto simp: dec_nat.simps [of n])
  next
    case False
    with 1 show ?thesis by (simp add: dec_nat.simps [of n])
  qed
qed

lemma read_digits_snoc:
  assumes "\<forall>c\<in>set cs. \<exists>d<10. c = digit_char d" and "d < 10"
  shows "read_digits 10 acc (cs @ [digit_char d]) = read_digits 10 acc cs * 10 + d"
  using assms by (induction cs arbitrary: acc) auto

lemma read_digits_dec_nat: "read_digits 10 0 (dec_nat n) = n"
proof (induction n rule: dec_nat.induct)
  case (1 n)
  show ?case
  proof (cases "n < 10")
    case True
    then show ?thesis by (simp add: dec_nat.simps [of n])
  next
    case False
    have "read_digits 10 0 (dec_nat (n div 10) @ [digit_char (n mod 10)]) = n div 10 * 10 + n mod 10"
      using dec_nat_digits 1 [OF False] by (subst read_digits_snoc) auto
    with False show ?thesis by (simp add: dec_nat.simps [of n])
  qed
qed

lemma dec_nat_inject [simp]: "dec_nat m = dec_nat n \<longleftrightarrow> m = n"
  by (metis read_digits_dec_nat)

lemma read_magnitude_decimal: "cs = [] \<or> hd cs \<noteq> CHR ''0'' \<Longrightarrow> read_magnitude cs = read_digits 10 0 cs"
  by (cases cs rule: read_magnitude.cases) auto

lemma strtol_dec_nat:
  assumes "n < 2 ^ 63"
  shows "strtol (dec_nat n) = int n"
proof (cases "n = 0")
  case True
  then show ?thesis by (simp add: strtol_def dec_nat.simps is_space_def)
next
  case False
  obtain c cs where t: "dec_nat n = c # cs" by (cases "dec_nat n") auto
  obtain d where d: "c = digit_char d" "0 < d" "d < 10" using hd_dec_nat [of n] False t by auto
  then have "read_magnitude (c # cs) = n"
    using read_magnitude_decimal [of "c # cs"] read_digits_dec_nat [of n] t by simp
  with assms d t show ?thesis by (simp add: strtol_def)
qed

definition series_name :: "nat \<Rightarrow> nat \<Rightarrow> string" where
  "series_name sid ps = dec_nat sid @ ''-'' @ dec_nat ps"

lemma no_dash: "CHR ''-'' \<notin> set (dec_nat n)"
  by (metis dec_nat_digits digit_char_neq(1))

lemma no_slash: "CHR ''/'' \<notin> set (series_name sid ps)"
proof -
  have "CHR ''/'' \<notin> set (dec_nat n)" for n by (metis dec_nat_digits digit_char_neq(2))
  then show ?thesis by (simp add: series_name_def)
qed

lemma append_dash_inject:
  assumes "x \<notin> set as" and "x \<notin> set bs" and "as @ x # cs = bs @ x # ds"
  shows "as = bs" and "cs = ds"
proof -
  have "takeWhile (\<lambda>y. y \<noteq> x) (as @ x # cs) = as" "takeWhile (\<lambda>y. y \<noteq> x) (bs @ x # ds) = bs"
    using assms(1,2) by (auto simp: takeWhile_tail takeWhile_append2 intro: takeWhile_append2)
  with assms(3) show "as = bs" by simp
  with assms(3) show "cs = ds" by simp
qed

lemma series_name_inject [simp]: "series_name i p = series_name j q \<longleftrightarrow> i = j \<and> p = q"
  using append_dash_inject [OF no_dash no_dash, of i "dec_nat p" j "dec_nat q"] by (auto simp: series_name_def)

lemma starts_with_series_name:
  "starts_with (dec_nat i @ ''-'') (series_name j ps) \<longleftrightarrow> i = j"
proof
  assume "starts_with (dec_nat i @ ''-'') (series_name j ps)"
  then have "series_name j ps = (dec_nat i @ ''-'') @ drop (length (dec_nat i @ ''-'')) (series_name j ps)"
    by (metis append_take_drop_id starts_with_def)
  then have "dec_nat j = dec_nat i"
    by (intro append_dash_inject(1) [OF no_dash no_dash, of j "dec_nat ps" i]) (simp add: series_name_def)
  then show "i = j" by simp
qed (simp add: starts_with_def series_name_def)

lemma fmt_d_small: "n < 2 ^ 31 \<Longrightarrow> fmt_d n = dec_nat n"
  by (simp add: fmt_d_def dec_int_def)

lemma length_dec_nat: "n < 10 ^ k \<Longrightarrow> 0 < k \<Longrightarrow> length (dec_nat n) \<le> k"
proof (induction k arbitrary: n)
  case (Suc k)
  show ?case
  proof (cases "n < 10")
    case False
    then have "0 < k" using Suc.prems by (cases k) auto
    then have "length (dec_nat (n div 10)) \<le> k" using Suc by (intro Suc.IH) (auto simp: less_mult_imp_div_less)
    with False show ?thesis by (simp add: dec_nat.simps [of n])
  qed (simp add: dec_nat.simps [of n])
qed simp

lemma length_series_name: "sid < 2 ^ 31 \<Longrightarrow> ps < 2 ^ 31 \<Longrightarrow> length (series_name sid ps) \<le> 21"
  using length_dec_nat [of sid 10] length_dec_nat [of ps 10] by (simp add: series_name_def)

section \<open>The abstract database\<close>

text \<open>
  \<open>db_rep fs db A\<close>: the directory and the table represent the map \<open>A\<close>.  A series that is not in
  \<open>A\<close> has no file and no entry; one that is has exactly one file, and its entry is empty or the
  open series on that file.
\<close>

definition series_path :: "database \<Rightarrow> nat \<Rightarrow> nat \<Rightarrow> string" where
  "series_path db sid ps = directory db @ ''/'' @ series_name sid ps"

definition series_rep :: "files \<Rightarrow> database \<Rightarrow> nat \<Rightarrow> nat \<Rightarrow> point list \<Rightarrow> series \<Rightarrow> bool" where
  "series_rep fs db sid ps cs s \<longleftrightarrow>
     series_ok fs s cs \<and> file_name s = series_path db sid ps \<and> point_size (points s) = ps \<and> ps < 2 ^ 31 \<and>
     no_flush s = db_no_flush db \<and> 0 < points_capacity s \<and> (\<forall>c\<in>set cs. point_time c < 0xFFFFFFFFFFFFFFFE)"

definition entry_rep :: "files \<Rightarrow> database \<Rightarrow> nat \<Rightarrow> (nat \<times> point list) option \<Rightarrow> bool" where
  "entry_rep fs db sid a =
     (case a of
        None \<Rightarrow> db_series db ! sid = None \<and>
          (\<forall>n\<in>set (dir_entries (directory db) fs). \<not> starts_with (dec_nat sid @ ''-'') n)
      | Some (ps, cs) \<Rightarrow>
          (\<forall>n\<in>set (dir_entries (directory db) fs). starts_with (dec_nat sid @ ''-'') n \<longrightarrow> n = series_name sid ps) \<and>
          (\<exists>s. series_rep fs db sid ps cs s \<and> (db_series db ! sid = None \<or> db_series db ! sid = Some s)))"

definition db_rep :: "files \<Rightarrow> database \<Rightarrow> (nat \<rightharpoonup> nat \<times> point list) \<Rightarrow> bool" where
  "db_rep fs db A \<longleftrightarrow>
     length (db_series db) = max_series_count db \<and> max_series_count db \<le> 2 ^ 31 \<and>
     length (directory db) + 32 < SDB_STR_MAX_LEN \<and> dom A \<subseteq> {..<max_series_count db} \<and>
     (\<forall>sid<max_series_count db. entry_rep fs db sid (A sid))"

lemma db_repD:
  assumes "db_rep fs db A"
  shows "length (db_series db) = max_series_count db" and "max_series_count db \<le> 2 ^ 31"
    and "length (directory db) + 32 < SDB_STR_MAX_LEN" and "dom A \<subseteq> {..<max_series_count db}"
    and "sid < max_series_count db \<Longrightarrow> entry_rep fs db sid (A sid)"
  using assms by (auto simp: db_rep_def)

lemma series_path_inject [simp]: "series_path db i p = series_path db j q \<longleftrightarrow> i = j \<and> p = q"
  by (auto simp: series_path_def)

lemma in_dir_entries:
  "n \<in> set (dir_entries dir fs) \<longleftrightarrow> CHR ''/'' \<notin> set n \<and> dir @ ''/'' @ n \<in> fst ` set fs"
proof -
  have "n \<in> drop (length dir + 1) ` {p \<in> fst ` set fs. starts_with (dir @ ''/'') p} \<longleftrightarrow> dir @ ''/'' @ n \<in> fst ` set fs"
  proof
    assume "n \<in> drop (length dir + 1) ` {p \<in> fst ` set fs. starts_with (dir @ ''/'') p}"
    then obtain p where "p \<in> fst ` set fs" "take (length dir + 1) p = dir @ ''/''" "n = drop (length dir + 1) p"
      by (auto simp: starts_with_def)
    then show "dir @ ''/'' @ n \<in> fst ` set fs" by (metis append_assoc append_take_drop_id)
  next
    assume "dir @ ''/'' @ n \<in> fst ` set fs"
    moreover have "starts_with (dir @ ''/'') (dir @ ''/'' @ n)" "drop (length dir + 1) (dir @ ''/'' @ n) = n"
      by (simp_all add: starts_with_def)
    ultimately show "n \<in> drop (length dir + 1) ` {p \<in> fst ` set fs. starts_with (dir @ ''/'') p}"
      by (metis (no_types, lifting) image_eqI mem_Collect_eq)
  qed
  then show ?thesis by (auto simp: dir_entries_def)
qed

lemma in_dir_entries_map_of:
  "n \<in> set (dir_entries dir fs) \<longleftrightarrow> CHR ''/'' \<notin> set n \<and> map_of fs (dir @ ''/'' @ n) \<noteq> None"
  by (simp add: in_dir_entries map_of_eq_None_iff)

lemma series_ok_frame:
  "map_of fs' (file_name s) = map_of fs (file_name s) \<Longrightarrow> series_ok fs' s cs = series_ok fs s cs"
  by (simp add: series_ok_def series_at_def)

text \<open>Whatever an operation does to the files of one series, the others do not see it.\<close>

definition others_same :: "database \<Rightarrow> nat \<Rightarrow> files \<Rightarrow> files \<Rightarrow> bool" where
  "others_same db sid fs fs' \<longleftrightarrow> (\<forall>q. q \<notin> range (series_path db sid) \<longrightarrow> map_of fs' q = map_of fs q)"

lemma others_sameI: "only_changes (series_path db sid p) fs fs' \<Longrightarrow> others_same db sid fs fs'"
  unfolding others_same_def only_changes_def by blast

lemma entry_rep_frame:
  assumes "entry_rep fs db j a" and same: "others_same db i fs fs'" and "i \<noteq> j"
    and "directory db' = directory db" and "db_no_flush db' = db_no_flush db"
    and "db_series db' ! j = db_series db ! j"
  shows "entry_rep fs' db' j a"
proof -
  have ents: "n \<in> set (dir_entries (directory db') fs') \<longleftrightarrow> n \<in> set (dir_entries (directory db) fs)"
    if "starts_with (dec_nat j @ ''-'') n" for n
  proof -
    have "directory db @ ''/'' @ n \<notin> range (series_path db i)"
      using that assms(3) starts_with_series_name by (auto simp: series_path_def)
    then show ?thesis
      using same assms(4) unfolding in_dir_entries_map_of others_same_def by simp
  qed
  have "series_rep fs' db' j ps cs s" if "series_rep fs db j ps cs s" for ps cs s
  proof -
    have "file_name s \<notin> range (series_path db i)" using that assms(3) by (auto simp: series_rep_def)
    then have "map_of fs' (file_name s) = map_of fs (file_name s)"
      using same unfolding others_same_def by blast
    from series_ok_frame [OF this] show ?thesis
      using that assms(4,5) by (simp add: series_rep_def series_path_def)
  qed
  then show ?thesis
    using assms(1,6) ents unfolding entry_rep_def by (auto split: option.splits) blast+
qed

lemma db_rep_update:
  assumes rep: "db_rep fs db A" and sid: "sid < max_series_count db" and same: "others_same db sid fs fs'"
    and a: "entry_rep fs' (db\<lparr>db_series := (db_series db)[sid := e]\<rparr>) sid a"
  shows "db_rep fs' (db\<lparr>db_series := (db_series db)[sid := e]\<rparr>) (A(sid := a))"
proof -
  note R = db_repD [OF rep]
  have "entry_rep fs' (db\<lparr>db_series := (db_series db)[sid := e]\<rparr>) j ((A(sid := a)) j)"
    if "j < max_series_count db" for j
  proof (cases "j = sid")
    case False
    with entry_rep_frame [OF R(5) [OF that] same, of "db\<lparr>db_series := (db_series db)[sid := e]\<rparr>"]
    show ?thesis by simp
  qed (use a in simp)
  with R sid show ?thesis by (auto simp: db_rep_def split: if_splits)
qed

text \<open>A series in place makes an entry.\<close>

lemma entry_rep_Some:
  assumes "series_rep fs db sid ps cs s" and "db_series db ! sid = None \<or> db_series db ! sid = Some s"
    and "\<And>n. n \<in> set (dir_entries (directory db) fs) \<Longrightarrow> starts_with (dec_nat sid @ ''-'') n \<Longrightarrow> n = series_name sid ps"
  shows "entry_rep fs db sid (Some (ps, cs))"
  using assms by (auto simp: entry_rep_def)

section \<open>Loading\<close>

lemma load_scan_none:
  "\<forall>n\<in>set names. \<not> starts_with root n \<Longrightarrow> load_scan P fs dir nf root names = Inr (fs, None)"
  by (induction names) auto

lemma load_scan_found:
  assumes "\<forall>n\<in>set names. starts_with root n \<longrightarrow> n = name" and "name \<in> set names"
    and "starts_with root name" and "length root < length name"
    and "series_create P fs (snprintf SDB_STR_MAX_LEN (dir @ ''/'' @ name))
           (nat (strtol (drop (length root) name) mod 2 ^ 32)) nf = Inr (fs, Some s)"
  shows "load_scan P fs dir nf root names = Inr (fs, Some s)"
  using assms(1,2)
proof (induction names)
  case (Cons n names)
  show ?case
  proof (cases "starts_with root n")
    case True
    with Cons have "n = name" by simp
    with assms(3-5) show ?thesis by (simp add: Let_def)
  next
    case False
    with Cons assms(3) show ?thesis by auto
  qed
qed simp

lemma snprintf_id: "length text < n \<Longrightarrow> snprintf n text = text"
  by (simp add: snprintf_def)

lemma get_or_load_spec:
  assumes P: "platform_ok P" and rep: "db_rep fs db A" and sid: "sid < max_series_count db"
  shows "A sid = None \<Longrightarrow> database_get_or_load_data_series P fs db sid = Inr (fs, db, None)"
    and "A sid = Some (ps, cs) \<Longrightarrow> \<exists>s. series_rep fs db sid ps cs s \<and>
           database_get_or_load_data_series P fs db sid
             = Inr (fs, db\<lparr>db_series := (db_series db)[sid := Some s]\<rparr>, Some s)"
proof -
  note R = db_repD [OF rep]
  have small: "sid < 2 ^ 31" using sid R(2) by simp
  have root: "snprintf SDB_STR_MAX_LEN (fmt_d sid @ ''-'') = dec_nat sid @ ''-''"
    using fmt_d_small [OF small] length_dec_nat [of sid 10] small
    by (simp add: snprintf_id SDB_STR_MAX_LEN_def)
  have dir: "c_str SDB_STR_MAX_LEN (directory db) = Inr (directory db)" using R(3) by (simp add: c_str_def)
  have od: "opendir_ok P (directory db)" using P by (simp add: platform_ok_def)
  show "database_get_or_load_data_series P fs db sid = Inr (fs, db, None)" if "A sid = None"
  proof -
    have e: "db_series db ! sid = None"
      "\<forall>n\<in>set (dir_entries (directory db) fs). \<not> starts_with (dec_nat sid @ ''-'') n"
      using R(5) [OF sid] that by (simp_all add: entry_rep_def)
    then have "db\<lparr>db_series := (db_series db)[sid := None]\<rparr> = db" by (metis database.surjective database.update_convs(2) list_update_id)
    with e sid dir od root show ?thesis
      by (simp add: database_get_or_load_data_series_def load_scan_none)
  qed
  show "\<exists>s. series_rep fs db sid ps cs s \<and> database_get_or_load_data_series P fs db sid
             = Inr (fs, db\<lparr>db_series := (db_series db)[sid := Some s]\<rparr>, Some s)" if a: "A sid = Some (ps, cs)"
  proof -
    obtain s where s: "series_rep fs db sid ps cs s" "db_series db ! sid = None \<or> db_series db ! sid = Some s"
      and only: "\<forall>n\<in>set (dir_entries (directory db) fs). starts_with (dec_nat sid @ ''-'') n \<longrightarrow> n = series_name sid ps"
      using R(5) [OF sid] a by (auto simp: entry_rep_def)
    have ps: "ps < 2 ^ 31" using s(1) by (simp add: series_rep_def)
    have loaded: "db\<lparr>db_series := (db_series db)[sid := Some s]\<rparr> = db" if "db_series db ! sid = Some s"
      using that by (metis database.surjective database.update_convs(2) list_update_id)
    obtain f r where at: "series_at fs s cs f r" using s(1) by (auto simp: series_rep_def series_ok_def)
    have stored: "map_of fs (directory db @ ''/'' @ series_name sid ps) = Some f"
      using series_atD(1) [OF at] s(1) by (simp add: series_rep_def series_path_def)
    have mem: "series_name sid ps \<in> set (dir_entries (directory db) fs)"
      unfolding in_dir_entries using no_slash map_of_SomeD [OF stored] by (metis fst_conv image_eqI)
    have "nat (strtol (dec_nat ps) mod 2 ^ 32) = ps" using strtol_dec_nat [of ps] ps by simp
    moreover have "snprintf SDB_STR_MAX_LEN (directory db @ ''/'' @ series_name sid ps) = file_name s"
      using s(1) R(3) length_series_name [OF small ps] by (simp add: snprintf_id series_rep_def series_path_def)
    moreover have "series_create P fs (file_name s) ps (db_no_flush db) = Inr (fs, Some s)"
      using series_reopen_at [OF P at] s(1) by (simp add: series_rep_def)
    ultimately have "load_scan P fs (directory db) (db_no_flush db) (dec_nat sid @ ''-'') (dir_entries (directory db) fs)
        = Inr (fs, Some s)"
      by (intro load_scan_found [OF only mem]) (simp_all add: starts_with_series_name, simp_all add: series_name_def)
    with s loaded sid dir od root show ?thesis
      by (auto simp: database_get_or_load_data_series_def)
  qed
qed

lemma series_rep_path [simp]:
  "series_path (db\<lparr>db_series := t\<rparr>) sid ps = series_path db sid ps"
  "series_rep fs (db\<lparr>db_series := t\<rparr>) sid ps cs s = series_rep fs db sid ps cs s"
  by (simp_all add: series_path_def series_rep_def)

lemma db_rep_loaded:
  assumes rep: "db_rep fs db A" and sid: "sid < max_series_count db" and a: "A sid = Some (ps, cs)"
    and s: "series_rep fs db sid ps cs s"
  shows "db_rep fs (db\<lparr>db_series := (db_series db)[sid := Some s]\<rparr>) A"
proof -
  have "entry_rep fs (db\<lparr>db_series := (db_series db)[sid := Some s]\<rparr>) sid (Some (ps, cs))"
    using db_repD(1) [OF rep] db_repD(5) [OF rep sid] a s sid by (auto simp: entry_rep_def)
  from db_rep_update [OF rep sid _ this] a show ?thesis by (simp add: others_same_def fun_upd_idem)
qed

section \<open>Reading\<close>

text \<open>
  Reading an interval or the latest point leaves the abstract database as it is; the table may
  have gained the series that was read.
\<close>

lemma database_query:
  assumes P: "platform_ok P" and rep: "db_rep fs db A" and sid: "sid < max_series_count db"
  obtains db' s where "database_get_or_load_data_series P fs db sid = Inr (fs, db', s)" and "db_rep fs db' A"
    and "case A sid of None \<Rightarrow> s = None | Some (ps, cs) \<Rightarrow> \<exists>s'. s = Some s' \<and> series_rep fs db sid ps cs s'"
    and "directory db' = directory db" and "max_series_count db' = max_series_count db"
    and "db_no_flush db' = db_no_flush db"
proof (cases "A sid")
  case None
  with get_or_load_spec(1) [OF P rep sid] rep show thesis by (intro that [of db None]) auto
next
  case (Some a)
  then obtain ps cs where a: "A sid = Some (ps, cs)" by (cases a) auto
  from get_or_load_spec(2) [OF P rep sid a] obtain s where s: "series_rep fs db sid ps cs s"
    "database_get_or_load_data_series P fs db sid = Inr (fs, db\<lparr>db_series := (db_series db)[sid := Some s]\<rparr>, Some s)"
    by blast
  from db_rep_loaded [OF rep sid a s(1)] s a show thesis by (intro that [OF s(2)]) auto
qed

text \<open>The timeline and the point size of a series id; nothing for an id without a series.\<close>

definition timeline_of :: "(nat \<rightharpoonup> nat \<times> point list) \<Rightarrow> nat \<Rightarrow> point list" where
  "timeline_of A sid = (case A sid of None \<Rightarrow> [] | Some (ps, cs) \<Rightarrow> cs)"

definition point_size_of :: "(nat \<rightharpoonup> nat \<times> point list) \<Rightarrow> nat \<Rightarrow> nat" where
  "point_size_of A sid = (case A sid of None \<Rightarrow> 0 | Some (ps, cs) \<Rightarrow> ps)"

lemma outside_None:
  assumes "db_rep fs db A" and "\<not> sid < max_series_count db"
  shows "A sid = None"
  using db_repD(4) [OF assms(1)] assms(2) by (auto simp: domIff)

lemma database_read_at:
  assumes P: "platform_ok P" and rep: "db_rep fs db A" and be: "b \<le> e"
  obtains db' where "database_read P fs db sid b e n
      = Inr (fs, db', full_reader (point_size_of A sid) (take n (window b e (timeline_of A sid))))"
    and "db_rep fs db' A" and "directory db' = directory db" and "max_series_count db' = max_series_count db"
    and "db_no_flush db' = db_no_flush db"
proof (cases "sid < max_series_count db")
  case False
  with outside_None [OF rep] rep show thesis
    by (intro that [of db])
      (simp_all add: database_read_def database_get_or_load_data_series_def timeline_of_def point_size_of_def window_def full_reader_def)
next
  case True
  from database_query [OF P rep True] obtain db' s where
    q: "database_get_or_load_data_series P fs db sid = Inr (fs, db', s)" "db_rep fs db' A"
    "case A sid of None \<Rightarrow> s = None | Some (ps, cs) \<Rightarrow> \<exists>s'. s = Some s' \<and> series_rep fs db sid ps cs s'"
    "directory db' = directory db" "max_series_count db' = max_series_count db" "db_no_flush db' = db_no_flush db"
    by blast
  show thesis
  proof (rule that [OF _ q(2,4,5,6)])
    show "database_read P fs db sid b e n
      = Inr (fs, db', full_reader (point_size_of A sid) (take n (window b e (timeline_of A sid))))"
    proof (cases "A sid")
      case None
      with q show ?thesis by (simp add: database_read_def timeline_of_def point_size_of_def window_def full_reader_def)
    next
      case (Some a)
      with q(3) obtain ps cs s' where s': "a = (ps, cs)" "s = Some s'" "series_rep fs db sid ps cs s'" by (cases a) auto
      then have "series_read fs s' b e n = Inr (full_reader ps (take n (window b e cs)))"
        using series_read_at [OF _ be] by (auto simp: series_rep_def series_ok_def)
      with q(1) s' Some show ?thesis by (simp add: database_read_def timeline_of_def point_size_of_def)
    qed
  qed
qed

lemma database_read_latest_at:
  assumes P: "platform_ok P" and rep: "db_rep fs db A"
  obtains db' where "database_read_latest P fs db sid
      = Inr (fs, db', full_reader (point_size_of A sid) (if timeline_of A sid = [] then [] else [last (timeline_of A sid)]))"
    and "db_rep fs db' A"
proof (cases "sid < max_series_count db")
  case False
  with outside_None [OF rep] rep show thesis
    by (intro that [of db])
      (simp_all add: database_read_latest_def database_get_or_load_data_series_def timeline_of_def point_size_of_def full_reader_def)
next
  case True
  from database_query [OF P rep True] obtain db' s where
    q: "database_get_or_load_data_series P fs db sid = Inr (fs, db', s)" "db_rep fs db' A"
    "case A sid of None \<Rightarrow> s = None | Some (ps, cs) \<Rightarrow> \<exists>s'. s = Some s' \<and> series_rep fs db sid ps cs s'"
    by blast
  show thesis
  proof (rule that [OF _ q(2)])
    show "database_read_latest P fs db sid = Inr (fs, db', full_reader (point_size_of A sid)
        (if timeline_of A sid = [] then [] else [last (timeline_of A sid)]))"
    proof (cases "A sid")
      case None
      with q show ?thesis by (simp add: database_read_latest_def timeline_of_def point_size_of_def full_reader_def)
    next
      case (Some a)
      with q(3) obtain ps cs s' where s': "a = (ps, cs)" "s = Some s'" "series_rep fs db sid ps cs s'" by (cases a) auto
      then have "series_read_latest fs s' = Inr (full_reader ps (if cs = [] then [] else [last cs]))"
        using series_read_latest_at by (auto simp: series_rep_def series_ok_def)
      with q(1) s' Some show ?thesis by (simp add: database_read_latest_def timeline_of_def point_size_of_def)
    qed
  qed
qed

lemma database_get_point_size_at:
  assumes P: "platform_ok P" and rep: "db_rep fs db A"
  obtains db' where "database_get_point_size P fs db sid = Inr (fs, db', point_size_of A sid)" and "db_rep fs db' A"
proof (cases "sid < max_series_count db")
  case False
  with outside_None [OF rep] rep show thesis
    by (intro that [of db]) (simp_all add: database_get_point_size_def database_get_or_load_data_series_def point_size_of_def)
next
  case True
  from database_query [OF P rep True] obtain db' s where
    q: "database_get_or_load_data_series P fs db sid = Inr (fs, db', s)" "db_rep fs db' A"
    "case A sid of None \<Rightarrow> s = None | Some (ps, cs) \<Rightarrow> \<exists>s'. s = Some s' \<and> series_rep fs db sid ps cs s'"
    by blast
  then show thesis
    by (intro that [OF _ q(2)])
      (auto simp: database_get_point_size_def point_size_of_def series_rep_def split: option.splits)
qed

text \<open>The points of a represented series.\<close>

lemma timeline_of_rep:
  assumes "db_rep fs db A"
  shows "strict (timeline_of A sid)" and "all_len (point_size_of A sid) (timeline_of A sid)"
    and "A sid \<noteq> None \<Longrightarrow> 8 \<le> point_size_of A sid \<and> point_size_of A sid < 2 ^ 31"
proof -
  have "strict (timeline_of A sid) \<and> all_len (point_size_of A sid) (timeline_of A sid) \<and>
      (A sid \<noteq> None \<longrightarrow> 8 \<le> point_size_of A sid \<and> point_size_of A sid < 2 ^ 31)"
  proof (cases "A sid")
    case None
    then show ?thesis by (simp add: timeline_of_def)
  next
    case (Some a)
    then obtain ps cs where a: "A sid = Some (ps, cs)" by (cases a) auto
    then have "sid < max_series_count db" using db_repD(4) [OF assms] by auto
    from db_repD(5) [OF assms this] a obtain s where s: "series_ok fs s cs" "point_size (points s) = ps" "ps < 2 ^ 31"
      by (auto simp: entry_rep_def series_rep_def)
    then obtain f r where at: "series_at fs s cs f r" by (auto simp: series_ok_def)
    from series_atD(8,13,14) [OF at] s a show ?thesis by (simp add: timeline_of_def point_size_of_def)
  qed
  then show "strict (timeline_of A sid)" "all_len (point_size_of A sid) (timeline_of A sid)"
    "A sid \<noteq> None \<Longrightarrow> 8 \<le> point_size_of A sid \<and> point_size_of A sid < 2 ^ 31" by auto
qed

lemma timeline_of_bytes:
  assumes "db_rep fs db A"
  shows "length (timeline_of A sid) * point_size_of A sid < 2 ^ 63"
proof (cases "A sid")
  case (Some a)
  then obtain ps cs where a: "A sid = Some (ps, cs)" by (cases a) auto
  then have "sid < max_series_count db" using db_repD(4) [OF assms] by auto
  from db_repD(5) [OF assms this] a obtain s where s: "series_ok fs s cs" "point_size (points s) = ps" "0 < points_capacity s"
    by (auto simp: entry_rep_def series_rep_def)
  then obtain f r where at: "series_at fs s cs f r" by (auto simp: series_ok_def)
  from plist_bound [OF plist_series [OF at s(3)] order.refl] s(2) a show ?thesis
    by (simp add: timeline_of_def point_size_of_def)
qed (simp add: timeline_of_def)

lemma reader_list_timeline:
  assumes "db_rep fs db A" and "set xs \<subseteq> set (timeline_of A sid)"
  shows "reader_list (full_reader (point_size_of A sid) xs) = xs"
proof (cases "A sid = None")
  case True
  with assms(2) have "xs = []" by (simp add: timeline_of_def)
  then show ?thesis by (simp add: reader_list_def full_reader_def empty_reader_def)
next
  case False
  with timeline_of_rep [OF assms(1), of sid] all_len_subset [OF assms(2)] show ?thesis
    by (intro reader_list_full) auto
qed

section \<open>A series of a database is a store\<close>

definition database_points ::
  "'a platform_scheme \<Rightarrow> nat \<Rightarrow> files \<times> database \<Rightarrow> timestamp \<Rightarrow> timestamp \<Rightarrow> nat \<Rightarrow> point list res" where
  "database_points P sid st b e n =
     bindR (database_read P (fst st) (snd st) sid b e n) (\<lambda>(fs, db, r). Inr (reader_list r))"

definition database_latest :: "'a platform_scheme \<Rightarrow> nat \<Rightarrow> files \<times> database \<Rightarrow> point list res" where
  "database_latest P sid st =
     bindR (database_read_latest P (fst st) (snd st) sid) (\<lambda>(fs, db, r). Inr (reader_list r))"

definition holds :: "'a platform_scheme \<Rightarrow> nat \<Rightarrow> files \<times> database \<Rightarrow> point list \<Rightarrow> bool" where
  "holds P sid st cs \<longleftrightarrow> platform_ok P \<and> (\<exists>A. db_rep (fst st) (snd st) A \<and> timeline_of A sid = cs)"

lemma database_read_backwards:
  assumes P: "platform_ok P" and rep: "db_rep fs db A" and "e < b"
  obtains db' where "database_read P fs db sid b e n = Inr (fs, db', empty_reader 0)" and "db_rep fs db' A"
proof (cases "sid < max_series_count db")
  case False
  with rep show thesis
    by (intro that [of db]) (simp_all add: database_read_def database_get_or_load_data_series_def)
next
  case True
  from database_query [OF P rep True] obtain db' s where
    q: "database_get_or_load_data_series P fs db sid = Inr (fs, db', s)" "db_rep fs db' A" by blast
  from assms(3) q show thesis
    by (intro that [OF _ q(2)]) (auto simp: database_read_def series_read_def split: option.splits)
qed

interpretation database_store: timeline_store "holds P sid" "database_points P sid" "database_latest P sid" for P sid
proof
  fix st :: "files \<times> database" and cs b e n
  assume "holds P sid st cs"
  then obtain A where P: "platform_ok P" and rep: "db_rep (fst st) (snd st) A" and cs: "cs = timeline_of A sid"
    by (auto simp: holds_def)
  show "strict cs" unfolding cs by (rule timeline_of_rep(1) [OF rep])
  have sub: "set (take n (window b e cs)) \<subseteq> set (timeline_of A sid)"
    unfolding cs by (auto simp: window_def dest: in_set_takeD)
  show "database_points P sid st b e n = Inr (take n (window b e cs))"
  proof (cases "b \<le> e")
    case True
    then obtain db' where "database_read P (fst st) (snd st) sid b e n
        = Inr (fst st, db', full_reader (point_size_of A sid) (take n (window b e cs)))"
      using database_read_at [OF P rep] unfolding cs by metis
    with reader_list_timeline [OF rep sub] show ?thesis by (simp add: database_points_def)
  next
    case False
    then have "e < b" by simp
    then obtain db' where "database_read P (fst st) (snd st) sid b e n = Inr (fst st, db', empty_reader 0)"
      using database_read_backwards [OF P rep] by metis
    with False window_empty [of e b cs] show ?thesis
      by (simp add: database_points_def reader_list_def empty_reader_def)
  qed
  have sub': "set (if cs = [] then [] else [last cs]) \<subseteq> set (timeline_of A sid)"
    unfolding cs by auto
  obtain db' where "database_read_latest P (fst st) (snd st) sid
      = Inr (fst st, db', full_reader (point_size_of A sid) (if cs = [] then [] else [last cs]))"
    using database_read_latest_at [OF P rep] unfolding cs by metis
  with reader_list_timeline [OF rep sub'] show "database_latest P sid st = Inr (if cs = [] then [] else [last cs])"
    by (simp add: database_latest_def)
qed

section \<open>Writing\<close>

lemma entries_only_changes:
  "only_changes q fs fs' \<Longrightarrow> n \<in> set (dir_entries dir fs') \<longleftrightarrow> n \<in> set (dir_entries dir fs)"
  by (simp add: only_changes_def dir_entries_def)

lemma entry_rep_unique:
  assumes "entry_rep fs db sid (Some (ps, cs))" and "n \<in> set (dir_entries (directory db) fs)"
    and "starts_with (dec_nat sid @ ''-'') n"
  shows "n = series_name sid ps"
  using assms by (auto simp: entry_rep_def)

text \<open>A bound on the sizes of all files, to be able to say how far a history of writes lets them grow.\<close>

definition files_within :: "nat \<Rightarrow> files \<Rightarrow> bool" where
  "files_within N fs \<longleftrightarrow> (\<forall>f\<in>ran (map_of fs). length (contents f) \<le> N)"

lemma files_withinD: "files_within N fs \<Longrightarrow> map_of fs m = Some f \<Longrightarrow> length (contents f) \<le> N"
  by (auto simp: files_within_def intro: ranI)

lemma files_within_change:
  assumes "files_within N fs" and "\<And>m. m \<noteq> p \<Longrightarrow> map_of fs' m = map_of fs m" and "map_of fs' p = Some f" and "length (contents f) \<le> M" and "N \<le> M"
  shows "files_within M fs'"
  unfolding files_within_def
proof
  fix g assume "g \<in> ran (map_of fs')"
  then obtain m where "map_of fs' m = Some g" by (auto simp: ran_def)
  with assms show "length (contents g) \<le> M"
    by (cases "m = p") (auto dest: files_withinD)
qed

lemma absent_file:
  assumes rep: "db_rep fs db A" and sid: "sid < max_series_count db" and none: "A sid = None"
  shows "map_of fs (series_path db sid ps) = None"
proof (rule ccontr)
  assume "map_of fs (series_path db sid ps) \<noteq> None"
  then have "series_name sid ps \<in> set (dir_entries (directory db) fs)"
    unfolding in_dir_entries_map_of using no_slash by (simp add: series_path_def)
  with db_repD(5) [OF rep sid] none show False by (auto simp: entry_rep_def starts_with_series_name)
qed

lemma new_entry:
  assumes rep: "db_rep fs db A" and sid: "sid < max_series_count db" and none: "A sid = None"
    and fresh: "\<And>m. m \<noteq> series_path db sid ps \<Longrightarrow> map_of fs' m = map_of fs m"
    and srep: "series_rep fs' db sid ps [] s"
  shows "entry_rep fs' (db\<lparr>db_series := (db_series db)[sid := Some s]\<rparr>) sid (Some (ps, []))"
proof (rule entry_rep_Some [where s = s])
  let ?db = "db\<lparr>db_series := (db_series db)[sid := Some s]\<rparr>"
  show "series_rep fs' ?db sid ps [] s" using srep by simp
  show "db_series ?db ! sid = None \<or> db_series ?db ! sid = Some s" using sid db_repD(1) [OF rep] by simp
  fix n assume n: "n \<in> set (dir_entries (directory ?db) fs')" "starts_with (dec_nat sid @ ''-'') n"
  show "n = series_name sid ps"
  proof (rule ccontr)
    assume "n \<noteq> series_name sid ps"
    then have "map_of fs' (directory db @ ''/'' @ n) = map_of fs (directory db @ ''/'' @ n)"
      by (intro fresh) (simp add: series_path_def)
    with n db_repD(5) [OF rep sid] none show False by (auto simp: in_dir_entries_map_of entry_rep_def)
  qed
qed

lemma get_or_create_new:
  assumes P: "platform_ok P" and rep: "db_rep fs db A" and sid: "sid < max_series_count db" and none: "A sid = None"
    and ps: "8 \<le> ps" "ps < 2 ^ 31" "ps \<le> file_grow_increment P" "file_grow_increment P < 2 ^ 63"
  obtains fs' s where
    "database_get_or_create_data_series P fs db sid ps
       = Inr (fs', db\<lparr>db_series := (db_series db)[sid := Some s]\<rparr>, Some s)"
    and "series_rep fs' db sid ps [] s" and "map_size (file_map s) \<le> file_grow_increment P"
    and "db_rep fs' (db\<lparr>db_series := (db_series db)[sid := Some s]\<rparr>) (A(sid \<mapsto> (ps, [])))"
    and "\<And>N. files_within N fs \<Longrightarrow> file_grow_increment P \<le> N \<Longrightarrow> files_within N fs'"
proof -
  note R = db_repD [OF rep]
  have small: "sid < 2 ^ 31" using sid R(2) by simp
  have absent: "map_of fs (series_path db sid ps) = None" by (rule absent_file [OF rep sid none])
  have len: "length (series_path db sid ps) < SDB_STR_MAX_LEN"
    using R(3) length_series_name [OF small ps(2)] by (simp add: series_path_def)
  have path: "snprintf SDB_STR_MAX_LEN (directory db @ ''/'' @ fmt_d sid @ ''-'' @ fmt_d ps) = series_path db sid ps"
    using len fmt_d_small [OF small] fmt_d_small [OF ps(2)] by (simp add: series_path_def series_name_def snprintf_id)
  have ps32: "ps < 2 ^ 32" using ps(2) by simp
  obtain fs' s f where c: "series_create P fs (series_path db sid ps) ps (db_no_flush db) = Inr (fs', Some s)"
    and at: "series_at fs' s [] f 0" and s: "file_name s = series_path db sid ps" "no_flush s = db_no_flush db"
      "point_size (points s) = ps" "points_capacity s = file_grow_increment P div ps"
    and ch: "only_changes (series_path db sid ps) (AList.update (series_path db sid ps) \<lparr>contents = [], durable = []\<rparr> fs) fs'"
    using series_create_new [OF P absent len ps(1) ps32 ps(4)] by metis
  let ?db = "db\<lparr>db_series := (db_series db)[sid := Some s]\<rparr>"
  have cap: "0 < points_capacity s" using s(4) ps by (simp add: div_greater_zero_iff)
  have srep: "series_rep fs' db sid ps [] s"
    using at s cap ps(2) by (auto simp: series_rep_def series_ok_def)
  have fresh: "map_of fs' m = map_of fs m" if "m \<noteq> series_path db sid ps" for m
    using ch that unfolding only_changes_def by (auto simp: update_conv')
  then have same: "others_same db sid fs fs'" unfolding others_same_def by blast
  have "entry_rep fs' ?db sid (Some (ps, []))" by (rule new_entry [OF rep sid none fresh srep])
  note rep' = db_rep_update [OF rep sid same this]
  have dir: "c_str SDB_STR_MAX_LEN (directory db) = Inr (directory db)" using R(3) by (simp add: c_str_def)
  have "database_get_or_create_data_series P fs db sid ps = Inr (fs', ?db, Some s)"
    using get_or_load_spec(1) [OF P rep sid none] sid dir path c
    by (simp add: database_get_or_create_data_series_def)
  moreover have small: "map_size (file_map s) \<le> file_grow_increment P"
    using length_contents_at [OF at] series_atD(5) [OF at] s(3,4) by simp
  moreover have "files_within N fs'" if "files_within N fs" "file_grow_increment P \<le> N" for N
  proof (rule files_within_change [OF that(1)])
    show "map_of fs' (series_path db sid ps) = Some f" using series_atD(1) [OF at] s(1) by simp
    show "length (contents f) \<le> N" using small series_atD(5) [OF at] that(2) by simp
  qed (simp_all add: fresh)
  ultimately show thesis by (rule that [OF _ srep _ rep'])
qed

lemma get_or_create_old:
  assumes P: "platform_ok P" and rep: "db_rep fs db A" and sid: "sid < max_series_count db" and a: "A sid = Some (ps, cs)"
  obtains s where
    "database_get_or_create_data_series P fs db sid ps'
       = Inr (fs, db\<lparr>db_series := (db_series db)[sid := Some s]\<rparr>, Some s)"
    and "series_rep fs db sid ps cs s"
    and "db_rep fs (db\<lparr>db_series := (db_series db)[sid := Some s]\<rparr>) A"
proof -
  from get_or_load_spec(2) [OF P rep sid a] obtain s where s: "series_rep fs db sid ps cs s"
    "database_get_or_load_data_series P fs db sid = Inr (fs, db\<lparr>db_series := (db_series db)[sid := Some s]\<rparr>, Some s)"
    by blast
  then have "database_get_or_create_data_series P fs db sid ps'
      = Inr (fs, db\<lparr>db_series := (db_series db)[sid := Some s]\<rparr>, Some s)"
    using sid by (simp add: database_get_or_create_data_series_def)
  from that [OF this s(1) db_rep_loaded [OF rep sid a s(1)]] show thesis .
qed

text \<open>Writing through the series that was opened.\<close>

lemma db_rep_written:
  assumes P: "platform_ok P" and rep: "db_rep fs (db\<lparr>db_series := (db_series db)[sid := Some s]\<rparr>) (A(sid \<mapsto> (ps, cs)))"
    and sid: "sid < max_series_count db" "length (db_series db) = max_series_count db" and srep: "series_rep fs db sid ps cs s"
    and W: "plist tm w pre bs post" and sz: "point_size w = ps" and ne: "prepared P bs \<noteq> []"
    and times: "\<forall>b\<in>set bs. point_time b < 0xFFFFFFFFFFFFFFFE"
    and bound: "map_size (file_map s) + growth P ps (length bs) < 2 ^ 63"
  obtains fs' s' w' tm' where "series_write P fs s w tm = Inr (0, fs', s', w', tm')"
    and "db_rep fs' (db\<lparr>db_series := (db_series db)[sid := Some s']\<rparr>) (A(sid \<mapsto> (ps, merge_pts (prepared P bs) cs)))"
    and "length tm' = length tm" and "\<And>N. files_within N fs \<Longrightarrow> files_within (N + growth P ps (length bs)) fs'"
proof -
  let ?db = "db\<lparr>db_series := (db_series db)[sid := Some s]\<rparr>" and ?m = "merge_pts (prepared P bs) cs"
  obtain f r where at: "series_at fs s cs f r" using srep by (auto simp: series_rep_def series_ok_def)
  note S = srep [unfolded series_rep_def] and Q = prepared_props [OF platform_ok_qsort [OF P], where bs = bs]
  have max: "\<forall>b\<in>set bs. point_time b \<noteq> SDB_TIMESTAMP_MAX" using times by (auto simp: SDB_TIMESTAMP_MAX_def)
  have bound': "length (contents f) + growth P (point_size (points s)) (length bs) < 2 ^ 63"
    using bound S series_atD(5) [OF at] by simp
  have sz': "point_size w = point_size (points s)" using sz S by simp
  obtain fs' s' w' tm' f' where run: "series_write P fs s w tm = Inr (0, fs', s', w', tm')"
    and at': "series_at fs' s' ?m f' r" and keep: "file_name s' = file_name s" "no_flush s' = no_flush s"
      "point_size (points s') = point_size (points s)"
    and ch: "only_changes (file_name s) fs fs'" and ltm: "length tm' = length tm"
    and len: "length (contents f') \<le> length (contents f) + growth P (point_size (points s)) (length bs)"
    using series_write_at [OF P at W sz' ne max bound'] by metis
  have m: "?m \<noteq> []" using ne times_merge_pts [of "prepared P bs" cs] by auto
  then have cap: "0 < points_capacity s'" using series_atD(12) [OF at'] by (cases ?m) auto
  have tms: "\<forall>c\<in>set ?m. point_time c < 0xFFFFFFFFFFFFFFFE"
    using set_merge_pts [of "prepared P bs" cs] Q(4) times S by blast
  have srep': "series_rep fs' db sid ps ?m s'"
    unfolding series_rep_def using S at' keep cap tms unfolding series_ok_def by auto
  have ch': "only_changes (series_path ?db sid ps) fs fs'" using ch S by simp
  have "entry_rep fs' (?db\<lparr>db_series := (db_series ?db)[sid := Some s']\<rparr>) sid (Some (ps, ?m))"
  proof (rule entry_rep_Some [where s = s'])
    fix n assume "n \<in> set (dir_entries (directory (?db\<lparr>db_series := (db_series ?db)[sid := Some s']\<rparr>)) fs')"
      and "starts_with (dec_nat sid @ ''-'') n"
    with entry_rep_unique [of fs ?db sid ps cs n] db_repD(5) [OF rep, of sid] sid(1) entries_only_changes [OF ch']
    show "n = series_name sid ps" by simp
  qed (use srep' sid in simp_all)
  from db_rep_update [OF rep _ others_sameI [OF ch'] this] sid(1)
  have "db_rep fs' (db\<lparr>db_series := (db_series db)[sid := Some s']\<rparr>) (A(sid \<mapsto> (ps, ?m)))" by simp
  moreover have "files_within (N + growth P ps (length bs)) fs'" if N: "files_within N fs" for N
  proof (rule files_within_change [OF N])
    show "length (contents f') \<le> N + growth P ps (length bs)"
      using files_withinD [OF N series_atD(1) [OF at]] len S by simp
  qed (use series_atD(1) [OF at'] keep(1) ch in \<open>auto simp: only_changes_def\<close>)
  ultimately show thesis by (rule that [OF run _ ltm])
qed

lemma database_write_frame:
  assumes "c_qsort (qsort P)" and W: "plist tm w pre bs post"
    and run: "database_write P fs db sid w tm = Inr (st, fs', db', w', tm')"
  obtains mid where "tm' = pre @ mid @ post" and "length mid = length (concat bs)"
proof -
  consider (none) "tm' = tm" | (some) fs1 s st' fs2 s2 w2 where "series_write P fs1 s w tm = Inr (st', fs2, s2, w2, tm')"
    using run by (auto simp: database_write_def split: option.splits elim!: bindR_InrE)
  then show thesis
  proof cases
    case none
    with plistD(1) [OF W] show thesis by (intro that) simp_all
  next
    case some
    from series_write_frame [OF assms(1) W this] that show thesis by blast
  qed
qed

lemma database_write_length:
  "database_write P fs db sid w tm = Inr (st, fs', db', w', tm') \<Longrightarrow> length tm' = length tm"
  by (auto simp: database_write_def split: option.splits elim!: bindR_InrE dest!: series_write_length)

text \<open>The size of a series' file, or what it is created with.\<close>

definition stored_size :: "'a platform_scheme \<Rightarrow> files \<Rightarrow> string \<Rightarrow> nat" where
  "stored_size P fs path = (case map_of fs path of None \<Rightarrow> file_grow_increment P | Some f \<Rightarrow> length (contents f))"

text \<open>
  What a batch needs to be stored: a series of its point size, or none yet and a point size that
  fits a new file; a point at a time other than 0; no point at the two largest timestamps; and
  room in the file.
\<close>

definition db_opens :: "'a platform_scheme \<Rightarrow> database \<Rightarrow> (nat \<rightharpoonup> nat \<times> point list) \<Rightarrow> nat \<Rightarrow> nat \<Rightarrow> bool" where
  "db_opens P db A sid ps \<longleftrightarrow>
     sid < max_series_count db \<and>
     (if A sid = None then 8 \<le> ps \<and> ps < 2 ^ 31 \<and> ps \<le> file_grow_increment P \<and> file_grow_increment P < 2 ^ 63
      else point_size_of A sid = ps)"

definition db_accepts ::
  "'a platform_scheme \<Rightarrow> files \<Rightarrow> database \<Rightarrow> (nat \<rightharpoonup> nat \<times> point list) \<Rightarrow> nat \<Rightarrow> nat \<Rightarrow> point list \<Rightarrow> bool" where
  "db_accepts P fs db A sid ps bs \<longleftrightarrow>
     db_opens P db A sid ps \<and>
     (\<exists>b\<in>set bs. point_time b \<noteq> 0) \<and> (\<forall>b\<in>set bs. point_time b < 0xFFFFFFFFFFFFFFFE) \<and>
     stored_size P fs (series_path db sid ps) + growth P ps (length bs) < 2 ^ 63"

text \<open>Opening the series of a batch: the file is there or is created.\<close>

lemma get_or_create_opens:
  assumes P: "platform_ok P" and rep: "db_rep fs db A" and op: "db_opens P db A sid ps"
  obtains fs1 s where "database_get_or_create_data_series P fs db sid ps
        = Inr (fs1, db\<lparr>db_series := (db_series db)[sid := Some s]\<rparr>, Some s)"
    and "series_rep fs1 db sid ps (timeline_of A sid) s"
    and "db_rep fs1 (db\<lparr>db_series := (db_series db)[sid := Some s]\<rparr>) (A(sid \<mapsto> (ps, timeline_of A sid)))"
    and "map_size (file_map s) \<le> stored_size P fs (series_path db sid ps)"
    and "\<And>N. files_within N fs \<Longrightarrow> file_grow_increment P \<le> N \<Longrightarrow> files_within N fs1"
proof -
  note op = op [unfolded db_opens_def]
  have sid: "sid < max_series_count db" using op by simp
  show thesis
  proof (cases "A sid")
    case None
    then obtain fs1 s where c: "database_get_or_create_data_series P fs db sid ps
        = Inr (fs1, db\<lparr>db_series := (db_series db)[sid := Some s]\<rparr>, Some s)"
      "series_rep fs1 db sid ps [] s" "map_size (file_map s) \<le> file_grow_increment P"
      "db_rep fs1 (db\<lparr>db_series := (db_series db)[sid := Some s]\<rparr>) (A(sid \<mapsto> (ps, [])))"
      "\<And>N. files_within N fs \<Longrightarrow> file_grow_increment P \<le> N \<Longrightarrow> files_within N fs1"
      using get_or_create_new [OF P rep sid None] op by metis
    with absent_file [OF rep sid None] have "map_size (file_map s) \<le> stored_size P fs (series_path db sid ps)"
      by (simp add: stored_size_def)
    with c None show thesis by (intro that [of fs1 s]) (simp_all add: timeline_of_def)
  next
    case (Some a)
    then have a: "A sid = Some (ps, timeline_of A sid)"
      using op by (cases a) (simp add: timeline_of_def point_size_of_def)
    obtain s where c: "database_get_or_create_data_series P fs db sid ps
       = Inr (fs, db\<lparr>db_series := (db_series db)[sid := Some s]\<rparr>, Some s)"
      "series_rep fs db sid ps (timeline_of A sid) s"
      "db_rep fs (db\<lparr>db_series := (db_series db)[sid := Some s]\<rparr>) A"
      using get_or_create_old [OF P rep sid a] by metis
    obtain f r where at: "series_at fs s (timeline_of A sid) f r"
      using c(2) by (auto simp: series_rep_def series_ok_def)
    have "map_of fs (series_path db sid ps) = Some f"
      using series_atD(1) [OF at] c(2) by (simp add: series_rep_def)
    with series_atD(5) [OF at] have "map_size (file_map s) \<le> stored_size P fs (series_path db sid ps)"
      by (simp add: stored_size_def)
    with c a show thesis by (intro that [of fs s]) (simp_all add: fun_upd_idem)
  qed
qed

lemma database_write_at:
  assumes P: "platform_ok P" and rep: "db_rep fs db A" and W: "plist tm w pre bs post"
    and acc: "db_accepts P fs db A sid (point_size w) bs"
  obtains fs' db' w' tm' where "database_write P fs db sid w tm = Inr (0, fs', db', w', tm')"
    and "db_rep fs' db' (A(sid \<mapsto> (point_size w, merge_pts (prepared P bs) (timeline_of A sid))))"
    and "length tm' = length tm" and "directory db' = directory db" and "max_series_count db' = max_series_count db"
    and "\<And>N. files_within N fs \<Longrightarrow> file_grow_increment P \<le> N \<Longrightarrow>
           files_within (N + growth P (point_size w) (length bs)) fs'"
proof -
  note R = db_repD [OF rep] and ac = acc [unfolded db_accepts_def]
  have sid: "sid < max_series_count db" using ac by (simp add: db_opens_def)
  have ne: "prepared P bs \<noteq> []" using ac prepared_props(6) [OF platform_ok_qsort [OF P], of bs] by blast
  obtain fs1 s where open_: "database_get_or_create_data_series P fs db sid (point_size w)
        = Inr (fs1, db\<lparr>db_series := (db_series db)[sid := Some s]\<rparr>, Some s)"
    and srep: "series_rep fs1 db sid (point_size w) (timeline_of A sid) s"
    and rep1: "db_rep fs1 (db\<lparr>db_series := (db_series db)[sid := Some s]\<rparr>) (A(sid \<mapsto> (point_size w, timeline_of A sid)))"
    and size: "map_size (file_map s) \<le> stored_size P fs (series_path db sid (point_size w))"
    and fit: "\<And>N. files_within N fs \<Longrightarrow> file_grow_increment P \<le> N \<Longrightarrow> files_within N fs1"
    using get_or_create_opens [OF P rep conjunct1 [OF ac]] by metis
  have bound: "map_size (file_map s) + growth P (point_size w) (length bs) < 2 ^ 63" using ac size by simp
  have times: "\<forall>b\<in>set bs. point_time b < 0xFFFFFFFFFFFFFFFE" using ac by blast
  obtain fs' s' w' tm' where "series_write P fs1 s w tm = Inr (0, fs', s', w', tm')"
    "db_rep fs' (db\<lparr>db_series := (db_series db)[sid := Some s']\<rparr>)
       (A(sid \<mapsto> (point_size w, merge_pts (prepared P bs) (timeline_of A sid))))" "length tm' = length tm"
    and fit': "\<And>N. files_within N fs1 \<Longrightarrow> files_within (N + growth P (point_size w) (length bs)) fs'"
    using db_rep_written [OF P rep1 sid R(1) srep W refl ne times bound] by metis
  with open_ fit show thesis
    by (intro that [of fs' "db\<lparr>db_series := (db_series db)[sid := Some s']\<rparr>" w' tm']) (simp_all add: database_write_def)
qed

text \<open>The writes that are refused, and what they leave behind.\<close>

lemma database_write_refused:
  assumes P: "platform_ok P" and rep: "db_rep fs db A"
    and "max_series_count db \<le> sid \<or> A sid \<noteq> None \<and> point_size_of A sid \<noteq> point_size w"
  obtains db' where "database_write P fs db sid w tm = Inr (- 1, fs, db', w, tm)" and "db_rep fs db' A"
proof (cases "sid < max_series_count db")
  case False
  with rep show thesis by (intro that) (simp_all add: database_write_def database_get_or_create_data_series_def)
next
  case True
  with assms(3) obtain ps cs where a: "A sid = Some (ps, cs)" and ps: "ps \<noteq> point_size w"
    by (auto simp: point_size_of_def)
  obtain s where s: "database_get_or_create_data_series P fs db sid (point_size w)
       = Inr (fs, db\<lparr>db_series := (db_series db)[sid := Some s]\<rparr>, Some s)"
    "series_rep fs db sid ps cs s" "db_rep fs (db\<lparr>db_series := (db_series db)[sid := Some s]\<rparr>) A"
    using get_or_create_old [OF P rep True a] by metis
  with ps show thesis by (intro that) (auto simp: database_write_def series_write_def series_rep_def)
qed

lemma database_write_zero:
  assumes P: "platform_ok P" and rep: "db_rep fs db A" and W: "plist tm w pre bs post"
    and op: "db_opens P db A sid (point_size w)" and zero: "\<forall>b\<in>set bs. point_time b = 0"
  obtains fs' db' w' tm' where "database_write P fs db sid w tm = Inr (- 1, fs', db', w', tm')"
    and "db_rep fs' db' (A(sid \<mapsto> (point_size w, timeline_of A sid)))"
    and "\<And>N. files_within N fs \<Longrightarrow> file_grow_increment P \<le> N \<Longrightarrow> files_within N fs'"
proof -
  obtain fs1 s where o: "database_get_or_create_data_series P fs db sid (point_size w)
        = Inr (fs1, db\<lparr>db_series := (db_series db)[sid := Some s]\<rparr>, Some s)"
    "series_rep fs1 db sid (point_size w) (timeline_of A sid) s"
    "db_rep fs1 (db\<lparr>db_series := (db_series db)[sid := Some s]\<rparr>) (A(sid \<mapsto> (point_size w, timeline_of A sid)))"
    "\<And>N. files_within N fs \<Longrightarrow> file_grow_increment P \<le> N \<Longrightarrow> files_within N fs1"
    using get_or_create_opens [OF P rep op] by metis
  have "point_size w = point_size (points s)" using o(2) by (simp add: series_rep_def)
  then obtain tm' where "series_write P fs1 s w tm = Inr (- 1, fs1, s, w\<lparr>count_pl := 0\<rparr>, tm')"
    using series_write_zero [OF platform_ok_qsort [OF P] W _ zero] by metis
  with o show thesis
    by (intro that [of fs1 "db\<lparr>db_series := (db_series db)[sid := Some s]\<rparr>" "w\<lparr>count_pl := 0\<rparr>" tm'])
      (simp_all add: database_write_def)
qed

section \<open>Truncating\<close>

lemma database_truncate_at:
  assumes P: "platform_ok P" and rep: "db_rep fs db A"
  obtains fs' db' where "database_truncate P fs db sid = Inr (0, fs', db')" and "db_rep fs' db' (A(sid := None))"
    and "directory db' = directory db" and "max_series_count db' = max_series_count db"
    and "\<And>N. files_within N fs \<Longrightarrow> files_within N fs'"
proof (cases "A sid")
  case None
  have "database_get_or_load_data_series P fs db sid = Inr (fs, db, None)"
    using get_or_load_spec(1) [OF P rep _ None] by (cases "sid < max_series_count db")
      (simp_all add: database_get_or_load_data_series_def)
  with rep None show thesis by (intro that [of fs db]) (simp_all add: database_truncate_def fun_upd_idem)
next
  case (Some a)
  then obtain ps cs where a: "A sid = Some (ps, cs)" by (cases a) auto
  note R = db_repD [OF rep]
  have sid: "sid < max_series_count db" using a R(4) by auto
  from get_or_load_spec(2) [OF P rep sid a] obtain s where s: "series_rep fs db sid ps cs s"
    "database_get_or_load_data_series P fs db sid = Inr (fs, db\<lparr>db_series := (db_series db)[sid := Some s]\<rparr>, Some s)"
    by blast
  define fs' where "fs' = AList.delete (series_path db sid ps) fs"
  have len: "length (file_name s) < SDB_STR_MAX_LEN"
    using s(1) by (auto simp: series_rep_def series_ok_def series_at_def)
  have run: "database_truncate P fs db sid = Inr (0, fs', db\<lparr>db_series := (db_series db)[sid := None]\<rparr>)"
    using s len by (simp add: database_truncate_def series_truncate_and_destroy_def c_str_def file_unlink_def
        series_rep_def fs'_def)
  have same: "others_same db sid fs fs'" by (auto simp: others_same_def fs'_def delete_conv')
  have "entry_rep fs' (db\<lparr>db_series := (db_series db)[sid := None]\<rparr>) sid None"
  proof -
    have "\<not> starts_with (dec_nat sid @ ''-'') n" if "n \<in> set (dir_entries (directory db) fs')" for n
    proof
      assume "starts_with (dec_nat sid @ ''-'') n"
      moreover have "n \<in> set (dir_entries (directory db) fs)"
        using that by (auto simp: in_dir_entries_map_of fs'_def delete_conv' split: if_splits)
      ultimately have "n = series_name sid ps" using entry_rep_unique R(5) [OF sid] a by metis
      with that show False by (simp add: in_dir_entries_map_of fs'_def delete_conv' series_path_def)
    qed
    then show ?thesis using sid R(1) by (simp add: entry_rep_def)
  qed
  moreover have "files_within N fs'" if "files_within N fs" for N
    using that by (auto simp: files_within_def fs'_def delete_conv' ran_def split: if_splits)
  ultimately show thesis using db_rep_update [OF rep sid same] run
    by (intro that [of fs' "db\<lparr>db_series := (db_series db)[sid := None]\<rparr>"]) simp_all
qed

lemma db_rep_restart:
  assumes "db_rep fs db A"
  shows "db_rep fs (database_create (directory db) (max_series_count db) (db_no_flush db)) A"
proof -
  let ?db = "database_create (directory db) (max_series_count db) (db_no_flush db)"
  note R = db_repD [OF assms]
  have dir: "directory ?db = directory db" using R(3) by (simp add: database_create_def strncpy_def)
  have sel: "db_series ?db = replicate (max_series_count db) None" "max_series_count ?db = max_series_count db"
    "db_no_flush ?db = db_no_flush db"
    by (simp_all add: database_create_def)
  have "series_rep fs ?db sid ps cs s = series_rep fs db sid ps cs s" for sid ps cs s
    using dir sel by (simp add: series_rep_def series_path_def)
  then have "entry_rep fs ?db sid (A sid)" if "sid < max_series_count db" for sid
    using R(5) [OF that] that dir sel by (auto simp: entry_rep_def split: option.splits)
  with R dir sel show ?thesis by (auto simp: db_rep_def)
qed

section \<open>Properties\<close>

text \<open>The database of the witnesses: a directory with the sample series, not opened yet.\<close>

definition sample_db :: database where
  "sample_db = database_create ''d'' 8 False"

definition sample_map :: "nat \<rightharpoonup> nat \<times> point list" where
  "sample_map = [7 \<mapsto> (16, [sample 10 1, sample 20 2])]"

lemma dec_sample: "dec_nat 7 = ''7''" "dec_nat 16 = ''16''"
  by code_simp+

lemma sample_path: "''7-16'' = series_name 7 16" "''d/7-16'' = series_path sample_db 7 16"
  by (simp_all add: series_path_def series_name_def dec_sample sample_db_def database_create_def strncpy_def SDB_STR_MAX_LEN_def)

lemma sample_db_simps:
  "directory sample_db = ''d''" "db_series sample_db = replicate 8 None" "max_series_count sample_db = 8"
  "db_no_flush sample_db = False"
  by (simp_all add: sample_db_def database_create_def strncpy_def SDB_STR_MAX_LEN_def)

lemma sample_entries: "dir_entries ''d'' sample_files = [series_name 7 16]"
  by (simp add: dir_entries_def sample_files_def starts_with_def series_name_def dec_sample)

lemma sample_rep:
  assumes "7 < n" and "n \<le> 2 ^ 31"
  shows "db_rep sample_files (database_create ''d'' n False) sample_map"
proof -
  let ?db = "database_create ''d'' n False"
  have db: "directory ?db = ''d''" "db_series ?db = replicate n None" "max_series_count ?db = n" "db_no_flush ?db = False"
    by (simp_all add: database_create_def strncpy_def SDB_STR_MAX_LEN_def)
  have path: "series_path ?db 7 16 = ''d/7-16''"
    unfolding sample_path(2) by (simp add: series_path_def db sample_db_simps)
  have "series_rep sample_files ?db 7 16 [sample 10 1, sample 20 2] sample_series"
    using sample_series_ok unfolding series_rep_def path by (simp add: sample_series_def sample_list_def db)
  then have "entry_rep sample_files ?db sid (sample_map sid)" if "sid < n" for sid
    using that by (cases "sid = 7")
      (auto simp: entry_rep_def sample_map_def db sample_entries starts_with_series_name)
  then show ?thesis
    using assms by (auto simp: db_rep_def db SDB_STR_MAX_LEN_def sample_map_def split: if_splits)
qed

lemma sample_db_rep: "db_rep sample_files sample_db sample_map"
  unfolding sample_db_def by (rule sample_rep) simp_all

text \<open>
  C9: \<^verbatim>\<open>database_write\<close> of an acceptable batch returns 0, creates the series if it does not exist,
  and merges the batch into that series: the points of the batch are there, the batch's last
  point winning, the earlier points of the series are kept otherwise, and every other series is
  as before.
\<close>

theorem database_write_stores:
  assumes "platform_ok P" and "db_rep fs db A" and "plist tm w pre bs post"
    and "db_accepts P fs db A sid (point_size w) bs"
  shows "\<exists>fs' db' w' tm' cs'. database_write P fs db sid w tm = Inr (0, fs', db', w', tm') \<and>
           db_rep fs' db' (A(sid \<mapsto> (point_size w, cs'))) \<and> strict cs' \<and>
           pmap cs' = pmap (timeline_of A sid) ++ last_wins (qsort P point_cmp bs)"
proof -
  obtain fs' db' w' tm' where w: "database_write P fs db sid w tm = Inr (0, fs', db', w', tm')"
    "db_rep fs' db' (A(sid \<mapsto> (point_size w, merge_pts (prepared P bs) (timeline_of A sid))))"
    using database_write_at [OF assms] by metis
  note Q = prepared_props [OF platform_ok_qsort [OF assms(1)], where bs = bs]
    and S = timeline_of_rep(1) [OF assms(2), of sid]
  from w strict_merge_pts [OF Q(1) S] pmap_merge_pts [OF Q(1) S] Q(5) show ?thesis
    by metis
qed

theorem database_write_stores_witness:
  "\<exists>fs' db' w' tm' cs'. database_write (posix 64) sample_files sample_db 3 (sample_list 2)
      (concat [sample 15 7, sample 10 8]) = Inr (0, fs', db', w', tm') \<and>
     db_rep fs' db' (sample_map(3 \<mapsto> (point_size (sample_list 2), cs'))) \<and> strict cs' \<and>
     pmap cs' = pmap (timeline_of sample_map 3) ++ last_wins (qsort (posix 64) point_cmp [sample 15 7, sample 10 8])"
proof (rule database_write_stores [OF platform_ok_posix sample_db_rep, where pre = "[]" and post = "[]"])
  show "plist (concat [sample 15 7, sample 10 8]) (sample_list 2) [] [sample 15 7, sample 10 8] []"
    by (simp add: plist_def sample_list_def)
  have "''d/7-16'' \<noteq> series_path sample_db 3 16" unfolding sample_path(2) by simp
  then have "stored_size (posix 64) sample_files (series_path sample_db 3 16) = 64"
    by (simp add: stored_size_def sample_files_def posix_def)
  then show "db_accepts (posix 64) sample_files sample_db sample_map 3 (point_size (sample_list 2)) [sample 15 7, sample 10 8]"
    by (simp add: db_accepts_def db_opens_def sample_db_simps sample_map_def sample_list_def growth_def) (simp add: posix_def)
qed

text \<open>
  \<^verbatim>\<open>database_write\<close> refuses, with -1 and the database as it was, an id beyond the table and a
  batch whose point size is not the series'.
\<close>

lemma database_write_refuses:
  assumes "platform_ok P" and "db_rep fs db A"
    and "max_series_count db \<le> sid \<or> A sid \<noteq> None \<and> point_size_of A sid \<noteq> point_size w"
  shows "\<exists>db'. database_write P fs db sid w tm = Inr (- 1, fs, db', w, tm) \<and> db_rep fs db' A"
  using database_write_refused [OF assms] by metis

lemma database_write_refuses_example:
  "\<exists>db'. database_write (posix 64) sample_files sample_db 9 (sample_list 1) (sample 5 5)
     = Inr (- 1, sample_files, db', sample_list 1, sample 5 5) \<and> db_rep sample_files db' sample_map"
  by (rule database_write_refuses [OF platform_ok_posix sample_db_rep]) (simp add: sample_db_simps)

text \<open>
  C10: reading a series of the database, open or not, returns its points inside the interval up
  to the limit, and reading the latest point the last one; an unknown series has no points.
\<close>

theorem database_read_window:
  assumes "platform_ok P" and "db_rep fs db A"
  shows "database_points P sid (fs, db) b e n = Inr (take n (window b e (timeline_of A sid))) \<and>
         database_latest P sid (fs, db)
           = Inr (if timeline_of A sid = [] then [] else [last (timeline_of A sid)])"
proof -
  have "holds P sid (fs, db) (timeline_of A sid)" using assms by (auto simp: holds_def)
  from database_store.rd_window [OF this] database_store.rd_last [OF this] show ?thesis by simp
qed

theorem database_read_window_witness:
  "database_points (posix 64) 7 (sample_files, sample_db) 0 20 9 = Inr (take 9 (window 0 20 (timeline_of sample_map 7))) \<and>
   database_latest (posix 64) 7 (sample_files, sample_db)
     = Inr (if timeline_of sample_map 7 = [] then [] else [last (timeline_of sample_map 7)])"
  by (rule database_read_window [OF platform_ok_posix sample_db_rep])

text \<open>
  C16: \<^verbatim>\<open>database_truncate\<close> always returns 0 and leaves the database without the series: its file
  and its table entry are gone, and nothing else is.
\<close>

theorem database_truncate_removes:
  assumes "platform_ok P" and "db_rep fs db A"
  shows "\<exists>fs' db'. database_truncate P fs db sid = Inr (0, fs', db') \<and> db_rep fs' db' (A(sid := None))"
  using database_truncate_at [OF assms] by metis

theorem database_truncate_removes_witness:
  "\<exists>fs' db'. database_truncate (posix 64) sample_files sample_db 7 = Inr (0, fs', db') \<and>
     db_rep fs' db' (sample_map(7 := None))"
  by (rule database_truncate_removes [OF platform_ok_posix sample_db_rep])

text \<open>
  C15: a restart loses nothing: a database created anew on the directory of another one, with the
  same table size and flag, represents the same series and points.
\<close>

theorem database_restart:
  assumes "db_rep fs db A"
  shows "db_rep fs (database_create (directory db) (max_series_count db) (db_no_flush db)) A"
  using assms by (rule db_rep_restart)

theorem database_restart_witness:
  "db_rep sample_files (database_create (directory sample_db) (max_series_count sample_db) (db_no_flush sample_db)) sample_map"
  by (rule database_restart [OF sample_db_rep])

text \<open>
  The point size in a file name survives being printed with \<^verbatim>\<open>%d\<close> and read back with
  \<^verbatim>\<open>strtol\<close>, for every 32-bit value, those printed as negative numbers included.
\<close>

lemma point_size_name_round_trip:
  assumes "n < 2 ^ 32"
  shows "nat (strtol (fmt_d n) mod 2 ^ 32) = n"
proof (cases "n < 2 ^ 31")
  case True
  with fmt_d_small [OF True] strtol_dec_nat [of n] show ?thesis by simp
next
  case False
  let ?k = "2 ^ 32 - n"
  have k: "0 < ?k" "?k \<le> 2 ^ 31" using assms False by auto
  have fmt: "fmt_d n = CHR ''-'' # dec_nat ?k"
    using assms False by (simp add: fmt_d_def dec_int_def)
  have "read_magnitude (dec_nat ?k) = ?k"
    using read_magnitude_decimal [of "dec_nat ?k"] hd_dec_nat [OF k(1)] read_digits_dec_nat [of ?k] by auto
  then have "strtol (fmt_d n) = - int ?k"
    using k unfolding fmt by (simp add: strtol_def is_space_def)
  moreover have "(- int ?k) mod 2 ^ 32 = int n"
  proof -
    have "- int ?k = int n + (- 1) * 2 ^ 32" using assms by (simp add: of_nat_diff)
    then have "(- int ?k) mod 2 ^ 32 = int n mod 2 ^ 32" by (simp only: mod_mult_self1)
    with assms show ?thesis by simp
  qed
  ultimately show ?thesis by simp
qed

lemma point_size_name_round_trip_example: "nat (strtol (fmt_d 16) mod 2 ^ 32) = 16"
  by (rule point_size_name_round_trip) simp



end
