(* ===== verification/Protocol.thy ===== *)
theory Protocol
  imports DataPoint Common
begin

text \<open>
  \<^verbatim>\<open>src/network/protocol.h\<close> and \<^verbatim>\<open>protocol.c\<close>: the packets client and server exchange, as the bytes
  of the packed structs, and the validation of a payload that was received.  All integers are
  little-endian and unaligned.
\<close>

section \<open>Constants and fields\<close>

definition SDB_RESPONSE_OK :: nat where "SDB_RESPONSE_OK = 0"
definition SDB_RESPONSE_ERROR :: nat where "SDB_RESPONSE_ERROR = 1"

definition SDB_WRITE_REQUEST :: nat where "SDB_WRITE_REQUEST = 1"
definition SDB_SIMPLE_RESPONSE :: nat where "SDB_SIMPLE_RESPONSE = 2"
definition SDB_READ_REQUEST :: nat where "SDB_READ_REQUEST = 3"
definition SDB_READ_RESPONSE :: nat where "SDB_READ_RESPONSE = 4"
definition SDB_TRUNCATE_REQUEST :: nat where "SDB_TRUNCATE_REQUEST = 5"
definition SDB_READ_LATEST_REQUEST :: nat where "SDB_READ_LATEST_REQUEST = 6"

definition SDB_SERVER_MAGIC :: nat where "SDB_SERVER_MAGIC = 0x4B414D41"

lemmas packet_types = SDB_WRITE_REQUEST_def SDB_SIMPLE_RESPONSE_def SDB_READ_REQUEST_def
  SDB_READ_RESPONSE_def SDB_TRUNCATE_REQUEST_def SDB_READ_LATEST_REQUEST_def

text \<open>The sizes of the packed structs, without their flexible array members.\<close>

definition sizeof_packet :: nat where "sizeof_packet = 4 + 4"
definition sizeof_write_request :: nat where "sizeof_write_request = 1 + 4 + 8 + 4"
definition sizeof_read_request :: nat where "sizeof_read_request = 1 + 4 + 8 + 8"
definition sizeof_read_latest_request :: nat where "sizeof_read_latest_request = 1 + 4"
definition sizeof_read_response :: nat where "sizeof_read_response = 1 + 8 + 4"
definition sizeof_truncate_request :: nat where "sizeof_truncate_request = 1 + 4"
definition sizeof_simple_response :: nat where "sizeof_simple_response = 1 + 1"

lemmas struct_sizes = sizeof_packet_def sizeof_write_request_def sizeof_read_request_def
  sizeof_read_latest_request_def sizeof_read_response_def sizeof_truncate_request_def
  sizeof_simple_response_def

text \<open>\<open>field m p off n\<close> reads the \<open>n\<close>-byte member at offset \<open>off\<close> of the struct at \<open>p\<close>.\<close>

definition field :: "bytes \<Rightarrow> ptr \<Rightarrow> nat \<Rightarrow> nat \<Rightarrow> nat res" where
  "field m p off n = bindR (load m (ptr_add p (int off)) n) (\<lambda>bs. Inr (le_dec bs))"

section \<open>The structs\<close>

record packet =
  magic :: nat
  total_size :: nat

record write_request =
  wr_series_id :: nat
  wr_points_count :: nat
  wr_point_size :: nat
  wr_points :: ptr

record read_request =
  rr_series_id :: nat
  rr_begin :: timestamp
  rr_end :: timestamp

record read_response =
  rp_points_count :: nat
  rp_point_size :: nat
  rp_points :: ptr

text \<open>Overlaying a struct on memory: the members are read where the struct says they are.\<close>

definition payload_type :: "bytes \<Rightarrow> ptr \<Rightarrow> nat res" where
  "payload_type m p = field m p 0 1"

definition packet_at :: "bytes \<Rightarrow> ptr \<Rightarrow> packet res" where
  "packet_at m p =
     bindR (field m p 0 4) (\<lambda>mg. bindR (field m p 4 4) (\<lambda>ts. Inr \<lparr>magic = mg, total_size = ts\<rparr>))"

definition write_request_at :: "bytes \<Rightarrow> ptr \<Rightarrow> write_request res" where
  "write_request_at m p =
     bindR (field m p 1 4) (\<lambda>sid. bindR (field m p 5 8) (\<lambda>n. bindR (field m p 13 4) (\<lambda>ps.
       Inr \<lparr>wr_series_id = sid, wr_points_count = n, wr_point_size = ps, wr_points = ptr_add p 17\<rparr>)))"

definition read_request_at :: "bytes \<Rightarrow> ptr \<Rightarrow> read_request res" where
  "read_request_at m p =
     bindR (field m p 1 4) (\<lambda>sid. bindR (field m p 5 8) (\<lambda>b. bindR (field m p 13 8) (\<lambda>e.
       Inr \<lparr>rr_series_id = sid, rr_begin = word_of_nat b, rr_end = word_of_nat e\<rparr>)))"

text \<open>Truncate and read-latest requests hold a series id and nothing else.\<close>

definition series_id_at :: "bytes \<Rightarrow> ptr \<Rightarrow> nat res" where
  "series_id_at m p = field m p 1 4"

definition simple_response_code_at :: "bytes \<Rightarrow> ptr \<Rightarrow> nat res" where
  "simple_response_code_at m p = field m p 1 1"

definition read_response_at :: "bytes \<Rightarrow> ptr \<Rightarrow> read_response res" where
  "read_response_at m p =
     bindR (field m p 1 8) (\<lambda>n. bindR (field m p 9 4) (\<lambda>ps.
       Inr \<lparr>rp_points_count = n, rp_point_size = ps, rp_points = ptr_add p 13\<rparr>))"

section \<open>Making packets\<close>

text \<open>
  A packet with points: the block is allocated for header and points, the header is filled in,
  and the points are copied behind it.  The size is a \<^verbatim>\<open>size_t\<close> and wraps.
\<close>

definition with_points :: "bytes \<Rightarrow> points_list \<Rightarrow> bytes \<Rightarrow> bytes res" where
  "with_points header list m =
     (let points_size = u64 (count_pl list * point_size list);
          block = sdb_alloc (u64 (length header + points_size))
      in bindR (store block (Ptr 0) header) (\<lambda>block1.
           copy_between block1 (Ptr (int (length header))) m (content list) points_size))"

definition write_request_create :: "nat \<Rightarrow> points_list \<Rightarrow> bytes \<Rightarrow> bytes res" where
  "write_request_create data_series_id list m =
     with_points (le_enc 1 SDB_WRITE_REQUEST @ le_enc 4 data_series_id @ le_enc 8 (count_pl list) @
                  le_enc 4 (point_size list)) list m"

definition simple_response_create :: "nat \<Rightarrow> bytes" where
  "simple_response_create code = le_enc 1 SDB_SIMPLE_RESPONSE @ le_enc 1 code"

definition read_request_create :: "nat \<Rightarrow> timestamp \<Rightarrow> timestamp \<Rightarrow> bytes" where
  "read_request_create data_series_id b e =
     le_enc 1 SDB_READ_REQUEST @ le_enc 4 data_series_id @ le_enc 8 (unat b) @ le_enc 8 (unat e)"

definition read_latest_request_create :: "nat \<Rightarrow> bytes" where
  "read_latest_request_create data_series_id = le_enc 1 SDB_READ_LATEST_REQUEST @ le_enc 4 data_series_id"

definition read_response_create :: "points_list \<Rightarrow> bytes \<Rightarrow> bytes res" where
  "read_response_create list m =
     with_points (le_enc 1 SDB_READ_RESPONSE @ le_enc 8 (count_pl list) @ le_enc 4 (point_size list)) list m"

definition truncate_request_create :: "nat \<Rightarrow> bytes" where
  "truncate_request_create data_series_id = le_enc 1 SDB_TRUNCATE_REQUEST @ le_enc 4 data_series_id"

section \<open>Validation\<close>

definition payload_validate :: "bytes \<Rightarrow> ptr \<Rightarrow> nat \<Rightarrow> bool res" where
  "payload_validate m data sz =
     bindR (payload_type m data) (\<lambda>ty.
       if ty = SDB_WRITE_REQUEST then
         if sz \<ge> sizeof_write_request then
           bindR (write_request_at m data) (\<lambda>r.
             Inr (sz = u64 (sizeof_write_request + u64 (wr_point_size r * wr_points_count r))))
         else Inr False
       else if ty = SDB_READ_REQUEST then Inr (sz = sizeof_read_request)
       else if ty = SDB_READ_RESPONSE then
         if sz \<ge> sizeof_read_response then
           bindR (read_response_at m data) (\<lambda>r.
             Inr (sz = u64 (sizeof_read_response + u64 (rp_point_size r * rp_points_count r))))
         else Inr False
       else if ty = SDB_SIMPLE_RESPONSE then Inr (sz = sizeof_simple_response)
       else if ty = SDB_TRUNCATE_REQUEST then Inr (sz = sizeof_truncate_request)
       else if ty = SDB_READ_LATEST_REQUEST then Inr (sz = sizeof_read_latest_request)
       else Inr False)"

section \<open>Reading fields of encoded structs\<close>

text \<open>A field at a known place of an object: skip what comes before it, then decode.\<close>

lemma field_skip:
  "length xs \<le> off \<Longrightarrow> field (xs @ m) (Ptr 0) off n = field m (Ptr 0) (off - length xs) n"
  by (auto simp: field_def load_def nat_int_diff)

lemma field_here: "length bs = n \<Longrightarrow> field (bs @ m) (Ptr 0) 0 n = Inr (le_dec bs)"
  by (auto simp: field_def load_def)

lemma field_here_end: "length bs = n \<Longrightarrow> field bs (Ptr 0) 0 n = Inr (le_dec bs)"
  using field_here [of bs n "[]"] by simp

lemma field_shift: "field (pre @ m) (Ptr (int (length pre))) off n = field m (Ptr 0) off n"
  by (auto simp: field_def load_def nat_add_distrib)

lemmas field_simps = field_skip field_here field_here_end

lemma payload_type_create [simp]:
  "payload_type (le_enc 1 ty @ rest) (Ptr 0) = Inr (ty mod 256)"
  using field_here [OF length_le_enc, of 1 ty rest] le_dec_enc [of 1 ty] by (simp add: payload_type_def)

lemma with_points_ok:
  assumes pl: "plist m list pre cs post" and len: "length header + length cs * point_size list < 2 ^ 64"
  shows "with_points header list m = Inr (header @ concat cs)"
proof -
  let ?n = "length cs * point_size list"
  note D = plistD [OF pl]
  have u: "u64 (count_pl list * point_size list) = ?n" "u64 (length header + ?n) = length header + ?n"
    using len D(4) by (simp_all add: u64_id)
  have ld: "load m (content list) ?n = Inr (concat cs)"
    using load_records [OF D(7), of 0 "length cs" pre post] D(1,3) by simp
  have s1: "store (sdb_alloc (length header + ?n)) (Ptr 0) header = Inr (header @ replicate ?n 0)"
    by (auto simp: store_def sdb_alloc_def)
  have "store (header @ replicate ?n 0) (Ptr (int (length header))) bs = Inr (header @ bs)" if "length bs = ?n" for bs
    using that by (auto simp: store_def)
  then have "store (header @ replicate ?n 0) (Ptr (int (length header))) (concat cs) = Inr (header @ concat cs)"
    using D(7) by simp
  with u ld s1 show ?thesis by (simp add: with_points_def Let_def copy_between_def)
qed

lemma with_points_empty:
  "count_pl list = 0 \<Longrightarrow> length header < 2 ^ 64 \<Longrightarrow> with_points header list m = Inr header"
  by (auto simp: with_points_def Let_def copy_between_def load_def store_def u64_id sdb_alloc_def)

text \<open>Where a payload lies does not matter to its fields.\<close>

lemma at_shift:
  "payload_type (pre @ m) (Ptr (int (length pre))) = payload_type m (Ptr 0)"
  "read_request_at (pre @ m) (Ptr (int (length pre))) = read_request_at m (Ptr 0)"
  "series_id_at (pre @ m) (Ptr (int (length pre))) = series_id_at m (Ptr 0)"
  by (simp_all add: payload_type_def read_request_at_def series_id_at_def field_shift)

lemma write_request_at_shift:
  "write_request_at m (Ptr 0) = Inr r \<Longrightarrow>
   write_request_at (pre @ m) (Ptr (int (length pre))) = Inr (r\<lparr>wr_points := Ptr (int (length pre) + 17)\<rparr>)"
  by (auto simp: write_request_at_def field_shift elim!: bindR_InrE)

lemma payload_validate_shift:
  "payload_validate (pre @ m) (Ptr (int (length pre))) sz = payload_validate m (Ptr 0) sz"
  by (simp add: payload_validate_def at_shift write_request_at_def read_response_at_def field_shift bindR_assoc cong: if_cong)

section \<open>The fields of what was made\<close>

lemma write_header:
  assumes "sid < 2 ^ 32" and "n < 2 ^ 64" and "ps < 2 ^ 32"
  shows "write_request_at ((le_enc 1 ty @ le_enc 4 sid @ le_enc 8 n @ le_enc 4 ps) @ rest) (Ptr 0)
         = Inr \<lparr>wr_series_id = sid, wr_points_count = n, wr_point_size = ps, wr_points = Ptr 17\<rparr>"
  using assms by (simp add: write_request_at_def field_simps le4.dec_enc le8.dec_enc del: le_enc.simps)

lemma read_response_header:
  assumes "n < 2 ^ 64" and "ps < 2 ^ 32"
  shows "read_response_at ((le_enc 1 ty @ le_enc 8 n @ le_enc 4 ps) @ rest) (Ptr 0)
         = Inr \<lparr>rp_points_count = n, rp_point_size = ps, rp_points = Ptr 13\<rparr>"
  using assms by (simp add: read_response_at_def field_simps le4.dec_enc le8.dec_enc del: le_enc.simps)

lemma read_request_fields:
  "sid < 2 ^ 32 \<Longrightarrow> read_request_at (read_request_create sid b e @ rest) (Ptr 0)
     = Inr \<lparr>rr_series_id = sid, rr_begin = b, rr_end = e\<rparr>"
  using unsigned_less [of b, where ?'a = nat] unsigned_less [of e, where ?'a = nat]
  by (simp add: read_request_create_def read_request_at_def field_simps le4.dec_enc le8.dec_enc del: le_enc.simps)

lemma series_id_fields:
  "sid < 2 ^ 32 \<Longrightarrow> series_id_at (read_latest_request_create sid @ rest) (Ptr 0) = Inr sid"
  "sid < 2 ^ 32 \<Longrightarrow> series_id_at (truncate_request_create sid @ rest) (Ptr 0) = Inr sid"
  by (simp_all add: read_latest_request_create_def truncate_request_create_def series_id_at_def field_simps
      le4.dec_enc del: le_enc.simps)

lemma simple_response_fields:
  "code < 256 \<Longrightarrow> simple_response_code_at (simple_response_create code @ rest) (Ptr 0) = Inr code"
  using le1.dec_enc [of code]
  by (simp add: simple_response_create_def simple_response_code_at_def field_simps del: le_enc.simps)

lemma created_types:
  "payload_type (simple_response_create code @ rest) (Ptr 0) = Inr SDB_SIMPLE_RESPONSE"
  "payload_type (read_request_create sid b e @ rest) (Ptr 0) = Inr SDB_READ_REQUEST"
  "payload_type (read_latest_request_create sid @ rest) (Ptr 0) = Inr SDB_READ_LATEST_REQUEST"
  "payload_type (truncate_request_create sid @ rest) (Ptr 0) = Inr SDB_TRUNCATE_REQUEST"
  using payload_type_create [of SDB_SIMPLE_RESPONSE] payload_type_create [of SDB_READ_REQUEST]
    payload_type_create [of SDB_READ_LATEST_REQUEST] payload_type_create [of SDB_TRUNCATE_REQUEST]
  by (simp_all add: simple_response_create_def read_request_create_def read_latest_request_create_def
      truncate_request_create_def packet_types del: le_enc.simps)

lemma created_lengths [simp]:
  "length (simple_response_create code) = 2" "length (read_request_create sid b e) = 21"
  "length (read_latest_request_create sid) = 5" "length (truncate_request_create sid) = 5"
  by (simp_all add: simple_response_create_def read_request_create_def read_latest_request_create_def
      truncate_request_create_def)

lemma created_validate:
  "payload_validate (simple_response_create code @ rest) (Ptr 0) 2 = Inr True"
  "payload_validate (read_request_create sid b e @ rest) (Ptr 0) 21 = Inr True"
  "payload_validate (read_latest_request_create sid @ rest) (Ptr 0) 5 = Inr True"
  "payload_validate (truncate_request_create sid @ rest) (Ptr 0) 5 = Inr True"
  by (simp_all add: payload_validate_def created_types packet_types struct_sizes)

text \<open>A batch of points in a packet: the header's fields, and the points where they say.\<close>

definition write_header_bytes :: "nat \<Rightarrow> nat \<Rightarrow> nat \<Rightarrow> bytes" where
  "write_header_bytes sid n ps = le_enc 1 SDB_WRITE_REQUEST @ le_enc 4 sid @ le_enc 8 n @ le_enc 4 ps"

definition response_header_bytes :: "nat \<Rightarrow> nat \<Rightarrow> bytes" where
  "response_header_bytes n ps = le_enc 1 SDB_READ_RESPONSE @ le_enc 8 n @ le_enc 4 ps"

lemma length_headers [simp]:
  "length (write_header_bytes sid n ps) = 17" "length (response_header_bytes n ps) = 13"
  by (simp_all add: write_header_bytes_def response_header_bytes_def)

lemma write_request_create_ok:
  assumes pl: "plist m list pre cs post"
  shows "write_request_create sid list m = Inr (write_header_bytes sid (length cs) (point_size list) @ concat cs)"
  using with_points_ok [OF pl, of "write_header_bytes sid (length cs) (point_size list)"] plist_bound [OF pl order.refl] plistD(4) [OF pl]
  by (simp add: write_request_create_def write_header_bytes_def)

lemma read_response_create_ok:
  assumes pl: "plist m list pre cs post"
  shows "read_response_create list m = Inr (response_header_bytes (length cs) (point_size list) @ concat cs)"
  using with_points_ok [OF pl, of "response_header_bytes (length cs) (point_size list)"] plist_bound [OF pl order.refl] plistD(4) [OF pl]
  by (simp add: read_response_create_def response_header_bytes_def)

lemma read_response_create_empty:
  "count_pl list = 0 \<Longrightarrow> read_response_create list m = Inr (response_header_bytes 0 (point_size list))"
  by (simp add: read_response_create_def response_header_bytes_def with_points_empty)

lemma write_validate:
  assumes "sid < 2 ^ 32" and "n < 2 ^ 64" and "ps < 2 ^ 32"
  shows "payload_validate (write_header_bytes sid n ps @ rest) (Ptr 0) sz
         = Inr (17 \<le> sz \<and> sz = u64 (17 + u64 (ps * n)))"
  using write_header [OF assms, of SDB_WRITE_REQUEST rest] payload_type_create [of SDB_WRITE_REQUEST]
  by (simp add: payload_validate_def write_header_bytes_def packet_types struct_sizes del: le_enc.simps)

lemma response_validate:
  assumes "n < 2 ^ 64" and "ps < 2 ^ 32"
  shows "payload_validate (response_header_bytes n ps @ rest) (Ptr 0) sz
         = Inr (13 \<le> sz \<and> sz = u64 (13 + u64 (ps * n)))"
  using read_response_header [OF assms, of SDB_READ_RESPONSE rest] payload_type_create [of SDB_READ_RESPONSE]
  by (simp add: payload_validate_def response_header_bytes_def packet_types struct_sizes del: le_enc.simps)

lemma header_types:
  "payload_type (write_header_bytes sid n ps @ rest) (Ptr 0) = Inr SDB_WRITE_REQUEST"
  "payload_type (response_header_bytes n ps @ rest) (Ptr 0) = Inr SDB_READ_RESPONSE"
  using payload_type_create [of SDB_WRITE_REQUEST] payload_type_create [of SDB_READ_RESPONSE]
  by (simp_all add: write_header_bytes_def response_header_bytes_def packet_types del: le_enc.simps)

section \<open>Frames\<close>

text \<open>
  The transport layer: a frame is the magic number, the total size and the payload.
  \<open>parse_frame\<close> is the decision both ends take on the bytes received so far.
\<close>

definition packet_create :: "bytes \<Rightarrow> bytes" where
  "packet_create payload = le_enc 4 SDB_SERVER_MAGIC @ le_enc 4 (sizeof_packet + length payload) @ payload"

text \<open>The response to a read: the packet, framed, that carries the points \<open>xs\<close>.\<close>

definition response_frame :: "nat \<Rightarrow> bytes list \<Rightarrow> bytes" where
  "response_frame ps xs = packet_create (response_header_bytes (length xs) ps @ concat xs)"

datatype frame_status = Incomplete | Malformed | Frame bytes bytes

definition parse_frame :: "nat \<Rightarrow> bytes \<Rightarrow> frame_status" where
  "parse_frame max_len bs =
     (if length bs < 8 then Incomplete
      else let mg = le_dec (take 4 bs); ts = le_dec (take 4 (drop 4 bs))
        in if mg \<noteq> SDB_SERVER_MAGIC \<or> ts > max_len then Malformed
           else if length bs < ts then Incomplete
           else Frame (take (ts - 8) (drop 8 bs)) (drop ts bs))"

text \<open>The contract of a framing: frames can be cut off a stream one after the other.\<close>

locale framing =
  fixes fr :: "bytes \<Rightarrow> bytes"
    and parse :: "bytes \<Rightarrow> frame_status"
    and fits :: "bytes \<Rightarrow> bool"
  assumes parse_whole: "fits p \<Longrightarrow> parse (fr p @ rest) = Frame p rest"
    and parse_part: "fits p \<Longrightarrow> k < length (fr p) \<Longrightarrow> parse (take k (fr p)) = Incomplete"
    and fr_pos: "0 < length (fr p)"
begin

lemma fr_inj:
  assumes "fits p" and "fits q" and "fr p = fr q"
  shows "p = q"
proof -
  have "Frame p [] = Frame q []" by (metis parse_whole assms)
  then show ?thesis by simp
qed

text \<open>No frame is a beginning of another one.\<close>

lemma fr_prefix_free:
  assumes "fits p" and "fits q" and "fr p @ xs = fr q @ ys"
  shows "p = q" and "xs = ys"
proof -
  have "Frame p xs = Frame q ys" by (metis parse_whole assms)
  then show "p = q" "xs = ys" by simp_all
qed

text \<open>A stream of frames is read back as the payloads it was made of.\<close>

lemma stream_inj:
  assumes "\<forall>p\<in>set ps. fits p" and "\<forall>q\<in>set qs. fits q" and "concat (map fr ps) = concat (map fr qs)"
  shows "ps = qs"
  using assms
proof (induction ps arbitrary: qs)
  case Nil
  then show ?case using fr_pos by (cases qs) auto
next
  case (Cons p ps)
  then obtain q qs' where qs: "qs = q # qs'" using fr_pos [of p] by (cases qs) auto
  have "fr p @ concat (map fr ps) = fr q @ concat (map fr qs')" using Cons.prems(3) qs by simp
  then have "p = q" "concat (map fr ps) = concat (map fr qs')"
    using fr_prefix_free Cons.prems(1,2) qs by (metis list.set_intros(1))+
  moreover from this(2) have "ps = qs'" using Cons.prems(1,2) qs by (intro Cons.IH) simp_all
  ultimately show ?case using qs by simp
qed

end

lemma length_packet_create [simp]: "length (packet_create p) = 8 + length p"
  by (simp add: packet_create_def)

lemma packet_create_neq_Nil [simp]: "packet_create p \<noteq> []"
  using length_packet_create [of p] by (metis add_is_0 list.size(3) zero_neq_numeral)

lemma packet_header:
  assumes "length p + 8 < 2 ^ 32" and "8 \<le> k"
  shows "take 4 (take k (packet_create p @ rest)) = le_enc 4 SDB_SERVER_MAGIC"
    and "take 4 (drop 4 (take k (packet_create p @ rest))) = le_enc 4 (8 + length p)"
proof -
  have e: "take k (packet_create p @ rest)
      = le_enc 4 SDB_SERVER_MAGIC @ le_enc 4 (8 + length p) @ take (k - 8) (p @ rest)"
    using assms(2) by (simp add: packet_create_def sizeof_packet_def)
  show "take 4 (take k (packet_create p @ rest)) = le_enc 4 SDB_SERVER_MAGIC" unfolding e by simp
  show "take 4 (drop 4 (take k (packet_create p @ rest))) = le_enc 4 (8 + length p)" unfolding e by simp
qed

lemma packet_at_prefix:
  assumes "8 \<le> length b"
  shows "packet_at (b @ tail) (Ptr 0) = Inr \<lparr>magic = le_dec (take 4 b), total_size = le_dec (take 4 (drop 4 b))\<rparr>"
  using assms by (simp add: packet_at_def field_def load_def)

lemma magic_dec: "le_dec (le_enc 4 SDB_SERVER_MAGIC) = SDB_SERVER_MAGIC"
  by (rule le4.dec_enc) (simp add: SDB_SERVER_MAGIC_def)

lemma framing_packets:
  assumes "max_len < 2 ^ 32"
  shows "framing packet_create (parse_frame max_len) (\<lambda>p. length p + 8 \<le> max_len)"
proof
  fix p rest :: bytes and k
  show "0 < length (packet_create p)" by simp
  assume fits: "length p + 8 \<le> max_len"
  then have small: "length p + 8 < 2 ^ 32" using assms by simp
  have ts: "le_dec (le_enc 4 (8 + length p)) = 8 + length p" using small by (intro le4.dec_enc) simp
  note H = packet_header [OF small, of "length (packet_create p @ rest)" rest]
  have "drop 8 (packet_create p @ rest) = p @ rest" by (simp add: packet_create_def)
  moreover have "drop (8 + length p) (packet_create p @ rest) = rest" by simp
  ultimately show "parse_frame max_len (packet_create p @ rest) = Frame p rest"
    using H fits ts magic_dec by (simp add: parse_frame_def Let_def)
  assume k: "k < length (packet_create p)"
  show "parse_frame max_len (take k (packet_create p)) = Incomplete"
  proof (cases "k < 8")
    case False
    with packet_header [OF small, of k "[]"] k fits ts magic_dec show ?thesis by (simp add: parse_frame_def Let_def)
  qed (simp add: parse_frame_def)
qed

text \<open>The framing of the server with its default packet size.\<close>

interpretation frames: framing packet_create "parse_frame 6553600" "\<lambda>p. length p + 8 \<le> 6553600"
  by (rule framing_packets) simp

section \<open>Properties\<close>

text \<open>
  C20: every request and response the program makes passes its own validation, and its fields
  read back as they were given.  For the packets with a batch of points, the points are found
  behind the header, in an array the header describes.
\<close>

theorem packets_round_trip:
  assumes "sid < 2 ^ 32" and "code < 256" and "plist m list pre cs post" and "point_size list < 2 ^ 32"
  shows "(\<exists>p. write_request_create sid list m = Inr p \<and> payload_validate p (Ptr 0) (length p) = Inr True \<and>
             write_request_at p (Ptr 0) = Inr \<lparr>wr_series_id = sid, wr_points_count = length cs,
               wr_point_size = point_size list, wr_points = Ptr 17\<rparr> \<and> drop 17 p = concat cs) \<and>
         (\<exists>p. read_response_create list m = Inr p \<and> payload_validate p (Ptr 0) (length p) = Inr True \<and>
             read_response_at p (Ptr 0) = Inr \<lparr>rp_points_count = length cs,
               rp_point_size = point_size list, rp_points = Ptr 13\<rparr> \<and> drop 13 p = concat cs) \<and>
         payload_validate (read_request_create sid b e) (Ptr 0) (length (read_request_create sid b e)) = Inr True \<and>
         read_request_at (read_request_create sid b e) (Ptr 0) = Inr \<lparr>rr_series_id = sid, rr_begin = b, rr_end = e\<rparr> \<and>
         payload_validate (read_latest_request_create sid) (Ptr 0) (length (read_latest_request_create sid)) = Inr True \<and>
         series_id_at (read_latest_request_create sid) (Ptr 0) = Inr sid \<and>
         payload_validate (truncate_request_create sid) (Ptr 0) (length (truncate_request_create sid)) = Inr True \<and>
         series_id_at (truncate_request_create sid) (Ptr 0) = Inr sid \<and>
         payload_validate (simple_response_create code) (Ptr 0) (length (simple_response_create code)) = Inr True \<and>
         simple_response_code_at (simple_response_create code) (Ptr 0) = Inr code"
proof -
  have n: "length cs < 2 ^ 64" using plist_length_less [OF assms(3)] by simp
  have bytes: "length cs * point_size list < 2 ^ 63" by (rule plist_bound [OF assms(3) order.refl])
  have u: "u64 (point_size list * length cs) = length cs * point_size list"
    using bytes by (simp add: u64_id mult.commute)
  note W = write_validate [OF assms(1) n assms(4), of "concat cs"] and V = response_validate [OF n assms(4), of "concat cs"]
  have len: "length (concat cs) = length cs * point_size list" using plistD(7) [OF assms(3)] by simp
  have "\<exists>p. write_request_create sid list m = Inr p \<and> payload_validate p (Ptr 0) (length p) = Inr True \<and>
      write_request_at p (Ptr 0) = Inr \<lparr>wr_series_id = sid, wr_points_count = length cs,
        wr_point_size = point_size list, wr_points = Ptr 17\<rparr> \<and> drop 17 p = concat cs"
    using write_request_create_ok [OF assms(3), of sid] W u len bytes
      write_header [OF assms(1) n assms(4), of SDB_WRITE_REQUEST "concat cs", folded write_header_bytes_def]
    by (simp add: u64_id)
  moreover have "\<exists>p. read_response_create list m = Inr p \<and> payload_validate p (Ptr 0) (length p) = Inr True \<and>
      read_response_at p (Ptr 0) = Inr \<lparr>rp_points_count = length cs,
        rp_point_size = point_size list, rp_points = Ptr 13\<rparr> \<and> drop 13 p = concat cs"
    using read_response_create_ok [OF assms(3)] V u len bytes
      read_response_header [OF n assms(4), of SDB_READ_RESPONSE "concat cs", folded response_header_bytes_def]
    by (simp add: u64_id)
  ultimately show ?thesis
    using created_validate [where rest = "[]"] read_request_fields [OF assms(1), of b e "[]"]
      series_id_fields [OF assms(1), of "[]"] simple_response_fields [OF assms(2), of "[]"]
    by simp
qed

theorem packets_round_trip_witness:
  "\<exists>p. write_request_create 7 (sample_list 2) (concat [sample 10 1, sample 20 2]) = Inr p \<and>
     payload_validate p (Ptr 0) (length p) = Inr True \<and> drop 17 p = concat [sample 10 1, sample 20 2]"
  using packets_round_trip [of 7 0 "concat [sample 10 1, sample 20 2]" "sample_list 2" "[]" "[sample 10 1, sample 20 2]" "[]" 0 0]
  by (auto simp: plist_def sample_list_def)

text \<open>
  The validation of a write request does not bound its batch: the product of count and point
  size wraps at \<open>2 ^ 64\<close>, so that a request of seventeen bytes passes while it announces
  \<open>2 ^ 60\<close> points of sixteen bytes.
\<close>

lemma payload_validate_wraps:
  assumes "sid < 2 ^ 32"
  shows "payload_validate (write_header_bytes sid (2 ^ 60) 16) (Ptr 0) 17 = Inr True"
  using write_validate [OF assms, of "2 ^ 60" 16 "[]" 17] by (simp add: u64_def)

lemma payload_validate_wraps_example:
  "payload_validate (write_header_bytes 7 (2 ^ 60) 16) (Ptr 0) 17 = Inr True"
  by (rule payload_validate_wraps) simp

end
