(* ===== verification/Server.thy ===== *)
theory Server
  imports Protocol
begin

text \<open>
  \<^verbatim>\<open>src/network/server.c\<close>: the clients table and what the callbacks of the event loop do.  libuv
  itself is a parameter: the status of every call that may fail, and the order of the events.
  The packet handler is an argument, as it is a function pointer in the source; it gets the
  client with its receive buffer, into which the payload it is given points, and the context.
\<close>

section \<open>State\<close>

text \<open>
  What the server takes from libuv and from the build: the status of the \<open>n\<close>-th write on a
  connection and of binding, listening and running, the longest packet
  (\<^verbatim>\<open>SDB_SERVER_PACKET_MAX_LEN\<close>), the size of the clients table (\<^verbatim>\<open>SDB_MAX_CLIENTS\<close>) and the
  bytes of points in one response (\<^verbatim>\<open>SDB_READ_MAX_PAYLOAD\<close>).
\<close>

record net_platform = platform +
  uv_write_status :: "nat \<Rightarrow> int"
  uv_bind_status :: int
  uv_listen_status :: int
  uv_run_status :: int
  packet_max_len :: nat
  max_clients :: nat
  read_max_payload :: nat

definition SDB_SERVER_READ_BUFFER_MAX_LEN :: nat where
  "SDB_SERVER_READ_BUFFER_MAX_LEN = 65536"

text \<open>
  A \<^verbatim>\<open>client_t\<close>; \<open>socket\<close> identifies its handle, \<open>sent\<close> are the frames libuv has accepted for
  writing, and \<open>writes\<close> counts the attempts.
\<close>

record client =
  socket :: nat
  index :: nat
  buffer :: bytes
  buffer_length :: nat
  sent :: "bytes list"
  writes :: nat

text \<open>
  A \<^verbatim>\<open>server_t\<close> with the context of its handler; \<open>closing\<close> are the clients passed to
  \<^verbatim>\<open>uv_close\<close> whose memory the close callback has not freed yet, \<open>next_socket\<close> numbers the
  handles, \<open>listening\<close> says whether the master socket is open to connections,
  \<open>shutdown_data\<close> whether \<^verbatim>\<open>shutdown_request.data\<close> is set, and \<open>async_open\<close> whether the
  \<^verbatim>\<open>shutdown_request\<close> handle is open.
\<close>

record 'h server =
  port :: int
  clients :: "client option list"
  closing :: "client list"
  next_socket :: nat
  listening :: bool
  shutdown_data :: bool
  async_open :: bool
  handler_context :: 'h

type_synonym 'h packet_handler = "client \<Rightarrow> ptr \<Rightarrow> nat \<Rightarrow> 'h \<Rightarrow> (int \<times> client \<times> 'h) res"

section \<open>Clients\<close>

definition client_create :: "'a net_platform_scheme \<Rightarrow> nat \<Rightarrow> nat \<Rightarrow> client" where
  "client_create P sock i =
     \<lparr>socket = sock, index = i,
      buffer = sdb_alloc (packet_max_len P + SDB_SERVER_READ_BUFFER_MAX_LEN), buffer_length = 0,
      sent = [], writes = 0\<rparr>"

text \<open>Closing a handle twice is an assertion failure in libuv.\<close>

definition client_disconnect_and_destroy :: "'h server \<Rightarrow> client \<Rightarrow> 'h server res" where
  "client_disconnect_and_destroy sv c =
     (if socket c \<in> socket ` set (closing sv) then Inl DoubleClose
      else Inr (sv\<lparr>clients := (clients sv)[index c := None], closing := c # closing sv\<rparr>))"

definition on_client_free :: "'h server \<Rightarrow> nat \<Rightarrow> 'h server" where
  "on_client_free sv sock = sv\<lparr>closing := filter (\<lambda>c. socket c \<noteq> sock) (closing sv)\<rparr>"

text \<open>
  The frame is built in two buffers, handed to libuv together; the total size is a 32-bit
  field.  A failed write leaves nothing on the connection, and both buffers are freed.
\<close>

definition client_send_and_destroy_data :: "'a net_platform_scheme \<Rightarrow> client \<Rightarrow> bytes \<Rightarrow> int \<times> client" where
  "client_send_and_destroy_data P c data =
     (let frame = le_enc 4 SDB_SERVER_MAGIC @ le_enc 4 (sizeof_packet + length data) @ data;
          status = uv_write_status P (writes c);
          c1 = c\<lparr>writes := Suc (writes c)\<rparr>
      in if status \<ge> 0 then (0, c1\<lparr>sent := sent c @ [frame]\<rparr>) else (status, c1))"

lemma client_send_ok:
  "uv_write_status P (writes c) \<ge> 0 \<Longrightarrow>
   client_send_and_destroy_data P c data = (0, c\<lparr>sent := sent c @ [packet_create data], writes := Suc (writes c)\<rparr>)"
  by (simp add: client_send_and_destroy_data_def packet_create_def Let_def)

lemma client_send_keeps:
  assumes "client_send_and_destroy_data P c data = (st, c')"
  shows "index c' = index c \<and> socket c' = socket c \<and> buffer_length c' = buffer_length c \<and> buffer c' = buffer c"
  using assms by (auto simp: client_send_and_destroy_data_def Let_def split: if_splits)

section \<open>Receiving\<close>

text \<open>Whether the client stays connected once the callback has looked at its data.\<close>

datatype disposition = Keep | Disconnect

text \<open>
  The part of \<^verbatim>\<open>on_data_read\<close> behind \<^verbatim>\<open>nread > 0\<close>: append what was read, and handle one packet
  if it is complete.  The header is read again after the handler has run, from the buffer the
  handler may have changed.
\<close>

definition data_received ::
  "'a net_platform_scheme \<Rightarrow> 'h packet_handler \<Rightarrow> client \<Rightarrow> bytes \<Rightarrow> 'h \<Rightarrow> (disposition \<times> client \<times> 'h) res" where
  "data_received P handler c data h =
     bindR (store (buffer c) (Ptr (int (buffer_length c))) data) (\<lambda>buf.
       let c1 = c\<lparr>buffer := buf, buffer_length := u64 (buffer_length c + length data)\<rparr> in
       if buffer_length c1 < sizeof_packet then Inr (Keep, c1, h)
       else bindR (packet_at buf (Ptr 0)) (\<lambda>pk.
         if magic pk \<noteq> SDB_SERVER_MAGIC \<or> total_size pk > packet_max_len P then Inr (Disconnect, c1, h)
         else if buffer_length c1 < total_size pk then Inr (Keep, c1, h)
         else bindR (handler c1 (Ptr (int sizeof_packet)) (u32 (u64_sub (total_size pk) sizeof_packet)) h)
           (\<lambda>(result, c2, h2).
             if result \<noteq> 0 then Inr (Disconnect, c2, h2)
             else bindR (packet_at (buffer c2) (Ptr 0)) (\<lambda>pk2.
               let left = u64_sub (buffer_length c2) (total_size pk2) in
               if left > 0 then
                 bindR (memcpy (buffer c2) (Ptr 0) (Ptr (int (total_size pk2))) left) (\<lambda>buf2.
                   Inr (Keep, c2\<lparr>buffer := buf2, buffer_length := left\<rparr>, h2))
               else Inr (Keep, c2\<lparr>buffer_length := left\<rparr>, h2)))))"

text \<open>\<open>nread\<close> is negative on an error or the end of the stream, else the length of the data.\<close>

definition on_data_read ::
  "'a net_platform_scheme \<Rightarrow> 'h packet_handler \<Rightarrow> 'h server \<Rightarrow> client \<Rightarrow> int \<Rightarrow> bytes \<Rightarrow> 'h server res" where
  "on_data_read P handler sv c nread data =
     (if nread < 0 then client_disconnect_and_destroy sv c
      else if nread > 0 then
        bindR (data_received P handler c (take (nat nread) data) (handler_context sv)) (\<lambda>(d, c1, h1).
          let sv1 = sv\<lparr>handler_context := h1, clients := (clients sv)[index c := Some c1]\<rparr> in
          case d of Keep \<Rightarrow> Inr sv1 | Disconnect \<Rightarrow> client_disconnect_and_destroy sv1 c1)
      else Inr sv)"

text \<open>
  The buffer libuv gets to read into: at most \<^verbatim>\<open>SDB_SERVER_READ_BUFFER_MAX_LEN\<close> bytes.  The
  suggested size goes through a cast to \<^verbatim>\<open>int\<close> and back to 64 bits.
\<close>

definition on_alloc :: "nat \<Rightarrow> bytes" where
  "on_alloc suggested_size =
     (let v = u32 suggested_size; as_int = (if v < 2 ^ 31 then v else v + (2 ^ 64 - 2 ^ 32))
      in sdb_alloc (sdb_min SDB_SERVER_READ_BUFFER_MAX_LEN as_int))"

section \<open>Connections\<close>

text \<open>The first free place of the table, its length if there is none.\<close>

fun free_index :: "client option list \<Rightarrow> nat" where
  "free_index [] = 0"
| "free_index (None # cs) = 0"
| "free_index (Some c # cs) = Suc (free_index cs)"

definition on_client_connected :: "'a net_platform_scheme \<Rightarrow> 'h server \<Rightarrow> int \<Rightarrow> int \<Rightarrow> int \<Rightarrow> 'h server res" where
  "on_client_connected P sv status accept_status read_status =
     (if status < 0 then Inr sv
      else let i = free_index (clients sv) in
        if i \<ge> max_clients P then Inr sv
        else let c = client_create P (next_socket sv) i;
                 sv1 = sv\<lparr>clients := (clients sv)[i := Some c], next_socket := Suc (next_socket sv)\<rparr>
          in bindR (if accept_status < 0 then client_disconnect_and_destroy sv1 c else Inr sv1) (\<lambda>sv2.
               if read_status < 0 then client_disconnect_and_destroy sv2 c else Inr sv2))"

section \<open>Starting and stopping\<close>

definition server_create :: "'a net_platform_scheme \<Rightarrow> int \<Rightarrow> 'h \<Rightarrow> 'h server" where
  "server_create P p context =
     \<lparr>port = p, clients = replicate (max_clients P) None, closing = [], next_socket = 0,
      listening = False, shutdown_data = False, async_open = True, handler_context = context\<rparr>"

definition server_stop :: "'h server \<Rightarrow> 'h server" where
  "server_stop sv = sv\<lparr>shutdown_data := True\<rparr>"

fun disconnect_all :: "'h server \<Rightarrow> client option list \<Rightarrow> 'h server res" where
  "disconnect_all sv [] = Inr sv"
| "disconnect_all sv (None # cs) = disconnect_all sv cs"
| "disconnect_all sv (Some c # cs) = bindR (client_disconnect_and_destroy sv c) (\<lambda>sv1. disconnect_all sv1 cs)"

definition on_server_shutdown :: "'h server \<Rightarrow> 'h server res" where
  "on_server_shutdown sv =
     (if \<not> shutdown_data sv then Inr sv
      else bindR (disconnect_all (sv\<lparr>listening := False\<rparr>) (clients sv)) (\<lambda>sv1.
             Inr (sv1\<lparr>async_open := False\<rparr>)))"

text \<open>
  The events the loop delivers: a connection with the statuses of accepting it and of starting
  to read, data or an error on the connection in a place of the table, the end of closing a
  handle, a stop request, and the wake-up it causes, which libuv delivers only while the
  \<^verbatim>\<open>shutdown_request\<close> handle is open.
\<close>

datatype event =
    Connected int int int
  | DataRead nat int bytes
  | Closed nat
  | StopRequest
  | Shutdown

definition conn :: "'h server \<Rightarrow> nat \<Rightarrow> client option" where
  "conn sv i = (if i < length (clients sv) then clients sv ! i else None)"

fun handle_event ::
  "'a net_platform_scheme \<Rightarrow> 'h packet_handler \<Rightarrow> 'h server \<Rightarrow> event \<Rightarrow> 'h server res" where
  "handle_event P handler sv (Connected status accept_status read_status) =
     on_client_connected P sv status accept_status read_status"
| "handle_event P handler sv (DataRead i nread data) =
     (case conn sv i of
        None \<Rightarrow> Inr sv
      | Some c \<Rightarrow> on_data_read P handler sv c nread data)"
| "handle_event P handler sv (Closed sock) = Inr (on_client_free sv sock)"
| "handle_event P handler sv StopRequest = Inr (server_stop sv)"
| "handle_event P handler sv Shutdown = (if async_open sv then on_server_shutdown sv else Inr sv)"

fun event_loop ::
  "'a net_platform_scheme \<Rightarrow> 'h packet_handler \<Rightarrow> 'h server \<Rightarrow> event list \<Rightarrow> 'h server res" where
  "event_loop P handler sv [] = Inr sv"
| "event_loop P handler sv (e # es) = bindR (handle_event P handler sv e) (\<lambda>sv1. event_loop P handler sv1 es)"

definition server_run ::
  "'a net_platform_scheme \<Rightarrow> 'h packet_handler \<Rightarrow> 'h server \<Rightarrow> event list \<Rightarrow> 'h server res" where
  "server_run P handler sv events =
     (if uv_bind_status P < 0
      then die_internal ''Failed to bind to the master socket'' ''src/network/server.c'' 105
      else if uv_listen_status P \<noteq> 0
      then die_internal ''Failed to listen for incoming clients'' ''src/network/server.c'' 109
      else bindR (event_loop P handler (sv\<lparr>listening := True\<rparr>) events) (\<lambda>sv1.
             if uv_run_status P \<noteq> 0
             then die_internal ''Failed to start the main loop'' ''src/network/server.c'' 113
             else Inr sv1))"

section \<open>The invariant of the clients table\<close>

definition client_ok :: "'a net_platform_scheme \<Rightarrow> client \<Rightarrow> bool" where
  "client_ok P c \<longleftrightarrow>
     length (buffer c) = packet_max_len P + SDB_SERVER_READ_BUFFER_MAX_LEN \<and> buffer_length c \<le> length (buffer c)"

definition server_ok :: "'a net_platform_scheme \<Rightarrow> 'h server \<Rightarrow> bool" where
  "server_ok P sv \<longleftrightarrow>
     length (clients sv) = max_clients P \<and>
     (\<forall>i c. conn sv i = Some c \<longrightarrow>
        index c = i \<and> client_ok P c \<and> socket c < next_socket sv \<and> socket c \<notin> socket ` set (closing sv)) \<and>
     (\<forall>i j c d. conn sv i = Some c \<longrightarrow> conn sv j = Some d \<longrightarrow> socket c = socket d \<longrightarrow> i = j) \<and>
     (\<forall>c\<in>set (closing sv). socket c < next_socket sv) \<and> distinct (map socket (closing sv))"

lemma server_okD:
  assumes "server_ok P sv"
  shows "length (clients sv) = max_clients P"
    and "conn sv i = Some c \<Longrightarrow>
           index c = i \<and> client_ok P c \<and> socket c < next_socket sv \<and> socket c \<notin> socket ` set (closing sv)"
    and "conn sv i = Some c \<Longrightarrow> conn sv j = Some d \<Longrightarrow> socket c = socket d \<Longrightarrow> i = j"
    and "c \<in> set (closing sv) \<Longrightarrow> socket c < next_socket sv" and "distinct (map socket (closing sv))"
  using assms unfolding server_ok_def by blast+

lemma conn_update:
  "conn (sv\<lparr>clients := (clients sv)[i := x]\<rparr>) j = (if i = j \<and> i < length (clients sv) then x else conn sv j)"
  by (auto simp: conn_def nth_list_update)

lemma conn_more [simp]:
  "conn (sv\<lparr>closing := cl\<rparr>) = conn sv" "conn (sv\<lparr>next_socket := n\<rparr>) = conn sv"
  "conn (sv\<lparr>handler_context := h\<rparr>) = conn sv" "conn (sv\<lparr>listening := b\<rparr>) = conn sv"
  "conn (sv\<lparr>shutdown_data := b\<rparr>) = conn sv" "conn (sv\<lparr>async_open := b\<rparr>) = conn sv"
  by (simp_all add: conn_def fun_eq_iff)

lemma conn_less: "conn sv i = Some c \<Longrightarrow> i < length (clients sv)"
  by (simp add: conn_def split: if_splits)

lemma free_index_free: "free_index cs < length cs \<Longrightarrow> cs ! free_index cs = None"
  by (induction cs rule: free_index.induct) auto

text \<open>Disconnecting a client of the table works, and removes it and nothing else.\<close>

lemma disconnect_ok:
  assumes ok: "server_ok P sv" and c: "conn sv i = Some c"
  obtains sv' where "client_disconnect_and_destroy sv c = Inr sv'" and "server_ok P sv'"
    and "conn sv' = (conn sv)(i := None)" and "closing sv' = c # closing sv"
    and "handler_context sv' = handler_context sv" and "shutdown_data sv' = shutdown_data sv"
proof -
  define sv' where "sv' = sv\<lparr>clients := (clients sv)[i := None], closing := c # closing sv\<rparr>"
  note D = server_okD [OF ok]
  note ci = D(2) [OF c]
  have run: "client_disconnect_and_destroy sv c = Inr sv'"
    using ci by (simp add: client_disconnect_and_destroy_def sv'_def)
  have cn: "conn sv' = (conn sv)(i := None)"
    using conn_less [OF c] by (auto simp: fun_eq_iff sv'_def conn_def nth_list_update)
  have "socket d \<noteq> socket c" if "conn sv' j = Some d" for j d
    using that D(3) [OF _ c, of j d] cn by (auto split: if_splits)
  then have entry: "index d = j \<and> client_ok P d \<and> socket d < next_socket sv' \<and> socket d \<notin> socket ` set (closing sv')"
    if "conn sv' j = Some d" for j d
    using that D(2) [of j d] cn by (auto simp: sv'_def split: if_splits)
  have uniq: "j = k" if "conn sv' j = Some d" "conn sv' k = Some e" "socket d = socket e" for j k d e
    using that D(3) [of j d k e] cn by (auto split: if_splits)
  have "server_ok P sv'"
    unfolding server_ok_def using entry uniq D(1,4,5) ci by (auto simp: sv'_def)
  with run cn show thesis by (intro that [of sv']) (auto simp: sv'_def)
qed

lemma server_ok_replace:
  assumes ok: "server_ok P sv" and c: "conn sv i = Some c"
    and c': "index c' = index c" "socket c' = socket c" "client_ok P c'"
  shows "server_ok P (sv\<lparr>handler_context := h, clients := (clients sv)[i := Some c']\<rparr>)"
    and "conn (sv\<lparr>handler_context := h, clients := (clients sv)[i := Some c']\<rparr>) = (conn sv)(i \<mapsto> c')"
proof -
  define sv' where "sv' = sv\<lparr>handler_context := h, clients := (clients sv)[i := Some c']\<rparr>"
  note D = server_okD [OF ok]
  have cn: "conn sv' = (conn sv)(i \<mapsto> c')"
    using conn_less [OF c] by (auto simp: fun_eq_iff sv'_def conn_def nth_list_update)
  have entry: "index d = j \<and> client_ok P d \<and> socket d < next_socket sv' \<and> socket d \<notin> socket ` set (closing sv')"
    if "conn sv' j = Some d" for j d
    using that D(2) [of j d] D(2) [OF c] c' cn by (auto simp: sv'_def split: if_splits)
  have uniq: "j = k" if de: "conn sv' j = Some d" "conn sv' k = Some e" "socket d = socket e" for j k d e
  proof -
    obtain d' e' where "conn sv j = Some d'" "socket d' = socket d" "conn sv k = Some e'" "socket e' = socket e"
      using de(1,2) c c'(2) cn by (auto split: if_splits)
    with D(3) [of j d' k e'] de(3) show ?thesis by simp
  qed
  show "server_ok P (sv\<lparr>handler_context := h, clients := (clients sv)[i := Some c']\<rparr>)"
    unfolding sv'_def [symmetric] server_ok_def using entry uniq D(1,4,5) by (auto simp: sv'_def)
  show "conn (sv\<lparr>handler_context := h, clients := (clients sv)[i := Some c']\<rparr>) = (conn sv)(i \<mapsto> c')"
    using cn by (simp add: sv'_def)
qed

lemma server_ok_add:
  assumes ok: "server_ok P sv" and i: "i < length (clients sv)" "conn sv i = None"
    and c: "index c = i" "socket c = next_socket sv" "client_ok P c"
    and sv': "sv' = sv\<lparr>clients := (clients sv)[i := Some c], next_socket := Suc (next_socket sv)\<rparr>"
  shows "server_ok P sv'" and "conn sv' = (conn sv)(i \<mapsto> c)"
proof -
  note D = server_okD [OF ok]
  show cn: "conn sv' = (conn sv)(i \<mapsto> c)"
    using i(1) by (auto simp: fun_eq_iff sv' conn_def nth_list_update)
  have open_: "next_socket sv \<notin> socket ` set (closing sv)" using D(4) by fastforce
  have fresh: "socket d \<noteq> next_socket sv" if "conn sv j = Some d" for j d using D(2) [OF that] by simp
  have entry: "index d = j \<and> client_ok P d \<and> socket d < next_socket sv' \<and> socket d \<notin> socket ` set (closing sv')"
    if "conn sv' j = Some d" for j d
    using that D(2) [of j d] open_ c cn by (auto simp: sv' split: if_splits)
  have uniq: "j = k" if "conn sv' j = Some d" "conn sv' k = Some e" "socket d = socket e" for j k d e
    using that D(3) [of j d k e] fresh [of j d] fresh [of k e] c cn by (auto split: if_splits)
  show "server_ok P sv'"
    unfolding server_ok_def using entry uniq D(1,4,5) by (auto simp: sv' less_Suc_eq)
qed

lemma connect_ok:
  assumes ok: "server_ok P sv" and r: "on_client_connected P sv status accept_status read_status = Inr sv'"
  shows "server_ok P sv'"
proof -
  define i where "i = free_index (clients sv)"
  define c where "c = client_create P (next_socket sv) i"
  define sv1 where "sv1 = sv\<lparr>clients := (clients sv)[i := Some c], next_socket := Suc (next_socket sv)\<rparr>"
  show ?thesis
  proof (cases "status < 0 \<or> i \<ge> max_clients P")
    case True
    with r ok show ?thesis by (auto simp: on_client_connected_def i_def split: if_splits)
  next
    case False
    then have i: "i < length (clients sv)" "conn sv i = None"
      using server_okD(1) [OF ok] free_index_free [of "clients sv"] by (simp_all add: conn_def i_def)
    have cp: "index c = i" "socket c = next_socket sv" "client_ok P c"
      by (simp_all add: c_def client_create_def client_ok_def)
    note ok1 = server_ok_add [OF ok i cp sv1_def]
    have c1: "conn sv1 i = Some c" using ok1(2) by simp
    obtain sv2 where d: "client_disconnect_and_destroy sv1 c = Inr sv2" "server_ok P sv2" "closing sv2 = c # closing sv1"
      using disconnect_ok [OF ok1(1) c1] by metis
    have "bindR (if accept_status < 0 then client_disconnect_and_destroy sv1 c else Inr sv1) (\<lambda>sv2.
        if read_status < 0 then client_disconnect_and_destroy sv2 c else Inr sv2) = Inr sv'"
      using r False by (simp add: on_client_connected_def flip: i_def c_def sv1_def)
    then show ?thesis
      using d ok1(1) by (cases "accept_status < 0"; cases "read_status < 0")
        (auto simp: client_disconnect_and_destroy_def [of sv2])
  qed
qed

lemma server_ok_free:
  assumes ok: "server_ok P sv"
  shows "server_ok P (on_client_free sv sock)"
proof -
  note D = server_okD [OF ok]
  have cn: "conn (on_client_free sv sock) = conn sv" by (simp add: on_client_free_def)
  have "index c = i \<and> client_ok P c \<and> socket c < next_socket (on_client_free sv sock) \<and>
      socket c \<notin> socket ` set (closing (on_client_free sv sock))" if "conn sv i = Some c" for i c
    using D(2) [OF that] by (auto simp: on_client_free_def image_iff)
  then show ?thesis
    unfolding server_ok_def cn using D(1,3,4,5) by (auto simp: on_client_free_def distinct_map_filter)
qed

lemma disconnect_all_ok:
  assumes "server_ok P sv" and "\<And>i c. i < length cs \<Longrightarrow> cs ! i = Some c \<Longrightarrow> conn sv (k + i) = Some c"
  obtains sv' where "disconnect_all sv cs = Inr sv'" and "server_ok P sv'"
    and "\<And>i. conn sv' i = (if k \<le> i \<and> i < k + length cs \<and> cs ! (i - k) \<noteq> None then None else conn sv i)"
  using assms
proof (induction cs arbitrary: sv k thesis)
  case (Cons x cs)
  have tail: "conn sv (Suc k + i) = Some c" if "i < length cs" "cs ! i = Some c" for i c
    using Cons.prems(3) [of "Suc i" c] that by simp
  show ?case
  proof (cases x)
    case None
    obtain sv' where "disconnect_all sv cs = Inr sv'" "server_ok P sv'"
      "\<And>i. conn sv' i = (if Suc k \<le> i \<and> i < Suc k + length cs \<and> cs ! (i - Suc k) \<noteq> None then None else conn sv i)"
      using Cons.IH [OF _ Cons.prems(2) tail] by metis
    with None show thesis by (intro Cons.prems(1) [of sv']) (auto simp: nth_Cons' Suc_le_eq diff_Suc split: nat.splits)
  next
    case (Some c)
    then have c: "conn sv k = Some c" using Cons.prems(3) [of 0 c] by simp
    obtain sv1 where d: "client_disconnect_and_destroy sv c = Inr sv1" "server_ok P sv1" "conn sv1 = (conn sv)(k := None)"
      using disconnect_ok [OF Cons.prems(2) c] by metis
    have tail1: "conn sv1 (Suc k + i) = Some c" if "i < length cs" "cs ! i = Some c" for i c
      using tail [OF that] d(3) by simp
    obtain sv' where "disconnect_all sv1 cs = Inr sv'" "server_ok P sv'"
      "\<And>i. conn sv' i = (if Suc k \<le> i \<and> i < Suc k + length cs \<and> cs ! (i - Suc k) \<noteq> None then None else conn sv1 i)"
      using Cons.IH [OF _ d(2) tail1] by metis
    with Some d show thesis by (intro Cons.prems(1) [of sv']) (auto simp: nth_Cons' Suc_le_eq diff_Suc split: nat.splits)
  qed
next
  case Nil
  then show ?case by (intro Nil.prems(1) [of sv]) auto
qed

lemma shutdown_ok:
  assumes ok: "server_ok P sv" and "shutdown_data sv"
  obtains sv' where "on_server_shutdown sv = Inr sv'" and "server_ok P sv'" and "\<And>i. conn sv' i = None"
proof -
  let ?sv = "sv\<lparr>listening := False\<rparr>"
  have ok': "server_ok P ?sv" using ok by (simp add: server_ok_def)
  have at: "conn ?sv (0 + i) = Some c" if "i < length (clients sv)" "clients sv ! i = Some c" for i c
    using that by (simp add: conn_def)
  obtain sv' where r: "disconnect_all ?sv (clients sv) = Inr sv'" "server_ok P sv'"
    "\<And>i. conn sv' i = (if 0 \<le> i \<and> i < 0 + length (clients sv) \<and> clients sv ! (i - 0) \<noteq> None then None else conn ?sv i)"
    using disconnect_all_ok [OF ok' at] by blast
  have "conn sv' i = None" for i using r(3) [of i] by (simp add: conn_def [of sv])
  moreover have "server_ok P (sv'\<lparr>async_open := False\<rparr>)" using r(2) by (simp add: server_ok_def)
  ultimately show thesis
    using r(1) assms(2) by (intro that [of "sv'\<lparr>async_open := False\<rparr>"]) (simp_all add: on_server_shutdown_def)
qed

lemma disconnect_all_context: "disconnect_all sv cs = Inr sv' \<Longrightarrow> handler_context sv' = handler_context sv"
proof (induction sv cs rule: disconnect_all.induct)
  case (3 sv c cs)
  then obtain sv1 where "client_disconnect_and_destroy sv c = Inr sv1" "disconnect_all sv1 cs = Inr sv'"
    by (auto elim: bindR_InrE)
  with 3 show ?case by (auto simp: client_disconnect_and_destroy_def split: if_splits)
qed simp_all

lemma connected_context:
  "on_client_connected P sv st a r = Inr sv' \<Longrightarrow> handler_context sv' = handler_context sv"
  by (auto simp: on_client_connected_def client_disconnect_and_destroy_def Let_def elim!: bindR_InrE split: if_splits)

section \<open>Reachable states\<close>

inductive reachable ::
  "'a net_platform_scheme \<Rightarrow> 'h packet_handler \<Rightarrow> 'h server \<Rightarrow> 'h server \<Rightarrow> bool" for P handler sv0 where
  reach_start: "reachable P handler sv0 sv0"
| reach_step: "reachable P handler sv0 sv \<Longrightarrow> handle_event P handler sv e = Inr sv' \<Longrightarrow> reachable P handler sv0 sv'"

lemma event_loop_reachable:
  "reachable P handler sv0 sv \<Longrightarrow> event_loop P handler sv es = Inr sv' \<Longrightarrow> reachable P handler sv0 sv'"
  by (induction es arbitrary: sv) (auto elim!: bindR_InrE intro: reach_step)

lemma server_create_ok: "server_ok P (server_create P p h)"
  by (simp add: server_ok_def server_create_def conn_def)

section \<open>Handlers\<close>

text \<open>
  The contract of a packet handler: it may answer, and change the payload in the receive
  buffer, but the client stays the same client with the same amount of data.
\<close>

locale handler_contract =
  fixes handler :: "'h packet_handler"
  assumes keeps: "handler c p n h = Inr (r, c', h') \<Longrightarrow>
    index c' = index c \<and> socket c' = socket c \<and> buffer_length c' = buffer_length c \<and>
    length (buffer c') = length (buffer c)"
begin

lemma data_received_ok:
  assumes ok: "client_ok P c" and len: "packet_max_len P + SDB_SERVER_READ_BUFFER_MAX_LEN < 2 ^ 63"
    and r: "data_received P handler c data h = Inr (d, c', h')"
  shows "client_ok P c' \<and> index c' = index c \<and> socket c' = socket c"
proof -
  let ?n = "packet_max_len P + SDB_SERVER_READ_BUFFER_MAX_LEN"
  have c: "length (buffer c) = ?n" "buffer_length c \<le> ?n" using ok by (auto simp: client_ok_def)
  obtain buf where st: "store (buffer c) (Ptr (int (buffer_length c))) data = Inr buf"
    using r by (auto simp: data_received_def elim: bindR_InrE)
  then have lb: "length buf = ?n" using store_length c by metis
  have fit: "buffer_length c + length data \<le> ?n"
    using st c by (auto simp: store_def split: if_splits)
  define c1 where "c1 = c\<lparr>buffer := buf, buffer_length := u64 (buffer_length c + length data)\<rparr>"
  have ok1: "client_ok P c1" "index c1 = index c" "socket c1 = socket c"
    using fit lb len by (simp_all add: c1_def client_ok_def u64_id)
  have ok2: "client_ok P c2 \<and> index c2 = index c \<and> socket c2 = socket c"
    if "handler c1 p k h = Inr (x, c2, h2)" for p k x c2 h2
    using keeps [OF that] ok1 by (simp add: client_ok_def)
  have ok3: "client_ok P (c2\<lparr>buffer := buf2, buffer_length := left\<rparr>)"
    if m: "memcpy (buffer c2) (Ptr 0) q left = Inr buf2" "client_ok P c2" "0 < left" for c2 q left buf2
  proof -
    have "memmove (buffer c2) (Ptr 0) q left = Inr buf2" using m(1) by (simp add: memcpy_def split: if_splits)
    then obtain bs where bs: "load (buffer c2) q left = Inr bs" "store (buffer c2) (Ptr 0) bs = Inr buf2"
      unfolding memmove_def by (rule bindR_InrE)
    have "left \<le> length (buffer c2)"
      using bs(2) load_length [OF bs(1)] m(3) by (auto simp: store_def split: if_splits)
    with m(2) store_length [OF bs(2)] show ?thesis by (simp add: client_ok_def)
  qed
  have ok4: "client_ok P c2 \<Longrightarrow> client_ok P (c2\<lparr>buffer_length := 0\<rparr>)" for c2
    by (simp add: client_ok_def)
  from r show ?thesis
    unfolding data_received_def st bindR_Inr Let_def c1_def [symmetric]
    using ok1 ok2 ok3 ok4
    by (auto elim!: bindR_InrE split: if_splits)
qed

text \<open>Every event keeps the invariant of the server.\<close>

lemma data_read_ok:
  assumes ok: "server_ok P sv" and len: "packet_max_len P + SDB_SERVER_READ_BUFFER_MAX_LEN < 2 ^ 63"
    and c: "conn sv i = Some c" and r: "handle_event P handler sv (DataRead i nread data) = Inr sv'"
  shows "server_ok P sv'"
proof -
  obtain svd where d: "client_disconnect_and_destroy sv c = Inr svd" "server_ok P svd"
    using disconnect_ok [OF ok c] by metis
  note ci = server_okD(2) [OF ok c]
  consider "nread < 0" | "nread = 0" | "0 < nread" by linarith
  then show ?thesis
  proof cases
    case 3
    with r c obtain x c1 h1 where dr: "data_received P handler c (take (nat nread) data) (handler_context sv) = Inr (x, c1, h1)"
      and res: "(case x of Keep \<Rightarrow> Inr (sv\<lparr>handler_context := h1, clients := (clients sv)[i := Some c1]\<rparr>)
         | Disconnect \<Rightarrow> client_disconnect_and_destroy (sv\<lparr>handler_context := h1, clients := (clients sv)[i := Some c1]\<rparr>) c1) = Inr sv'"
      using ci by (auto simp: on_data_read_def Let_def elim!: bindR_InrE)
    have k: "client_ok P c1 \<and> index c1 = index c \<and> socket c1 = socket c"
      using data_received_ok [OF _ len dr] ci by blast
    note rep = server_ok_replace [OF ok c, of c1 h1]
    have "conn (sv\<lparr>handler_context := h1, clients := (clients sv)[i := Some c1]\<rparr>) i = Some c1" using rep(2) k by simp
    with disconnect_ok rep(1) k have "client_disconnect_and_destroy (sv\<lparr>handler_context := h1, clients := (clients sv)[i := Some c1]\<rparr>) c1
        = Inr sv' \<Longrightarrow> server_ok P sv'" by fastforce
    with rep(1) k res show ?thesis by (auto split: disposition.splits)
  qed (use r c d ok in \<open>auto simp: on_data_read_def\<close>)
qed

lemma event_ok:
  assumes ok: "server_ok P sv" and len: "packet_max_len P + SDB_SERVER_READ_BUFFER_MAX_LEN < 2 ^ 63"
    and r: "handle_event P handler sv e = Inr sv'"
  shows "server_ok P sv'"
proof (cases e)
  case (Connected status accept_status read_status)
  with r connect_ok [OF ok] show ?thesis by simp
next
  case (DataRead i nread data)
  show ?thesis
  proof (cases "conn sv i")
    case None
    with r ok DataRead show ?thesis by simp
  next
    case (Some c)
    with data_read_ok [OF ok len] r DataRead show ?thesis by blast
  qed
next
  case (Closed sock)
  with r server_ok_free [OF ok, of sock] show ?thesis by simp
next
  case StopRequest
  with r have "sv' = sv\<lparr>shutdown_data := True\<rparr>" by (simp add: server_stop_def)
  with ok show ?thesis by (simp add: server_ok_def)
next
  case Shutdown
  show ?thesis
  proof (cases "shutdown_data sv")
    case True
    from shutdown_ok [OF ok True] r Shutdown ok show ?thesis by (auto split: if_splits)
  next
    case False
    with r Shutdown ok show ?thesis by (simp add: on_server_shutdown_def split: if_splits)
  qed
qed

lemma reachable_ok:
  assumes "reachable P handler sv0 sv" and "server_ok P sv0"
    and "packet_max_len P + SDB_SERVER_READ_BUFFER_MAX_LEN < 2 ^ 63"
  shows "server_ok P sv"
  using assms(1)
proof (induction rule: reachable.induct)
  case reach_start
  show ?case by (rule assms(2))
next
  case (reach_step sv e sv')
  show ?case using event_ok [OF reach_step.IH assms(3) reach_step.hyps(2)] .
qed

end

section \<open>What happens to the data\<close>

text \<open>The bytes of a client's connection that have been received and not handled.\<close>

definition stream :: "client \<Rightarrow> bytes" where
  "stream c = take (buffer_length c) (buffer c)"

definition received :: "client \<Rightarrow> bytes \<Rightarrow> client" where
  "received c data =
     c\<lparr>buffer := stream c @ data @ drop (buffer_length c + length data) (buffer c),
       buffer_length := buffer_length c + length data\<rparr>"

lemma stream_received:
  "buffer_length c \<le> length (buffer c) \<Longrightarrow> stream (received c data) = stream c @ data"
  by (simp add: stream_def received_def)

lemma data_received_unfold:
  assumes c: "buffer_length c \<le> length (buffer c)" "length (buffer c) < 2 ^ 63" and ne: "data \<noteq> []"
    and fit: "buffer_length c + length data \<le> length (buffer c)" and b: "b = stream c @ data"
  shows "data_received P handler c data h =
    (if length b < 8 then Inr (Keep, received c data, h)
     else if le_dec (take 4 b) \<noteq> SDB_SERVER_MAGIC \<or> le_dec (take 4 (drop 4 b)) > packet_max_len P
       then Inr (Disconnect, received c data, h)
     else if length b < le_dec (take 4 (drop 4 b)) then Inr (Keep, received c data, h)
     else bindR (handler (received c data) (Ptr 8) (u32 (u64_sub (le_dec (take 4 (drop 4 b))) 8)) h)
       (\<lambda>(result, c2, h2).
          if result \<noteq> 0 then Inr (Disconnect, c2, h2)
          else bindR (packet_at (buffer c2) (Ptr 0)) (\<lambda>pk2.
               let left = u64_sub (buffer_length c2) (total_size pk2) in
               if left > 0 then
                 bindR (memcpy (buffer c2) (Ptr 0) (Ptr (int (total_size pk2))) left) (\<lambda>buf2.
                   Inr (Keep, c2\<lparr>buffer := buf2, buffer_length := left\<rparr>, h2))
               else Inr (Keep, c2\<lparr>buffer_length := left\<rparr>, h2))))"
proof -
  let ?buf = "stream c @ data @ drop (buffer_length c + length data) (buffer c)"
  have st: "store (buffer c) (Ptr (int (buffer_length c))) data = Inr ?buf"
    using ne fit by (simp add: store_def stream_def)
  have rc: "c\<lparr>buffer := ?buf, buffer_length := u64 (buffer_length c + length data)\<rparr> = received c data"
    using fit c by (simp add: received_def u64_id)
  have lb: "buffer_length (received c data) = length b" using c by (simp add: received_def b stream_def)
  have pk: "packet_at ?buf (Ptr 0) = Inr \<lparr>magic = le_dec (take 4 b), total_size = le_dec (take 4 (drop 4 b))\<rparr>"
    if "8 \<le> length b"
    using packet_at_prefix [OF that, of "drop (buffer_length c + length data) (buffer c)"] by (simp add: b)
  show ?thesis
    unfolding data_received_def st bindR_Inr Let_def rc lb sizeof_packet_def
    using pk by (auto simp: not_less)
qed

text \<open>The decision the server takes on the bytes it has.\<close>

lemma data_received_wait:
  assumes "buffer_length c \<le> length (buffer c)" "length (buffer c) < 2 ^ 63" "data \<noteq> []"
    and "buffer_length c + length data \<le> length (buffer c)"
  shows "parse_frame (packet_max_len P) (stream c @ data) = Incomplete \<Longrightarrow>
           data_received P handler c data h = Inr (Keep, received c data, h)"
    and "parse_frame (packet_max_len P) (stream c @ data) = Malformed \<Longrightarrow>
           data_received P handler c data h = Inr (Disconnect, received c data, h)"
proof -
  define b where "b = stream c @ data"
  note unfold = data_received_unfold [OF assms b_def, of P handler h]
  show "data_received P handler c data h = Inr (Keep, received c data, h)"
    if "parse_frame (packet_max_len P) (stream c @ data) = Incomplete"
    using that unfold unfolding b_def [symmetric] by (auto simp: parse_frame_def Let_def split: if_splits)
  show "data_received P handler c data h = Inr (Disconnect, received c data, h)"
    if "parse_frame (packet_max_len P) (stream c @ data) = Malformed"
    using that unfold unfolding b_def [symmetric] by (auto simp: parse_frame_def Let_def split: if_splits)
qed

text \<open>A complete frame goes to the handler, and what is behind it stays.\<close>

lemma served_buffer:
  assumes c: "buffer_length c \<le> length (buffer c)" "buffer_length c + length data \<le> length (buffer c)"
    and b: "stream c @ data = packet_create p @ rest"
    and c2: "buffer_length c2 = buffer_length (received c data)"
      "take 8 (buffer c2) = take 8 (buffer (received c data))"
      "drop (8 + length p) (buffer c2) = drop (8 + length p) (buffer (received c data))"
  shows "buffer_length c2 = 8 + length p + length rest"
    and "buffer c2 = take 8 (packet_create p @ rest) @ drop 8 (buffer c2)"
    and "drop (8 + length p) (buffer c2) = rest @ drop (buffer_length c + length data) (buffer c)"
proof -
  have buf: "buffer (received c data) = (packet_create p @ rest) @ drop (buffer_length c + length data) (buffer c)"
    unfolding b [symmetric] by (simp add: received_def)
  have "buffer_length (received c data) = length (stream c @ data)" using c by (simp add: received_def stream_def)
  then show "buffer_length c2 = 8 + length p + length rest" unfolding c2(1) b by simp
  have "take 8 (buffer c2) = take 8 (packet_create p @ rest)" unfolding c2(2) buf by simp
  then show "buffer c2 = take 8 (packet_create p @ rest) @ drop 8 (buffer c2)" by (metis append_take_drop_id)
  show "drop (8 + length p) (buffer c2) = rest @ drop (buffer_length c + length data) (buffer c)"
    unfolding c2(3) buf by simp
qed

lemma data_received_frame:
  assumes c: "buffer_length c \<le> length (buffer c)" "length (buffer c) < 2 ^ 63" "data \<noteq> []"
      "buffer_length c + length data \<le> length (buffer c)"
    and b: "stream c @ data = packet_create p @ rest" and p: "8 + length p \<le> packet_max_len P" "packet_max_len P < 2 ^ 32"
    and run: "handler (received c data) (Ptr 8) (length p) h = Inr (r, c2, h2)"
    and c2: "buffer_length c2 = buffer_length (received c data)"
      "take 8 (buffer c2) = take 8 (buffer (received c data))"
      "drop (8 + length p) (buffer c2) = drop (8 + length p) (buffer (received c data))"
      "length (buffer c2) = length (buffer c)"
  shows "r \<noteq> 0 \<Longrightarrow> data_received P handler c data h = Inr (Disconnect, c2, h2)"
    and "r = 0 \<Longrightarrow> length rest \<le> 8 + length p \<Longrightarrow>
           \<exists>c3. data_received P handler c data h = Inr (Keep, c3, h2) \<and> stream c3 = rest \<and>
                sent c3 = sent c2 \<and> length (buffer c3) = length (buffer c)"
    and "r = 0 \<Longrightarrow> length rest > 8 + length p \<Longrightarrow> data_received P handler c data h = Inl Overlap"
proof -
  let ?ts = "8 + length p" and ?b = "packet_create p @ rest"
  have small: "length p + 8 < 2 ^ 32" using p by simp
  note H = packet_header [OF small, of "length ?b" rest]
  have dec: "le_dec (take 4 ?b) = SDB_SERVER_MAGIC" "le_dec (take 4 (drop 4 ?b)) = ?ts"
    using H magic_dec le4.dec_enc [of ?ts] small by simp_all
  have size: "u32 (u64_sub ?ts 8) = length p" using small by (simp add: u64_sub_le u32_id)
  note S = served_buffer [OF c(1,4) b c2(1-3)]
  have bl: "buffer_length c2 = ?ts + length rest" by (rule S(1))
  have pk: "packet_at (buffer c2) (Ptr 0) = Inr \<lparr>magic = SDB_SERVER_MAGIC, total_size = ?ts\<rparr>"
    using packet_at_prefix [of "take 8 ?b" "drop 8 (buffer c2)"] dec S(2) by (simp add: drop_take)
  have left: "u64_sub (buffer_length c2) ?ts = length rest"
    unfolding bl using c(2) c2(4) bl c2(1) b c(4) by (subst u64_sub_le) (simp_all add: received_def)
  have data: "data_received P handler c data h = (if r \<noteq> 0 then Inr (Disconnect, c2, h2)
      else if length rest > 0 then
        bindR (memcpy (buffer c2) (Ptr 0) (Ptr (int ?ts)) (length rest)) (\<lambda>buf2.
          Inr (Keep, c2\<lparr>buffer := buf2, buffer_length := length rest\<rparr>, h2))
      else Inr (Keep, c2\<lparr>buffer_length := length rest\<rparr>, h2))"
    unfolding data_received_unfold [OF c b [symmetric]] dec using p run size pk left by (simp add: Let_def)
  show "r \<noteq> 0 \<Longrightarrow> data_received P handler c data h = Inr (Disconnect, c2, h2)" by (simp add: data)
  note tail = S(3)
  have room: "?ts + length rest \<le> length (buffer c2)" using bl c2(1,4) c(4) by (simp add: received_def)
  show "data_received P handler c data h = Inl Overlap" if "r = 0" "length rest > ?ts"
    using that by (cases rest) (auto simp: data memcpy_def)
  show "\<exists>c3. data_received P handler c data h = Inr (Keep, c3, h2) \<and> stream c3 = rest \<and>
                sent c3 = sent c2 \<and> length (buffer c3) = length (buffer c)" if "r = 0" "length rest \<le> ?ts"
  proof (cases "rest = []")
    case True
    with that c2(4) show ?thesis by (simp add: data stream_def)
  next
    case False
    have "load (buffer c2) (Ptr (int ?ts)) (length rest) = Inr rest"
      using room tail False by (simp add: load_def del: of_nat_add)
    moreover have "store (buffer c2) (Ptr 0) rest = Inr (rest @ drop (length rest) (buffer c2))"
      using room False by (simp add: store_def)
    ultimately have "memcpy (buffer c2) (Ptr 0) (Ptr (int ?ts)) (length rest) = Inr (rest @ drop (length rest) (buffer c2))"
      using that(2) by (simp add: memcpy_def memmove_def)
    with False that(1) room c2(4) show ?thesis by (simp add: data stream_def)
  qed
qed

text \<open>
  A whole frame that arrives on an idle connection is served: the handler runs on it, and the
  connection is idle again.
\<close>

context handler_contract
begin

lemma frame_served:
  assumes ok: "server_ok P sv" and c: "conn sv i = Some c" "buffer_length c = 0"
    and p: "8 + length p \<le> packet_max_len P" "packet_max_len P < 2 ^ 32"
    and run: "handler (received c (packet_create p)) (Ptr 8) (length p) (handler_context sv) = Inr (0, c2, h2)"
    and c2: "take 8 (buffer c2) = take 8 (buffer (received c (packet_create p)))"
      "drop (8 + length p) (buffer c2) = drop (8 + length p) (buffer (received c (packet_create p)))"
  obtains sv' c' where "handle_event P handler sv (DataRead i (int (length (packet_create p))) (packet_create p)) = Inr sv'"
    and "server_ok P sv'" and "handler_context sv' = h2" and "conn sv' = (conn sv)(i \<mapsto> c')"
    and "sent c' = sent c2" and "buffer_length c' = 0"
proof -
  note ci = server_okD(2) [OF ok c(1)]
  have lb: "length (buffer c) = packet_max_len P + 65536"
    using ci by (simp add: client_ok_def SDB_SERVER_READ_BUFFER_MAX_LEN_def)
  have st: "stream c = []" using c(2) by (simp add: stream_def)
  have keep: "buffer_length c2 = buffer_length (received c (packet_create p)) \<and> length (buffer c2) = length (buffer c)"
    using keeps [OF run] lb c(2) p by (simp add: received_def st)
  have fits: "buffer_length c + length (packet_create p) \<le> length (buffer c)" using c(2) lb p by simp
  have ne: "packet_create p \<noteq> []" by simp
  obtain c' where dr: "data_received P handler c (packet_create p) (handler_context sv) = Inr (Keep, c', h2)"
    and c': "stream c' = []" "sent c' = sent c2" "length (buffer c') = length (buffer c)"
    using data_received_frame(2) [where rest = "[]" and handler = handler, OF _ _ ne fits _ p run]
      keep c2 c(2) lb p st by auto
  have len: "packet_max_len P + SDB_SERVER_READ_BUFFER_MAX_LEN < 2 ^ 63"
    using p(2) by (simp add: SDB_SERVER_READ_BUFFER_MAX_LEN_def)
  have ok': "client_ok P c' \<and> index c' = index c \<and> socket c' = socket c"
    using data_received_ok [OF _ len dr] ci by simp
  have "buffer_length c' = 0" using c'(1,3) lb by (auto simp: stream_def)
  with c' ok' dr ci c(1) ne server_ok_replace [OF ok c(1), of c' h2] show thesis
    by (intro that [of "sv\<lparr>handler_context := h2, clients := (clients sv)[i := Some c']\<rparr>" c'])
      (simp_all add: on_data_read_def Let_def)
qed

end

section \<open>Frames that arrive in pieces\<close>

text \<open>The data of one connection, read in pieces.\<close>

fun feed ::
  "'a net_platform_scheme \<Rightarrow> 'h packet_handler \<Rightarrow> client \<Rightarrow> bytes list \<Rightarrow> 'h \<Rightarrow> (disposition \<times> client \<times> 'h) res" where
  "feed P handler c [] h = Inr (Keep, c, h)"
| "feed P handler c (d # ds) h =
     bindR (data_received P handler c d h) (\<lambda>(disp, c1, h1).
       case disp of Keep \<Rightarrow> feed P handler c1 ds h1 | Disconnect \<Rightarrow> Inr (Disconnect, c1, h1))"

lemma received_append:
  assumes "buffer_length c \<le> length (buffer c)"
  shows "received (received c d) e = received c (d @ e)"
proof -
  have s: "stream (received c d) = stream c @ d" using stream_received [OF assms] .
  have "drop (buffer_length c + length d + length e) (stream c @ d @ drop (buffer_length c + length d) (buffer c))
      = drop (buffer_length c + length d + length e) (buffer c)"
    using assms by (simp add: stream_def ac_simps)
  then show ?thesis using s by (simp add: received_def [of c] received_def [of "received c d"]) (simp add: received_def add.assoc)
qed

lemma feed_pieces:
  assumes "buffer_length c \<le> length (buffer c)" and "length (buffer c) < 2 ^ 63"
    and "buffer_length c + length (concat ds) \<le> length (buffer c)" and "\<forall>d\<in>set ds. d \<noteq> []" and "ds \<noteq> []"
    and b: "stream c @ concat ds = packet_create p" and p: "8 + length p \<le> packet_max_len P" "packet_max_len P < 2 ^ 32"
  shows "feed P handler c ds h = data_received P handler c (concat ds) h"
  using assms(1-6)
proof (induction ds arbitrary: c)
  case (Cons d ds)
  show ?case
  proof (cases "ds = []")
    case True
    then show ?thesis
      by (auto simp: bindR_def split: sum.splits disposition.splits)
  next
    case False
    let ?c = "received c d"
    have d: "d \<noteq> []" using Cons.prems(4) by simp
    have fit: "buffer_length c + length d \<le> length (buffer c)" using Cons.prems(3) by simp
    have c1: "buffer_length ?c = buffer_length c + length d" "length (buffer ?c) = length (buffer c)"
      using Cons.prems(1) fit by (simp_all add: received_def stream_def)
    have st: "stream ?c = stream c @ d" using stream_received [OF Cons.prems(1)] .
    have rest: "concat ds \<noteq> []" using False Cons.prems(4) by (cases ds) auto
    have whole: "(stream c @ d) @ concat ds = packet_create p" using Cons.prems(6) by simp
    then have part: "stream c @ d = take (length (stream c @ d)) (packet_create p)" by (metis append_eq_conv_conj)
    have short: "length (stream c @ d) < length (packet_create p)"
      unfolding whole [symmetric] using rest by (cases "concat ds") auto
    have fits: "length p + 8 \<le> packet_max_len P" using p(1) by simp
    have "parse_frame (packet_max_len P) (stream c @ d) = Incomplete"
      using framing.parse_part [OF framing_packets [OF p(2)] fits short] part by simp
    from data_received_wait(1) [OF Cons.prems(1,2) d fit this, of handler h]
    have "feed P handler c (d # ds) h = feed P handler ?c ds h" by simp
    also have "\<dots> = data_received P handler ?c (concat ds) h"
      using Cons.prems False c1 st by (intro Cons.IH) simp_all
    also have "\<dots> = data_received P handler c (concat (d # ds)) h"
    proof -
      have e: "stream ?c @ concat ds = stream c @ concat (d # ds)" using st by simp
      have r: "received ?c (concat ds) = received c (concat (d # ds))" using received_append [OF Cons.prems(1)] by simp
      have "buffer_length ?c + length (concat ds) \<le> length (buffer ?c)" "buffer_length ?c \<le> length (buffer ?c)"
        "length (buffer ?c) < 2 ^ 63"
        using Cons.prems(2,3) c1 by simp_all
      then have l: "data_received P handler ?c (concat ds) h = X \<longleftrightarrow> data_received P handler c (concat (d # ds)) h = X" for X
        using data_received_unfold [of ?c "concat ds" "packet_create p" P handler h]
          data_received_unfold [of c "concat (d # ds)" "packet_create p" P handler h]
          Cons.prems(1,2,3,6) rest d e r by simp
      then show ?thesis by blast
    qed
    finally show ?thesis .
  qed
qed simp

section \<open>Properties\<close>

text \<open>A client of the witnesses: a small receive buffer with nothing in it, and a handler that counts.\<close>

definition idle_client :: client where
  "idle_client = \<lparr>socket = 0, index = 0, buffer = replicate 100 0, buffer_length = 0, sent = [], writes = 0\<rparr>"

definition counting_handler :: "nat packet_handler" where
  "counting_handler c p n h = Inr (0, c, h + n)"

definition tiny_net :: net_platform where
  "tiny_net = platform.extend (posix 64)
     \<lparr>uv_write_status = (\<lambda>_. 0), uv_bind_status = 0, uv_listen_status = 0, uv_run_status = 0,
      packet_max_len = 50, max_clients = 2, read_max_payload = 30\<rparr>"

lemma tiny_net_simps [simp]: "packet_max_len tiny_net = 50" "max_clients tiny_net = 2"
  by (simp_all add: tiny_net_def posix_def platform.extend_def)

lemma idle_client_simps [simp]:
  "stream idle_client = []" "buffer_length idle_client = 0" "length (buffer idle_client) = 100"
  by (simp_all add: idle_client_def stream_def)

text \<open>
  C21: a frame that fits the packet size and has arrived completely is handed to the packet handler
  exactly as it was sent: a pointer to its payload and the payload's length.  When the handler
  returns 0 the client stays connected and only the bytes behind the frame are left in the
  buffer; otherwise it is disconnected.  The bytes behind the frame must not be more than the
  frame itself.
\<close>

theorem frame_delivered:
  assumes "buffer_length c \<le> length (buffer c)" and "length (buffer c) < 2 ^ 63" and "data \<noteq> []"
    and "buffer_length c + length data \<le> length (buffer c)"
    and "stream c @ data = packet_create p @ rest" and "8 + length p \<le> packet_max_len P" and "packet_max_len P < 2 ^ 32"
    and "handler (received c data) (Ptr 8) (length p) h = Inr (r, c2, h2)"
    and "buffer_length c2 = buffer_length (received c data)" and "length (buffer c2) = length (buffer c)"
    and "take 8 (buffer c2) = take 8 (buffer (received c data))"
    and "drop (8 + length p) (buffer c2) = drop (8 + length p) (buffer (received c data))"
    and "length rest \<le> 8 + length p"
  shows "load (buffer (received c data)) (Ptr 8) (length p) = Inr p \<and>
         (if r = 0 then \<exists>c3. data_received P handler c data h = Inr (Keep, c3, h2) \<and> stream c3 = rest \<and> sent c3 = sent c2
          else data_received P handler c data h = Inr (Disconnect, c2, h2))"
proof -
  note F = data_received_frame [where handler = handler and h = h, OF assms(1-9) assms(11,12) assms(10)]
  have "buffer (received c data) = (packet_create p @ rest) @ drop (buffer_length c + length data) (buffer c)"
    using assms(5) by (simp add: received_def)
  then have "load (buffer (received c data)) (Ptr 8) (length p) = Inr p"
    by (auto simp: load_def packet_create_def)
  with F(1) F(2) [OF _ assms(13)] show ?thesis by auto
qed

theorem frame_delivered_witness:
  "load (buffer (received idle_client (packet_create [6, 5, 0, 0, 0]))) (Ptr 8) (length [6, 5, 0, 0, 0 :: byte]) = Inr [6, 5, 0, 0, 0] \<and>
   (if (0 :: int) = 0 then
      \<exists>c3. data_received tiny_net counting_handler idle_client (packet_create [6, 5, 0, 0, 0]) 1 = Inr (Keep, c3, 6) \<and>
        stream c3 = [] \<and> sent c3 = sent (received idle_client (packet_create [6, 5, 0, 0, 0]))
    else data_received tiny_net counting_handler idle_client (packet_create [6, 5, 0, 0, 0]) 1
      = Inr (Disconnect, received idle_client (packet_create [6, 5, 0, 0, 0]), 6))"
  by (rule frame_delivered) (simp_all add: counting_handler_def packet_create_def received_def)

text \<open>
  C22: how a frame is cut into reads does not matter: feeding its pieces one by one to an idle
  connection has the same effect as one read with all of it, and the handler runs once.
\<close>

theorem fragmentation_irrelevant:
  assumes "buffer_length c = 0" and "length (buffer c) < 2 ^ 63" and "length (concat ds) \<le> length (buffer c)"
    and "\<forall>d\<in>set ds. d \<noteq> []" and "concat ds = packet_create p" and "8 + length p \<le> packet_max_len P"
    and "packet_max_len P < 2 ^ 32"
  shows "feed P handler c ds h = data_received P handler c (packet_create p) h"
proof -
  have "stream c = []" using assms(1) by (simp add: stream_def)
  moreover have "length (concat ds) = 8 + length p" using assms(5) by simp
  then have "ds \<noteq> []" by auto
  ultimately show ?thesis
    using feed_pieces [of c ds p P handler h] assms by simp
qed

theorem fragmentation_irrelevant_witness:
  "feed tiny_net counting_handler idle_client [take 3 (packet_create [9, 9]), drop 3 (packet_create [9, 9])] 0
     = data_received tiny_net counting_handler idle_client (packet_create [9, 9]) 0"
proof (rule fragmentation_irrelevant)
  have "length (take 3 (packet_create [9, 9])) = 3" "length (drop 3 (packet_create [9, 9])) = 7" by simp_all
  then show "\<forall>d\<in>set [take 3 (packet_create [9, 9]), drop 3 (packet_create [9, 9])]. d \<noteq> []"
    by (metis empty_iff empty_set list.size(3) set_ConsD zero_neq_numeral)
qed simp_all

text \<open>
  C26: data that does not start with the magic number, or announces more than the largest packet,
  disconnects the client, and the handler is not run.
\<close>

theorem malformed_disconnects:
  assumes "buffer_length c \<le> length (buffer c)" and "length (buffer c) < 2 ^ 63" and "data \<noteq> []"
    and "buffer_length c + length data \<le> length (buffer c)" and "8 \<le> length (stream c @ data)"
    and "le_dec (take 4 (stream c @ data)) \<noteq> SDB_SERVER_MAGIC \<or>
         le_dec (take 4 (drop 4 (stream c @ data))) > packet_max_len P"
  shows "\<exists>c'. data_received P handler c data h = Inr (Disconnect, c', h)"
proof -
  have "parse_frame (packet_max_len P) (stream c @ data) = Malformed"
    using assms(5,6) by (simp add: parse_frame_def Let_def)
  from data_received_wait(2) [OF assms(1-4) this, of handler h] show ?thesis by blast
qed

theorem malformed_disconnects_witness:
  "\<exists>c'. data_received tiny_net counting_handler idle_client [71, 69, 84, 32, 47, 32, 72, 84] 0 = Inr (Disconnect, c', 0)"
  by (rule malformed_disconnects) (simp_all add: SDB_SERVER_MAGIC_def)

text \<open>
  C32: when more bytes follow a frame than the frame has, moving them to the start of the buffer
  is a \<^verbatim>\<open>memcpy\<close> between regions that overlap, which C leaves undefined.
\<close>

theorem pipelined_overlap:
  assumes "buffer_length c \<le> length (buffer c)" and "length (buffer c) < 2 ^ 63" and "data \<noteq> []"
    and "buffer_length c + length data \<le> length (buffer c)"
    and "stream c @ data = packet_create p @ rest" and "8 + length p \<le> packet_max_len P" and "packet_max_len P < 2 ^ 32"
    and "handler (received c data) (Ptr 8) (length p) h = Inr (0, c2, h2)"
    and "buffer_length c2 = buffer_length (received c data)" and "length (buffer c2) = length (buffer c)"
    and "take 8 (buffer c2) = take 8 (buffer (received c data))"
    and "drop (8 + length p) (buffer c2) = drop (8 + length p) (buffer (received c data))"
    and "length rest > 8 + length p"
  shows "data_received P handler c data h = Inl Overlap"
  using data_received_frame(3) [where handler = handler and h = h, OF assms(1-9) assms(11,12) assms(10) refl assms(13)] .

theorem pipelined_overlap_witness:
  "data_received tiny_net counting_handler idle_client (packet_create [1] @ packet_create [1, 1]) 0 = Inl Overlap"
  by (rule pipelined_overlap [where p = "[1]" and rest = "packet_create [1, 1]" and
        ?c2.0 = "received idle_client (packet_create [1] @ packet_create [1, 1])" and ?h2.0 = 1])
    (simp_all add: counting_handler_def received_def)

text \<open>
  A frame that announces less than its own header is not refused: the handler is run with a size
  just below \<open>2 ^ 32\<close>.
\<close>

lemma undersized_frame_accepted:
  assumes "buffer_length c \<le> length (buffer c)" and "length (buffer c) < 2 ^ 63" and "data \<noteq> []"
    and "buffer_length c + length data \<le> length (buffer c)" and "8 \<le> length (stream c @ data)"
    and "le_dec (take 4 (stream c @ data)) = SDB_SERVER_MAGIC" and "le_dec (take 4 (drop 4 (stream c @ data))) = ts"
    and "ts < 8" and "8 \<le> packet_max_len P"
    and "handler (received c data) (Ptr 8) (2 ^ 32 + ts - 8) h = Inr (1, c2, h2)"
  shows "data_received P handler c data h = Inr (Disconnect, c2, h2)"
proof -
  define b where "b = stream c @ data"
  have "(int ts - 8) mod 2 ^ 64 = (int ts - 8 + 2 ^ 64) mod 2 ^ 64" by (simp only: mod_add_self2)
  also have "\<dots> = int ts - 8 + 2 ^ 64" using assms(8) by (intro mod_pos_pos_trivial) auto
  finally have "u64_sub ts 8 = nat (int ts - 8 + 2 ^ 64)" by (simp add: u64_sub_def)
  also have "\<dots> = 2 ^ 64 + ts - 8" by simp
  finally have "u32 (u64_sub ts 8) = (2 ^ 64 + ts - 8) mod 2 ^ 32" by (simp add: u32_def)
  also have "\<dots> = 2 ^ 32 + ts - 8"
  proof -
    have "2 ^ 64 + ts - 8 = (2 ^ 32 + ts - 8) + 2 ^ 32 * (2 ^ 32 - 1)" using assms(8) by simp
    then have "(2 ^ 64 + ts - 8) mod 2 ^ 32 = (2 ^ 32 + ts - 8) mod 2 ^ 32" by (simp only: mod_mult_self2)
    with assms(8) show ?thesis by simp
  qed
  finally have u: "u32 (u64_sub ts 8) = 2 ^ 32 + ts - 8" .
  show ?thesis
    using data_received_unfold [OF assms(1-4) b_def, of P handler h] assms(5-10) u unfolding b_def [symmetric] by simp
qed



text \<open>
  When accepting a connection fails, the server disconnects the new client and then still
  starts reading from it; if that fails as well, as it does on a handle that is being closed, the
  handle is closed a second time.
\<close>

lemma failed_accept_closes_twice:
  assumes "server_ok P sv" and "status \<ge> 0" and "free_index (clients sv) < max_clients P"
    and "accept_status < 0" and "read_status < 0"
  shows "on_client_connected P sv status accept_status read_status = Inl DoubleClose"
proof -
  have "next_socket sv \<notin> socket ` set (closing sv)" using server_okD(4) [OF assms(1)] by fastforce
  with assms show ?thesis
    by (simp add: on_client_connected_def client_disconnect_and_destroy_def client_create_def Let_def)
qed

lemma failed_accept_closes_twice_example:
  "on_client_connected tiny_net (server_create tiny_net 8487 (0 :: nat)) 0 (- 24) (- 22) = Inl DoubleClose"
  by (rule failed_accept_closes_twice [OF server_create_ok]) (simp_all add: server_create_def numeral_2_eq_2)

end
