(* ===== verification/ClientHandler.thy ===== *)
theory ClientHandler
  imports Database Server
begin

text \<open>
  \<^verbatim>\<open>src/network/client-handler.c\<close>: what the server does with a payload.  The context is the file
  system and the database.  The handlers read the request where it lies in the client's
  receive buffer; a write request is sorted and compacted there, in place.
\<close>

type_synonym store = "files \<times> database"

section \<open>Answers\<close>

definition send_and_destroy :: "'a net_platform_scheme \<Rightarrow> client \<Rightarrow> bytes \<Rightarrow> int \<times> client" where
  "send_and_destroy P c packet = client_send_and_destroy_data P c packet"

section \<open>Requests\<close>

text \<open>
  The loop of \<^verbatim>\<open>handle_read\<close>: read one point more than a packet takes, send the packet, go on from
  that point; a packet without points ends it.  The two times that are only logged are read as
  well.  Fuel bounds the number of packets, which depends on what the file holds.
\<close>

fun read_loop ::
  "nat \<Rightarrow> 'a net_platform_scheme \<Rightarrow> client \<Rightarrow> nat \<Rightarrow> timestamp \<Rightarrow> timestamp \<Rightarrow> nat \<Rightarrow> store \<Rightarrow> (client \<times> store) res" where
  "read_loop 0 P c sid begin fin points_per_packet st = Inl OutOfFuel"
| "read_loop (Suc fuel) P c sid begin fin points_per_packet st =
     (let points_to_read = u64 (points_per_packet + 1) in
      bindR (database_read P (fst st) (snd st) sid begin fin points_to_read) (\<lambda>(fs1, db1, reader).
      let list = reader_points reader; m = reader_mem reader in
      bindR (if count_pl list = points_to_read then load_time m (points_list_last list) else Inr fin) (\<lambda>begin'.
      let points_to_send = sdb_min points_per_packet (count_pl list) in
      bindR (if points_to_send \<noteq> 0 then load_time m (content list) else Inr 0) (\<lambda>log_begin.
      bindR (if points_to_send \<noteq> 0 then load_time m (data_point_at list (u64_sub points_to_send 1)) else Inr 0) (\<lambda>log_end.
      bindR (read_response_create \<lparr>content = content list, count_pl = points_to_send, point_size = point_size list\<rparr> m)
        (\<lambda>packet.
      let (send_status, c1) = send_and_destroy P c packet in
      if send_status \<noteq> 0 then Inr (c1, fs1, db1)
      else if points_to_send = 0 then Inr (c1, fs1, db1)
      else read_loop fuel P c1 sid begin' fin points_per_packet (fs1, db1)))))))"

definition handle_read :: "nat \<Rightarrow> 'a net_platform_scheme \<Rightarrow> client \<Rightarrow> ptr \<Rightarrow> store \<Rightarrow> (client \<times> store) res" where
  "handle_read fuel P c data st =
     bindR (read_request_at (buffer c) data) (\<lambda>request.
     bindR (database_get_point_size P (fst st) (snd st) (rr_series_id request)) (\<lambda>(fs1, db1, data_point_size).
       if data_point_size = 0 then
         bindR (read_response_create \<lparr>content = Null, count_pl = 0, point_size = 0\<rparr> []) (\<lambda>packet.
           Inr (snd (send_and_destroy P c packet), fs1, db1))
       else read_loop fuel P c (rr_series_id request) (rr_begin request) (rr_end request)
              (sdb_max 1 (read_max_payload P div data_point_size)) (fs1, db1)))"

definition handle_write :: "'a net_platform_scheme \<Rightarrow> client \<Rightarrow> ptr \<Rightarrow> store \<Rightarrow> (client \<times> store) res" where
  "handle_write P c data st =
     bindR (write_request_at (buffer c) data) (\<lambda>request.
     let list = \<lparr>content = wr_points request, count_pl = wr_points_count request, point_size = wr_point_size request\<rparr> in
     bindR (database_write P (fst st) (snd st) (wr_series_id request) list (buffer c)) (\<lambda>(status, fs1, db1, list1, buf).
       Inr (snd (send_and_destroy P (c\<lparr>buffer := buf\<rparr>)
              (simple_response_create (if status \<noteq> 0 then SDB_RESPONSE_ERROR else SDB_RESPONSE_OK))), fs1, db1)))"

definition handle_truncate :: "'a net_platform_scheme \<Rightarrow> client \<Rightarrow> ptr \<Rightarrow> store \<Rightarrow> (client \<times> store) res" where
  "handle_truncate P c data st =
     bindR (series_id_at (buffer c) data) (\<lambda>sid.
     bindR (database_truncate P (fst st) (snd st) sid) (\<lambda>(status, fs1, db1).
       Inr (snd (send_and_destroy P c
              (simple_response_create (if status \<noteq> 0 then SDB_RESPONSE_ERROR else SDB_RESPONSE_OK))), fs1, db1)))"

definition handle_read_latest :: "'a net_platform_scheme \<Rightarrow> client \<Rightarrow> ptr \<Rightarrow> store \<Rightarrow> (client \<times> store) res" where
  "handle_read_latest P c data st =
     bindR (series_id_at (buffer c) data) (\<lambda>sid.
     bindR (database_read_latest P (fst st) (snd st) sid) (\<lambda>(fs1, db1, reader).
     bindR (if count_pl (reader_points reader) \<noteq> 0
            then load_time (reader_mem reader) (content (reader_points reader)) else Inr 0) (\<lambda>log_time.
     bindR (read_response_create (reader_points reader) (reader_mem reader)) (\<lambda>packet.
       Inr (snd (send_and_destroy P c packet), fs1, db1)))))"

section \<open>Dispatch\<close>

definition client_handler_process_message :: "nat \<Rightarrow> 'a net_platform_scheme \<Rightarrow> store packet_handler" where
  "client_handler_process_message fuel P c data sz st =
     bindR (payload_validate (buffer c) data sz) (\<lambda>valid.
     if \<not> valid then Inr (1, c, st)
     else bindR (payload_type (buffer c) data) (\<lambda>ty.
       if ty = SDB_READ_REQUEST then bindR (handle_read fuel P c data st) (\<lambda>(c1, st1). Inr (0, c1, st1))
       else if ty = SDB_WRITE_REQUEST then bindR (handle_write P c data st) (\<lambda>(c1, st1). Inr (0, c1, st1))
       else if ty = SDB_TRUNCATE_REQUEST then bindR (handle_truncate P c data st) (\<lambda>(c1, st1). Inr (0, c1, st1))
       else if ty = SDB_READ_LATEST_REQUEST then bindR (handle_read_latest P c data st) (\<lambda>(c1, st1). Inr (0, c1, st1))
       else Inr (2, c, st)))"

section \<open>The contract with the server\<close>

definition same_client :: "client \<Rightarrow> client \<Rightarrow> bool" where
  "same_client c c' \<longleftrightarrow>
     index c' = index c \<and> socket c' = socket c \<and> buffer_length c' = buffer_length c \<and> length (buffer c') = length (buffer c)"

lemma same_client_refl [simp]: "same_client c c"
  by (simp add: same_client_def)

lemma same_client_trans: "same_client c c1 \<Longrightarrow> same_client c1 c2 \<Longrightarrow> same_client c c2"
  by (simp add: same_client_def)

lemma same_client_send: "send_and_destroy P c packet = (st, c') \<Longrightarrow> same_client c c'"
  by (auto simp: send_and_destroy_def same_client_def dest!: client_send_keeps)

lemma same_client_snd_send: "same_client c (snd (send_and_destroy P c packet))"
  using same_client_send by (metis prod.collapse)

lemma read_loop_keeps:
  "read_loop fuel P c sid b e n st = Inr (c', st') \<Longrightarrow> same_client c c' \<and> buffer c' = buffer c"
proof (induction fuel arbitrary: c b st)
  case (Suc fuel)
  from Suc.prems obtain packet x c1 where c1: "send_and_destroy P c packet = (x, c1)"
    and "c' = c1 \<or> (\<exists>b' st1. read_loop fuel P c1 sid b' e n st1 = Inr (c', st'))"
    by (simp add: Let_def del: sdb_min_eq split: prod.splits if_splits)
      ((elim bindR_InrE; auto split: if_splits prod.splits elim!: bindR_InrE), blast+)
  moreover have "same_client c c1 \<and> buffer c1 = buffer c"
    using same_client_send [OF c1] c1 by (auto simp: send_and_destroy_def dest!: client_send_keeps)
  ultimately show ?case using Suc.IH same_client_trans by metis
qed simp

interpretation messages: handler_contract "client_handler_process_message fuel P" for fuel P
proof
  fix c p n st r c' st'
  assume run: "client_handler_process_message fuel P c p n st = Inr (r, c', st')"
  have wrote: "same_client c c1" if "handle_write P c p st = Inr (c1, st1)" for c1 st1
  proof -
    from that obtain list status fs1 db1 list1 buf sid code where
      w: "database_write P (fst st) (snd st) sid list (buffer c) = Inr (status, fs1, db1, list1, buf)"
      and c1: "c1 = snd (send_and_destroy P (c\<lparr>buffer := buf\<rparr>) (simple_response_create code))"
      by (auto simp: handle_write_def Let_def elim!: bindR_InrE)
    have "same_client c (c\<lparr>buffer := buf\<rparr>)"
      using database_write_length [OF w] by (simp add: same_client_def)
    with c1 same_client_snd_send same_client_trans show ?thesis by metis
  qed
  have did_read: "same_client c c1" if "handle_read fuel P c p st = Inr (c1, st1)" for c1 st1
    using that by (auto simp: handle_read_def split: if_splits elim!: bindR_InrE dest: read_loop_keeps intro: same_client_snd_send)
  have trunc: "same_client c c1" if "handle_truncate P c p st = Inr (c1, st1)" for c1 st1
    using that by (auto simp: handle_truncate_def elim!: bindR_InrE intro: same_client_snd_send)
  have latest: "same_client c c1" if "handle_read_latest P c p st = Inr (c1, st1)" for c1 st1
    using that by (auto simp: handle_read_latest_def elim!: bindR_InrE intro: same_client_snd_send)
  from run have "same_client c c'"
    by (auto simp: client_handler_process_message_def split: if_splits elim!: bindR_InrE)
      (rule did_read wrote trunc latest, assumption)+
  then show "index c' = index c \<and> socket c' = socket c \<and> buffer_length c' = buffer_length c \<and>
      length (buffer c') = length (buffer c)" by (simp add: same_client_def)
qed

section \<open>Streaming a read\<close>

lemma plist_reader:
  assumes "all_len ps xs" and "8 \<le> ps" and "length xs * ps < 2 ^ 63"
  shows "plist (concat xs) \<lparr>content = Ptr 0, count_pl = length xs, point_size = ps\<rparr> [] xs []"
  using assms by (simp add: plist_def)

text \<open>One packet of a reader that is not empty.\<close>

lemma reader_packet:
  assumes all: "all_len ps xs" and ps: "8 \<le> ps" and len: "length xs * ps < 2 ^ 63" and "xs \<noteq> []" and n: "1 \<le> n"
  shows "load_time (concat xs) (points_list_last \<lparr>content = Ptr 0, count_pl = length xs, point_size = ps\<rparr>)
           = Inr (point_time (last xs))"
    and "\<exists>t. load_time (concat xs) (Ptr 0) = Inr t"
    and "\<exists>t. load_time (concat xs) (data_point_at \<lparr>content = Ptr 0, count_pl = length xs, point_size = ps\<rparr>
               (u64_sub (min n (length xs)) 1)) = Inr t"
    and "read_response_create \<lparr>content = Ptr 0, count_pl = min n (length xs), point_size = ps\<rparr> (concat xs)
           = Inr (response_header_bytes (length (take n xs)) ps @ concat (take n xs))"
proof -
  let ?l = "\<lparr>content = Ptr 0, count_pl = length xs, point_size = ps\<rparr>"
  note pl = plist_reader [OF all ps len]
  show "load_time (concat xs) (points_list_last ?l) = Inr (point_time (last xs))"
    using plist_last [OF pl assms(4)] plist_load_time [OF pl, of "length xs - 1"] assms(4) by (simp add: last_conv_nth)
  show "\<exists>t. load_time (concat xs) (Ptr 0) = Inr t" using plist_load_time [OF pl, of 0] assms(4) by simp
  have k: "u64_sub (min n (length xs)) 1 = min n (length xs) - 1"
    using plist_length_less [OF pl] n assms(4) by (intro u64_sub_le) (cases xs; simp)+
  have "min n (length xs) - 1 < length xs" using assms(4) by (cases xs) auto
  then show "\<exists>t. load_time (concat xs) (data_point_at ?l (u64_sub (min n (length xs)) 1)) = Inr t"
    unfolding k using plist_at [OF pl, of "min n (length xs) - 1"] plist_load_time [OF pl, of "min n (length xs) - 1"] by simp
  have "plist (concat xs) \<lparr>content = Ptr 0, count_pl = min n (length xs), point_size = ps\<rparr> []
      (take n xs) (concat (drop n xs))"
    using pl by (simp add: plist_def min.commute flip: concat_append)
  from read_response_create_ok [OF this]
  show "read_response_create \<lparr>content = Ptr 0, count_pl = min n (length xs), point_size = ps\<rparr> (concat xs)
           = Inr (response_header_bytes (length (take n xs)) ps @ concat (take n xs))" by simp
qed

lemma read_loop_last:
  assumes P: "platform_ok P" and rep: "db_rep fs db A" and a: "A sid = Some (ps, cs)" and be: "b \<le> e"
    and up: "\<And>k. uv_write_status P k \<ge> 0" and n: "n < 2 ^ 32" and none: "window b e cs = []"
  shows "\<exists>db'. read_loop (Suc fuel) P c sid b e n (fs, db)
           = Inr (c\<lparr>sent := sent c @ [response_frame ps []], writes := Suc (writes c)\<rparr>, fs, db') \<and> db_rep fs db' A"
proof -
  let ?c = "c\<lparr>sent := sent c @ [response_frame ps []], writes := Suc (writes c)\<rparr>"
  obtain db1 where rd: "database_read P fs db sid b e (Suc n) = Inr (fs, db1, full_reader ps [])" and rep1: "db_rep fs db1 A"
    using database_read_at [OF P rep be, of sid "Suc n"] a none
    by (auto simp: timeline_of_def point_size_of_def)
  have u: "u64 (n + 1) = Suc n" using n by (simp add: u64_id)
  have "send_and_destroy P c (response_header_bytes 0 ps) = (0, ?c)"
    using client_send_ok [OF up, of c "response_header_bytes 0 ps"] by (simp add: send_and_destroy_def response_frame_def)
  then have "read_loop (Suc fuel) P c sid b e n (fs, db) = Inr (?c, fs, db1)"
    using rd u by (simp add: Let_def full_reader_def empty_reader_def read_response_create_empty)
  with rep1 show ?thesis by blast
qed

lemma window_bytes:
  assumes rep: "db_rep fs db A" and a: "A sid = Some (ps, cs)"
  shows "all_len ps (take k (window b e cs))" and "8 \<le> ps" and "length (take k (window b e cs)) * ps < 2 ^ 63"
proof -
  note T = timeline_of_rep [OF rep, of sid] and By = timeline_of_bytes [OF rep, of sid]
  have A: "timeline_of A sid = cs" "point_size_of A sid = ps" using a by (simp_all add: timeline_of_def point_size_of_def)
  have "set (take k (window b e cs)) \<subseteq> set cs" by (auto simp: window_def dest: in_set_takeD)
  then show "all_len ps (take k (window b e cs))" using T(2) A all_len_subset by simp
  show "8 \<le> ps" using T(3) a A by simp
  have "length (take k (window b e cs)) \<le> length (window b e cs)" by simp
  also have "\<dots> \<le> length cs" unfolding window_def by (rule length_filter_le)
  finally have "length (take k (window b e cs)) * ps \<le> length cs * ps" by (rule mult_le_mono1)
  also have "\<dots> < 2 ^ 63" using By A by simp
  finally show "length (take k (window b e cs)) * ps < 2 ^ 63" .
qed

lemma read_loop_page:
  assumes P: "platform_ok P" and rep: "db_rep fs db A" and a: "A sid = Some (ps, cs)" and be: "b \<le> e"
    and up: "\<And>k. uv_write_status P k \<ge> 0" and n: "1 \<le> n" "n < 2 ^ 32" and some: "window b e cs \<noteq> []"
    and b': "b' = (if length (take (Suc n) (window b e cs)) = Suc n then point_time (last (take (Suc n) (window b e cs))) else e)"
  shows "\<exists>db'. read_loop (Suc fuel) P c sid b e n (fs, db) = read_loop fuel P
           (c\<lparr>sent := sent c @ [response_frame ps (take n (window b e cs))], writes := Suc (writes c)\<rparr>) sid b' e n (fs, db') \<and>
           db_rep fs db' A"
proof -
  define xs where "xs = take (Suc n) (window b e cs)"
  let ?p = "response_header_bytes (length (take n xs)) ps @ concat (take n xs)"
  let ?c = "c\<lparr>sent := sent c @ [response_frame ps (take n (window b e cs))], writes := Suc (writes c)\<rparr>"
  obtain db1 where rd: "database_read P fs db sid b e (Suc n) = Inr (fs, db1, full_reader ps xs)" and rep1: "db_rep fs db1 A"
    using database_read_at [OF P rep be, of sid "Suc n"] a by (auto simp: timeline_of_def point_size_of_def xs_def)
  have u: "u64 (n + 1) = Suc n" using n(2) by (simp add: u64_id)
  have ne: "xs \<noteq> []" using some by (simp add: xs_def)
  have W: "all_len ps xs" "8 \<le> ps" "length xs * ps < 2 ^ 63" unfolding xs_def by (rule window_bytes [OF rep a])+
  note rp = reader_packet [OF W ne n(1)]
  have snd: "send_and_destroy P c ?p = (0, ?c)"
    using client_send_ok [OF up, of c ?p] by (simp add: send_and_destroy_def response_frame_def xs_def)
  obtain t1 t2 where t: "load_time (concat xs) (Ptr 0) = Inr t1"
    "load_time (concat xs) (data_point_at \<lparr>content = Ptr 0, count_pl = length xs, point_size = ps\<rparr>
           (u64_sub (min n (length xs)) 1)) = Inr t2" using rp(2,3) by blast
  have pos: "min n (length xs) = 0 \<longleftrightarrow> False" using n(1) ne by (cases xs) auto
  have "read_loop (Suc fuel) P c sid b e n (fs, db) = read_loop fuel P ?c sid b' e n (fs, db1)"
    using rd u ne rp(1,4) t snd n(1)
    by (cases "length xs = Suc n") (simp_all add: Let_def full_reader_def b' pos flip: xs_def)
  with rep1 show ?thesis by blast
qed

lemma read_loop_streams:
  assumes P: "platform_ok P" and rep: "db_rep fs db A" and a: "A sid = Some (ps, cs)" and be: "b \<le> e"
    and up: "\<And>k. uv_write_status P k \<ge> 0" and n: "1 \<le> n" "n < 2 ^ 32" and fuel: "length (window b e cs) < fuel"
  shows "\<exists>c' db'. read_loop fuel P c sid b e n (fs, db) = Inr (c', fs, db') \<and> db_rep fs db' A \<and>
           sent c' = sent c @ map (response_frame ps) (chunks n (window b e cs) @ [[]])"
  using rep be fuel
proof (induction fuel arbitrary: c b db)
  case (Suc fuel)
  let ?W = "window b e cs"
  show ?case
  proof (cases "?W = []")
    case True
    with read_loop_last [OF P Suc.prems(1) a Suc.prems(2) up n(2) True, of fuel c] show ?thesis by auto
  next
    case False
    let ?c = "c\<lparr>sent := sent c @ [response_frame ps (take n ?W)], writes := Suc (writes c)\<rparr>"
    define b' where "b' = (if length (take (Suc n) ?W) = Suc n then point_time (last (take (Suc n) ?W)) else e)"
    have holds: "holds P sid (fs, db) cs" using P Suc.prems(1) a by (auto simp: holds_def timeline_of_def)
    have pts: "database_points P sid (fs, db) b e (Suc n) = Inr (take (Suc n) ?W)"
      using database_store.rd_window [OF holds] by simp
    note page = database_store.rd_page [OF holds pts Suc.prems(2) b'_def]
    obtain db1 where step: "read_loop (Suc fuel) P c sid b e n (fs, db) = read_loop fuel P ?c sid b' e n (fs, db1)"
      and rep1: "db_rep fs db1 A"
      using read_loop_page [OF P Suc.prems(1) a Suc.prems(2) up n False b'_def] by blast
    have "length (window b' e cs) < fuel" using page(4) Suc.prems(3) n(1) False by (cases ?W) auto
    from Suc.IH [OF rep1 page(3) this, of ?c] obtain c' db' where
      "read_loop fuel P ?c sid b' e n (fs, db1) = Inr (c', fs, db')" "db_rep fs db' A"
      "sent c' = sent ?c @ map (response_frame ps) (chunks n (window b' e cs) @ [[]])" by blast
    moreover have "chunks n ?W = take n ?W # chunks n (window b' e cs)"
      using False n(1) page(2) by (simp add: chunks.simps [of n ?W])
    ultimately show ?thesis unfolding step by (intro exI [of _ c'] exI [of _ db']) simp
  qed
qed simp

section \<open>Requests in the receive buffer\<close>

text \<open>\<open>request_in c p\<close>: behind eight bytes of header, the client's buffer holds the payload \<open>p\<close>.\<close>

definition request_in :: "client \<Rightarrow> bytes \<Rightarrow> bool" where
  "request_in c p \<longleftrightarrow> (\<exists>hdr rest. length hdr = 8 \<and> buffer c = hdr @ p @ rest)"

lemma request_inE:
  assumes "request_in c p"
  obtains hdr rest where "length hdr = 8" and "buffer c = hdr @ p @ rest"
    and "\<And>sz. payload_validate (buffer c) (Ptr 8) sz = payload_validate (p @ rest) (Ptr 0) sz"
    and "payload_type (buffer c) (Ptr 8) = payload_type (p @ rest) (Ptr 0)"
    and "read_request_at (buffer c) (Ptr 8) = read_request_at (p @ rest) (Ptr 0)"
    and "series_id_at (buffer c) (Ptr 8) = series_id_at (p @ rest) (Ptr 0)"
    and "\<And>r. write_request_at (p @ rest) (Ptr 0) = Inr r \<Longrightarrow>
           write_request_at (buffer c) (Ptr 8) = Inr (r\<lparr>wr_points := Ptr 25\<rparr>)"
proof -
  obtain hdr rest where h: "length hdr = 8" "buffer c = hdr @ p @ rest" using assms by (auto simp: request_in_def)
  then have p8: "Ptr 8 = Ptr (int (length hdr))" by simp
  show thesis
    using that [OF h] payload_validate_shift [of hdr "p @ rest"] at_shift [of hdr "p @ rest"]
      write_request_at_shift [of "p @ rest" _ hdr] unfolding h(2) p8 by (simp add: h(1))
qed

lemma process_read:
  assumes "request_in c (read_request_create sid b e)"
  shows "client_handler_process_message fuel P c (Ptr 8) 21 st
         = bindR (handle_read fuel P c (Ptr 8) st) (\<lambda>(c1, st1). Inr (0, c1, st1))"
proof -
  obtain hdr rest where "length hdr = 8" "buffer c = hdr @ read_request_create sid b e @ rest"
    and sh: "\<And>sz. payload_validate (buffer c) (Ptr 8) sz = payload_validate (read_request_create sid b e @ rest) (Ptr 0) sz"
      "payload_type (buffer c) (Ptr 8) = payload_type (read_request_create sid b e @ rest) (Ptr 0)"
    using request_inE [OF assms] by metis
  then show ?thesis
    by (simp add: client_handler_process_message_def sh created_validate created_types)
qed

lemma process_truncate:
  assumes "request_in c (truncate_request_create sid)"
  shows "client_handler_process_message fuel P c (Ptr 8) 5 st
         = bindR (handle_truncate P c (Ptr 8) st) (\<lambda>(c1, st1). Inr (0, c1, st1))"
proof -
  obtain hdr rest where "length hdr = 8" "buffer c = hdr @ truncate_request_create sid @ rest"
    and sh: "\<And>sz. payload_validate (buffer c) (Ptr 8) sz = payload_validate (truncate_request_create sid @ rest) (Ptr 0) sz"
      "payload_type (buffer c) (Ptr 8) = payload_type (truncate_request_create sid @ rest) (Ptr 0)"
    using request_inE [OF assms] by metis
  then show ?thesis
    by (simp add: client_handler_process_message_def sh created_validate created_types) (simp add: packet_types)
qed

lemma process_read_latest:
  assumes "request_in c (read_latest_request_create sid)"
  shows "client_handler_process_message fuel P c (Ptr 8) 5 st
         = bindR (handle_read_latest P c (Ptr 8) st) (\<lambda>(c1, st1). Inr (0, c1, st1))"
proof -
  obtain hdr rest where "length hdr = 8" "buffer c = hdr @ read_latest_request_create sid @ rest"
    and sh: "\<And>sz. payload_validate (buffer c) (Ptr 8) sz = payload_validate (read_latest_request_create sid @ rest) (Ptr 0) sz"
      "payload_type (buffer c) (Ptr 8) = payload_type (read_latest_request_create sid @ rest) (Ptr 0)"
    using request_inE [OF assms] by metis
  then show ?thesis
    by (simp add: client_handler_process_message_def sh created_validate created_types) (simp add: packet_types)
qed

text \<open>A write request of the points \<open>bs\<close>, in the buffer.\<close>

definition write_payload :: "nat \<Rightarrow> nat \<Rightarrow> point list \<Rightarrow> bytes" where
  "write_payload sid ps bs = write_header_bytes sid (length bs) ps @ concat bs"

lemma length_write_payload [simp]: "length (write_payload sid ps bs) = 17 + length (concat bs)"
  by (simp add: write_payload_def)

lemma process_write:
  assumes req: "request_in c (write_payload sid ps bs)" and sid: "sid < 2 ^ 32" and ps: "8 \<le> ps" "ps < 2 ^ 32"
    and bs: "all_len ps bs" and buf: "length (buffer c) < 2 ^ 63"
  obtains pre post where "client_handler_process_message fuel P c (Ptr 8) (length (write_payload sid ps bs)) st
         = bindR (handle_write P c (Ptr 8) st) (\<lambda>(c1, st1). Inr (0, c1, st1))"
    and "write_request_at (buffer c) (Ptr 8)
         = Inr \<lparr>wr_series_id = sid, wr_points_count = length bs, wr_point_size = ps, wr_points = Ptr 25\<rparr>"
    and "plist (buffer c) \<lparr>content = Ptr 25, count_pl = length bs, point_size = ps\<rparr> pre bs post"
    and "length pre = 25" and "buffer c = pre @ concat bs @ post"
proof -
  let ?p = "write_payload sid ps bs" and ?h = "write_header_bytes sid (length bs) ps"
  obtain hdr rest where h: "length hdr = 8" "buffer c = hdr @ ?p @ rest"
    and sh: "\<And>sz. payload_validate (buffer c) (Ptr 8) sz = payload_validate (?p @ rest) (Ptr 0) sz"
      "payload_type (buffer c) (Ptr 8) = payload_type (?p @ rest) (Ptr 0)"
      "\<And>r. write_request_at (?p @ rest) (Ptr 0) = Inr r \<Longrightarrow>
           write_request_at (buffer c) (Ptr 8) = Inr (r\<lparr>wr_points := Ptr 25\<rparr>)"
    using request_inE [OF req] by metis
  have pl: "plist (buffer c) \<lparr>content = Ptr 25, count_pl = length bs, point_size = ps\<rparr> (hdr @ ?h) bs rest"
    using h buf bs ps by (simp add: plist_def write_payload_def)
  have n: "length bs < 2 ^ 64" using plist_length_less [OF pl] by simp
  have "length bs * ps < 2 ^ 63" using plist_bound [OF pl order.refl] by simp
  then have u: "u64 (17 + u64 (ps * length bs)) = length ?p"
    using bs by (simp add: write_payload_def u64_id mult.commute)
  have fields: "write_request_at (?p @ rest) (Ptr 0)
      = Inr \<lparr>wr_series_id = sid, wr_points_count = length bs, wr_point_size = ps, wr_points = Ptr 17\<rparr>"
    using write_header [OF sid n ps(2), of SDB_WRITE_REQUEST "concat bs @ rest", folded write_header_bytes_def]
    by (simp add: write_payload_def)
  have "payload_validate (buffer c) (Ptr 8) (length ?p) = Inr True"
    using write_validate [OF sid n ps(2), of "concat bs @ rest"] u by (simp add: sh write_payload_def)
  moreover have "payload_type (buffer c) (Ptr 8) = Inr SDB_WRITE_REQUEST"
    using header_types(1) by (simp add: sh write_payload_def)
  ultimately have "client_handler_process_message fuel P c (Ptr 8) (length ?p) st
         = bindR (handle_write P c (Ptr 8) st) (\<lambda>(c1, st1). Inr (0, c1, st1))"
    by (simp add: client_handler_process_message_def) (simp add: packet_types)
  from that [OF this _ pl] sh(3) [OF fields] h show thesis by (simp add: write_payload_def)
qed

section \<open>Handling\<close>

text \<open>An answer that could be sent: the client with one more frame on its connection.\<close>

definition answered :: "client \<Rightarrow> bytes \<Rightarrow> client" where
  "answered c packet = c\<lparr>sent := sent c @ [packet_create packet], writes := Suc (writes c)\<rparr>"

lemma send_answered: "(\<And>k. uv_write_status P k \<ge> 0) \<Longrightarrow> send_and_destroy P c packet = (0, answered c packet)"
  using client_send_ok [of P c packet] by (simp add: send_and_destroy_def answered_def)

text \<open>
  \<open>handled c p out c'\<close>: the frame with the payload \<open>p\<close> has been answered with \<open>out\<close>.  The header of the
  frame and what lies behind it are still in the buffer.
\<close>

definition handled :: "client \<Rightarrow> bytes \<Rightarrow> bytes list \<Rightarrow> client \<Rightarrow> bool" where
  "handled c p out c' \<longleftrightarrow> sent c' = sent c @ out \<and> same_client c c' \<and> take 8 (buffer c') = take 8 (buffer c) \<and>
     drop (8 + length p) (buffer c') = drop (8 + length p) (buffer c)"

lemma handled_answered: "handled c p [packet_create packet] (answered c packet)"
  by (simp add: handled_def answered_def same_client_def)

text \<open>A write request, whatever the database makes of it.\<close>

lemma handle_write_at:
  assumes P: "platform_ok P" and up: "\<And>k. uv_write_status P k \<ge> 0"
    and req: "request_in c (write_payload sid ps bs)" and sid: "sid < 2 ^ 32" and ps: "8 \<le> ps" "ps < 2 ^ 32"
    and bs: "all_len ps bs" and buf: "length (buffer c) < 2 ^ 63"
  obtains pre post where "plist (buffer c) \<lparr>content = Ptr 25, count_pl = length bs, point_size = ps\<rparr> pre bs post"
    and "\<And>status fs' db' w' tm'.
      database_write P fs db sid \<lparr>content = Ptr 25, count_pl = length bs, point_size = ps\<rparr> (buffer c)
        = Inr (status, fs', db', w', tm') \<Longrightarrow>
      \<exists>c'. client_handler_process_message fuel P c (Ptr 8) (length (write_payload sid ps bs)) (fs, db) = Inr (0, c', fs', db') \<and>
        handled c (write_payload sid ps bs)
          [packet_create (simple_response_create (if status \<noteq> 0 then SDB_RESPONSE_ERROR else SDB_RESPONSE_OK))] c'"
proof -
  let ?w = "\<lparr>content = Ptr 25, count_pl = length bs, point_size = ps\<rparr>" and ?p = "write_payload sid ps bs"
  obtain pre post where pm: "client_handler_process_message fuel P c (Ptr 8) (length ?p) (fs, db)
         = bindR (handle_write P c (Ptr 8) (fs, db)) (\<lambda>(c1, st1). Inr (0, c1, st1))"
    and at: "write_request_at (buffer c) (Ptr 8)
         = Inr \<lparr>wr_series_id = sid, wr_points_count = length bs, wr_point_size = ps, wr_points = Ptr 25\<rparr>"
    and W: "plist (buffer c) ?w pre bs post" and pre: "length pre = 25" and bc: "buffer c = pre @ concat bs @ post"
    using process_write [OF req sid ps bs buf] by metis
  show thesis
  proof (rule that [OF W])
    fix status fs' db' w' tm'
    assume w: "database_write P fs db sid ?w (buffer c) = Inr (status, fs', db', w', tm')"
    let ?r = "simple_response_create (if status \<noteq> 0 then SDB_RESPONSE_ERROR else SDB_RESPONSE_OK)"
    let ?c = "answered (c\<lparr>buffer := tm'\<rparr>) ?r"
    obtain mid where mid: "tm' = pre @ mid @ post" "length mid = length (concat bs)"
      using database_write_frame [OF platform_ok_qsort [OF P] W w] by metis
    have len: "8 + length ?p = length (pre @ concat bs)" using bs pre by (simp add: write_payload_def)
    have "handled c ?p [packet_create ?r] ?c"
      unfolding handled_def len using bc mid pre by (simp add: answered_def same_client_def)
    moreover have "client_handler_process_message fuel P c (Ptr 8) (length ?p) (fs, db) = Inr (0, ?c, fs', db')"
      unfolding pm using at w send_answered [OF up] by (simp add: handle_write_def Let_def)
    ultimately show "\<exists>c'. client_handler_process_message fuel P c (Ptr 8) (length ?p) (fs, db) = Inr (0, c', fs', db') \<and>
        handled c ?p [packet_create ?r] c'" by blast
  qed
qed

lemma handle_write_ok:
  assumes P: "platform_ok P" and rep: "db_rep fs db A" and up: "\<And>k. uv_write_status P k \<ge> 0"
    and req: "request_in c (write_payload sid ps bs)" and sid: "sid < 2 ^ 32" and ps: "8 \<le> ps" "ps < 2 ^ 32"
    and bs: "all_len ps bs" and buf: "length (buffer c) < 2 ^ 63" and acc: "db_accepts P fs db A sid ps bs"
  obtains fs' db' c' where
    "client_handler_process_message fuel P c (Ptr 8) (length (write_payload sid ps bs)) (fs, db) = Inr (0, c', fs', db')"
    and "db_rep fs' db' (A(sid \<mapsto> (ps, merge_pts (prepared P bs) (timeline_of A sid))))"
    and "handled c (write_payload sid ps bs) [packet_create (simple_response_create SDB_RESPONSE_OK)] c'"
    and "\<And>N. files_within N fs \<Longrightarrow> file_grow_increment P \<le> N \<Longrightarrow> files_within (N + growth P ps (length bs)) fs'"
proof -
  let ?w = "\<lparr>content = Ptr 25, count_pl = length bs, point_size = ps\<rparr>" and ?p = "write_payload sid ps bs"
  obtain pre post where W: "plist (buffer c) ?w pre bs post"
    and run: "\<And>status fs' db' w' tm'. database_write P fs db sid ?w (buffer c) = Inr (status, fs', db', w', tm') \<Longrightarrow>
      \<exists>c'. client_handler_process_message fuel P c (Ptr 8) (length ?p) (fs, db) = Inr (0, c', fs', db') \<and>
        handled c ?p [packet_create (simple_response_create (if status \<noteq> 0 then SDB_RESPONSE_ERROR else SDB_RESPONSE_OK))] c'"
    using handle_write_at [OF P up req sid ps bs buf] by blast
  have acc': "db_accepts P fs db A sid (point_size ?w) bs" using acc by simp
  from database_write_at [OF P rep W acc'] obtain fs' db' w' tm' where
    w: "database_write P fs db sid ?w (buffer c) = Inr (0, fs', db', w', tm')"
    "db_rep fs' db' (A(sid \<mapsto> (ps, merge_pts (prepared P bs) (timeline_of A sid))))"
    "\<And>N. files_within N fs \<Longrightarrow> file_grow_increment P \<le> N \<Longrightarrow> files_within (N + growth P ps (length bs)) fs'"
    by (metis points_list.select_convs(3))
  from run [OF w(1)] obtain c' where
    "client_handler_process_message fuel P c (Ptr 8) (length ?p) (fs, db) = Inr (0, c', fs', db')"
    "handled c ?p [packet_create (simple_response_create SDB_RESPONSE_OK)] c'" by auto
  from that [OF this(1) w(2) this(2) w(3)] show thesis .
qed

lemma request_fields:
  assumes "sid < 2 ^ 32"
  shows "request_in c (read_request_create sid b e) \<Longrightarrow>
      read_request_at (buffer c) (Ptr 8) = Inr \<lparr>rr_series_id = sid, rr_begin = b, rr_end = e\<rparr>"
    and "request_in c (truncate_request_create sid) \<Longrightarrow> series_id_at (buffer c) (Ptr 8) = Inr sid"
    and "request_in c (read_latest_request_create sid) \<Longrightarrow> series_id_at (buffer c) (Ptr 8) = Inr sid"
  using assms by (auto elim!: request_inE simp: read_request_fields series_id_fields)

lemma handle_read_pages:
  assumes "platform_ok P" and "db_rep fs db A" and "A sid = Some (ps, cs)" and "b \<le> e" and "sid < 2 ^ 32"
    and "\<And>k. uv_write_status P k \<ge> 0" and "read_max_payload P < 2 ^ 32" and "length (window b e cs) < fuel"
    and "request_in c (read_request_create sid b e)"
  shows "\<exists>c' db'. client_handler_process_message fuel P c (Ptr 8) 21 (fs, db) = Inr (0, c', fs, db') \<and> db_rep fs db' A \<and>
           same_client c c' \<and> buffer c' = buffer c \<and>
           sent c' = sent c @ map (response_frame ps) (chunks (max 1 (read_max_payload P div ps)) (window b e cs) @ [[]])"
proof -
  let ?n = "max 1 (read_max_payload P div ps)"
  have ps: "8 \<le> ps" using timeline_of_rep(3) [OF assms(2), of sid] assms(3) by (simp add: point_size_of_def)
  obtain db1 where gp: "database_get_point_size P fs db sid = Inr (fs, db1, ps)" and rep1: "db_rep fs db1 A"
    using database_get_point_size_at [OF assms(1,2), of sid] assms(3) by (auto simp: point_size_of_def)
  have "read_max_payload P div ps < 2 ^ 32" using div_le_dividend assms(7) by (rule le_less_trans)
  then have n: "1 \<le> ?n" "?n < 2 ^ 32" by auto
  obtain c' db' where l: "read_loop fuel P c sid b e ?n (fs, db1) = Inr (c', fs, db')" "db_rep fs db' A"
    "sent c' = sent c @ map (response_frame ps) (chunks ?n (window b e cs) @ [[]])"
    using read_loop_streams [OF assms(1) rep1 assms(3,4,6) n assms(8), of c] by blast
  moreover from read_loop_keeps [OF l(1)] have "same_client c c'" "buffer c' = buffer c" by simp_all
  ultimately show ?thesis
    using gp request_fields(1) [OF assms(5,9)] ps process_read [OF assms(9), of fuel P "(fs, db)"]
    by (intro exI [of _ c'] exI [of _ db']) (simp add: handle_read_def)
qed

lemma handle_read_ok:
  assumes "platform_ok P" and "db_rep fs db A" and "A sid = Some (ps, cs)" and "b \<le> e" and "sid < 2 ^ 32"
    and "\<And>k. uv_write_status P k \<ge> 0" and "read_max_payload P < 2 ^ 32" and "length (window b e cs) < fuel"
    and "request_in c (read_request_create sid b e)"
  shows "\<exists>c' db' pages. client_handler_process_message fuel P c (Ptr 8) 21 (fs, db) = Inr (0, c', fs, db') \<and>
           db_rep fs db' A \<and> buffer c' = buffer c \<and> sent c' = sent c @ map (response_frame ps) (pages @ [[]]) \<and>
           concat pages = window b e cs \<and> (\<forall>xs\<in>set pages. xs \<noteq> [] \<and> length xs \<le> max 1 (read_max_payload P div ps))"
proof -
  let ?n = "max 1 (read_max_payload P div ps)"
  have n: "1 \<le> ?n" by simp
  have "\<forall>xs\<in>set (chunks ?n (window b e cs)). xs \<noteq> [] \<and> length xs \<le> ?n" using in_chunks [OF _ n] by blast
  moreover have "concat (chunks ?n (window b e cs)) = window b e cs" using n by (intro concat_chunks) simp
  ultimately show ?thesis using handle_read_pages [OF assms] by metis
qed

text \<open>The reads that find nothing: of a series that is not there, and of an interval that ends before it begins.\<close>

lemma handle_read_none:
  assumes "platform_ok P" and "db_rep fs db A" and "A sid = None" and "sid < 2 ^ 32"
    and "\<And>k. uv_write_status P k \<ge> 0" and "request_in c (read_request_create sid b e)"
  obtains db' where "client_handler_process_message fuel P c (Ptr 8) 21 (fs, db)
      = Inr (0, answered c (response_header_bytes 0 0), fs, db')" and "db_rep fs db' A"
proof -
  obtain db' where "database_get_point_size P fs db sid = Inr (fs, db', 0)" "db_rep fs db' A"
    using database_get_point_size_at [OF assms(1,2), of sid] assms(3) by (auto simp: point_size_of_def)
  then show thesis
    using request_fields(1) [OF assms(4,6)] process_read [OF assms(6), of fuel P "(fs, db)"] send_answered [OF assms(5)]
    by (intro that [of db']) (simp_all add: handle_read_def read_response_create_empty)
qed

lemma handle_read_backwards:
  assumes "platform_ok P" and "db_rep fs db A" and "A sid = Some (ps, cs)" and "e < b" and "sid < 2 ^ 32"
    and "\<And>k. uv_write_status P k \<ge> 0" and "read_max_payload P < 2 ^ 32" and "0 < fuel"
    and "request_in c (read_request_create sid b e)"
  obtains db' where "client_handler_process_message fuel P c (Ptr 8) 21 (fs, db)
      = Inr (0, answered c (response_header_bytes 0 0), fs, db')" and "db_rep fs db' A"
proof -
  let ?n = "max 1 (read_max_payload P div ps)"
  obtain f where f: "fuel = Suc f" using assms(8) by (cases fuel) auto
  have ps: "8 \<le> ps" using timeline_of_rep(3) [OF assms(2), of sid] assms(3) by (simp add: point_size_of_def)
  obtain db1 where gp: "database_get_point_size P fs db sid = Inr (fs, db1, ps)" and rep1: "db_rep fs db1 A"
    using database_get_point_size_at [OF assms(1,2), of sid] assms(3) by (auto simp: point_size_of_def)
  obtain db' where rd: "database_read P fs db1 sid b e (u64 (?n + 1)) = Inr (fs, db', empty_reader 0)" and rep': "db_rep fs db' A"
    using database_read_backwards [OF assms(1) rep1 assms(4)] by blast
  have "read_max_payload P div ps < 2 ^ 32" using div_le_dividend assms(7) by (rule le_less_trans)
  then have "u64 (?n + 1) \<noteq> 0" by (subst u64_id) auto
  then have "read_loop fuel P c sid b e ?n (fs, db1) = Inr (answered c (response_header_bytes 0 0), fs, db')"
    using rd send_answered [OF assms(6)] by (simp add: f Let_def empty_reader_def read_response_create_empty)
  with rep' gp ps request_fields(1) [OF assms(5,9)] process_read [OF assms(9), of fuel P "(fs, db)"] show thesis
    by (intro that [of db']) (simp_all add: handle_read_def)
qed

lemma handle_truncate_ok:
  assumes "platform_ok P" and "db_rep fs db A" and "sid < 2 ^ 32" and "\<And>k. uv_write_status P k \<ge> 0"
    and "request_in c (truncate_request_create sid)"
  obtains fs' db' where "client_handler_process_message fuel P c (Ptr 8) 5 (fs, db)
      = Inr (0, answered c (simple_response_create SDB_RESPONSE_OK), fs', db')"
    and "db_rep fs' db' (A(sid := None))" and "\<And>N. files_within N fs \<Longrightarrow> files_within N fs'"
proof -
  from database_truncate_at [OF assms(1,2), of sid] obtain fs' db' where
    "database_truncate P fs db sid = Inr (0, fs', db')" "db_rep fs' db' (A(sid := None))"
    "\<And>N. files_within N fs \<Longrightarrow> files_within N fs'" by metis
  then show thesis
    using request_fields(2) [OF assms(3,5)] process_truncate [OF assms(5), of fuel P "(fs, db)"] send_answered [OF assms(4)]
    by (intro that [of fs' db']) (simp_all add: handle_truncate_def)
qed

lemma handle_latest_ok:
  assumes "platform_ok P" and "db_rep fs db A" and "sid < 2 ^ 32" and "\<And>k. uv_write_status P k \<ge> 0"
    and "request_in c (read_latest_request_create sid)"
    and xs: "xs = (if timeline_of A sid = [] then [] else [last (timeline_of A sid)])"
  obtains db' where "client_handler_process_message fuel P c (Ptr 8) 5 (fs, db)
      = Inr (0, answered c (response_header_bytes (length xs) (point_size_of A sid) @ concat xs), fs, db')"
    and "db_rep fs db' A"
proof -
  let ?ps = "point_size_of A sid"
  obtain db' where rd: "database_read_latest P fs db sid = Inr (fs, db', full_reader ?ps xs)" and rep': "db_rep fs db' A"
    using database_read_latest_at [OF assms(1,2), of sid] unfolding xs by blast
  note T = timeline_of_rep [OF assms(2), of sid] and run = process_read_latest [OF assms(5), of fuel P "(fs, db)"]
    request_fields(3) [OF assms(3,5)] send_answered [OF assms(4)]
  show thesis
  proof (cases "timeline_of A sid = []")
    case True
    with rd rep' run show thesis
      by (intro that [of db']) (simp_all add: handle_read_latest_def full_reader_def empty_reader_def read_response_create_empty xs)
  next
    case False
    then have "A sid \<noteq> None" by (auto simp: timeline_of_def split: option.splits)
    moreover have "all_len ?ps xs" using all_len_subset [OF _ T(2), of xs] False by (simp add: xs)
    moreover have "?ps < 2 ^ 63" using T(3) \<open>A sid \<noteq> None\<close> by simp
    ultimately have "all_len ?ps xs" "8 \<le> ?ps" "length xs * ?ps < 2 ^ 63" using T(3) False by (simp_all add: xs)
    from reader_packet [OF this, of 1] False rd rep' run show thesis
      by (intro that [of db']) (auto simp: handle_read_latest_def full_reader_def xs)
  qed
qed

section \<open>Properties\<close>

text \<open>The network side of the witnesses: small packets, no failing call.\<close>

definition sample_net :: net_platform where
  "sample_net = platform.extend (posix 64)
     \<lparr>uv_write_status = (\<lambda>_. 0), uv_bind_status = 0, uv_listen_status = 0, uv_run_status = 0,
      packet_max_len = 600, max_clients = 4, read_max_payload = 300\<rparr>"

lemma sample_net_simps [simp]:
  "platform_ok sample_net" "uv_write_status sample_net k = 0" "packet_max_len sample_net = 600"
  "read_max_payload sample_net = 300" "max_clients sample_net = 4" "file_grow_increment sample_net = 64"
  using stable.c_qsort_axioms
  by (simp_all add: sample_net_def platform_ok_def posix_def platform.extend_def)

lemma sample_accepts: "db_accepts sample_net sample_files sample_db sample_map 7 16 [sample 15 3]"
proof -
  have "length (contents sample_inode) = 64"
    using length_concat_slots [of 16 "[sample 10 1, sample 20 2]" 4] by (simp add: sample_inode_def)
  then have "stored_size sample_net sample_files (series_path sample_db 7 16) = 64"
    by (simp add: stored_size_def sample_files_def flip: sample_path)
  then show ?thesis
    by (simp add: db_accepts_def db_opens_def sample_db_simps sample_map_def point_size_of_def growth_def)
qed

definition sample_client :: "bytes \<Rightarrow> client" where
  "sample_client p = \<lparr>socket = 0, index = 0, buffer = packet_create p, buffer_length = 8 + length p, sent = [], writes = 0\<rparr>"

lemma sample_request [simp]: "request_in (sample_client p) p"
  unfolding request_in_def sample_client_def packet_create_def
  by (rule exI [of _ "le_enc 4 SDB_SERVER_MAGIC @ le_enc 4 (sizeof_packet + length p)"]) (simp del: le_enc.simps)

lemma length_sample_client [simp]: "length (buffer (sample_client p)) = 8 + length p"
  by (simp add: sample_client_def)

text \<open>
  A read request is answered by a stream of packets that together carry exactly the points
  of the requested interval, in order, as many per packet as fit, followed by one packet without
  points; the loop ends, and the database is unchanged.
\<close>

lemma read_request_streams:
  assumes "platform_ok P" and "db_rep fs db A" and "A sid = Some (ps, cs)" and "b \<le> e" and "sid < 2 ^ 32"
    and "\<And>k. uv_write_status P k \<ge> 0" and "read_max_payload P < 2 ^ 32" and "length (window b e cs) < fuel"
    and "request_in c (read_request_create sid b e)"
  shows "\<exists>c' db' pages. client_handler_process_message fuel P c (Ptr 8) 21 (fs, db) = Inr (0, c', fs, db') \<and>
           db_rep fs db' A \<and> sent c' = sent c @ map (response_frame ps) (pages @ [[]]) \<and>
           concat pages = window b e cs \<and> (\<forall>xs\<in>set pages. xs \<noteq> [] \<and> length xs \<le> max 1 (read_max_payload P div ps))"
  using handle_read_ok [OF assms] by metis

lemma read_request_streams_example:
  "\<exists>c' db' pages. client_handler_process_message 3 sample_net (sample_client (read_request_create 7 0 30)) (Ptr 8) 21
       (sample_files, sample_db) = Inr (0, c', sample_files, db') \<and>
     db_rep sample_files db' sample_map \<and>
     sent c' = sent (sample_client (read_request_create 7 0 30)) @ map (response_frame 16) (pages @ [[]]) \<and>
     concat pages = window 0 30 [sample 10 1, sample 20 2] \<and>
     (\<forall>xs\<in>set pages. xs \<noteq> [] \<and> length xs \<le> max 1 (read_max_payload sample_net div 16))"
  by (rule read_request_streams [OF _ sample_db_rep, where sid = 7]) (simp_all add: sample_map_def window_def)

text \<open>
  A write request whose batch the database accepts is merged into the series and answered
  with \<^verbatim>\<open>SDB_RESPONSE_OK\<close>; in the receive buffer only the batch itself may have been reordered.
\<close>

lemma write_request_stores:
  assumes "platform_ok P" and "db_rep fs db A" and "\<And>k. uv_write_status P k \<ge> 0"
    and "request_in c (write_payload sid ps bs)" and "sid < 2 ^ 32" and "8 \<le> ps" and "ps < 2 ^ 32"
    and "all_len ps bs" and "length (buffer c) < 2 ^ 63" and "db_accepts P fs db A sid ps bs"
  shows "\<exists>c' fs' db' cs'.
           client_handler_process_message fuel P c (Ptr 8) (length (write_payload sid ps bs)) (fs, db) = Inr (0, c', fs', db') \<and>
           db_rep fs' db' (A(sid \<mapsto> (ps, cs'))) \<and>
           pmap cs' = pmap (timeline_of A sid) ++ last_wins (qsort P point_cmp bs) \<and>
           sent c' = sent c @ [packet_create (simple_response_create SDB_RESPONSE_OK)] \<and>
           take 8 (buffer c') = take 8 (buffer c) \<and>
           drop (8 + length (write_payload sid ps bs)) (buffer c') = drop (8 + length (write_payload sid ps bs)) (buffer c)"
proof -
  obtain fs' db' c' where h:
    "client_handler_process_message fuel P c (Ptr 8) (length (write_payload sid ps bs)) (fs, db) = Inr (0, c', fs', db')"
    "db_rep fs' db' (A(sid \<mapsto> (ps, merge_pts (prepared P bs) (timeline_of A sid))))"
    "handled c (write_payload sid ps bs) [packet_create (simple_response_create SDB_RESPONSE_OK)] c'"
    using handle_write_ok [OF assms] by metis
  note Q = prepared_props [OF platform_ok_qsort [OF assms(1)], where bs = bs]
  have "pmap (merge_pts (prepared P bs) (timeline_of A sid)) = pmap (timeline_of A sid) ++ last_wins (qsort P point_cmp bs)"
    using pmap_merge_pts [OF Q(1) timeline_of_rep(1) [OF assms(2)]] Q(5) by simp
  with h show ?thesis unfolding handled_def by blast
qed

lemma write_request_stores_example:
  "\<exists>c' fs' db' cs'.
     client_handler_process_message 0 sample_net (sample_client (write_payload 7 16 [sample 15 3])) (Ptr 8)
       (length (write_payload 7 16 [sample 15 3])) (sample_files, sample_db) = Inr (0, c', fs', db') \<and>
     db_rep fs' db' (sample_map(7 \<mapsto> (16, cs'))) \<and>
     pmap cs' = pmap (timeline_of sample_map 7) ++ last_wins (qsort sample_net point_cmp [sample 15 3]) \<and>
     sent c' = sent (sample_client (write_payload 7 16 [sample 15 3])) @ [packet_create (simple_response_create SDB_RESPONSE_OK)] \<and>
     take 8 (buffer c') = take 8 (buffer (sample_client (write_payload 7 16 [sample 15 3]))) \<and>
     drop (8 + length (write_payload 7 16 [sample 15 3])) (buffer c')
       = drop (8 + length (write_payload 7 16 [sample 15 3])) (buffer (sample_client (write_payload 7 16 [sample 15 3])))"
  by (rule write_request_stores [OF _ sample_db_rep]) (simp_all add: sample_accepts)



end
