(* ===== verification/Service.thy ===== *)
theory Service
  imports ClientHandler
begin

text \<open>
  What the server promises its clients: the four requests as commands on a map from series ids to
  timelines, each with its effect and its answer.  The locale \<open>service\<close> states what a packet handler
  has to do to keep such a promise, and shows that a server with that handler keeps it for every
  history of requests; it is interpreted on the request handler of ShakaDB.
\<close>

section \<open>Commands\<close>

type_synonym timelines = "nat \<rightharpoonup> nat \<times> point list"

datatype command =
    Read nat timestamp timestamp
  | Write nat nat "point list"
  | Truncate nat
  | ReadLatest nat

fun payload :: "command \<Rightarrow> bytes" where
  "payload (Read sid b e) = read_request_create sid b e"
| "payload (Write sid ps bs) = write_payload sid ps bs"
| "payload (Truncate sid) = truncate_request_create sid"
| "payload (ReadLatest sid) = read_latest_request_create sid"

text \<open>
  The effect of a command, for a table of \<open>m\<close> series.  A write to an id beyond the table, or of another
  point size, is refused; one without a point at a time other than 0 is refused as well, but only
  after the series has been created.
\<close>

definition refused :: "nat \<Rightarrow> timelines \<Rightarrow> nat \<Rightarrow> nat \<Rightarrow> bool" where
  "refused m A sid ps \<longleftrightarrow> m \<le> sid \<or> A sid \<noteq> None \<and> point_size_of A sid \<noteq> ps"

fun effect :: "'a platform_scheme \<Rightarrow> nat \<Rightarrow> timelines \<Rightarrow> command \<Rightarrow> timelines" where
  "effect P m A (Write sid ps bs) =
     (if refused m A sid ps then A else A(sid \<mapsto> (ps, merge_pts (prepared P bs) (timeline_of A sid))))"
| "effect P m A (Truncate sid) = A(sid := None)"
| "effect P m A (Read sid b e) = A"
| "effect P m A (ReadLatest sid) = A"

text \<open>
  The answer, as the list of frames: a status to a write and to a truncation, one response for the
  latest point, and for an interval the responses that carry it, closed by an empty one.
\<close>

definition status_frame :: "bool \<Rightarrow> bytes" where
  "status_frame ok = packet_create (simple_response_create (if ok then SDB_RESPONSE_OK else SDB_RESPONSE_ERROR))"

fun answer :: "'a net_platform_scheme \<Rightarrow> nat \<Rightarrow> timelines \<Rightarrow> command \<Rightarrow> bytes list" where
  "answer P m A (Write sid ps bs) =
     [status_frame (\<not> refused m A sid ps \<and> (\<exists>b\<in>set bs. point_time b \<noteq> 0))]"
| "answer P m A (Truncate sid) = [status_frame True]"
| "answer P m A (Read sid b e) =
     (case A sid of
        None \<Rightarrow> [response_frame 0 []]
      | Some (ps, cs) \<Rightarrow>
          if e < b then [response_frame 0 []]
          else map (response_frame ps) (chunks (max 1 (read_max_payload P div ps)) (window b e cs) @ [[]]))"
| "answer P m A (ReadLatest sid) =
     [response_frame (point_size_of A sid) (if timeline_of A sid = [] then [] else [last (timeline_of A sid)])]"

section \<open>Histories\<close>

text \<open>
  A history is a list of commands, each with the client that sends it.  What it leaves, what every
  client is sent, and whether each of its commands is allowed where it stands, for any notion of
  state and command.
\<close>

fun final_state :: "('s \<Rightarrow> 'q \<Rightarrow> 's) \<Rightarrow> 's \<Rightarrow> (nat \<times> 'q) list \<Rightarrow> 's" where
  "final_state eff s [] = s"
| "final_state eff s ((i, q) # h) = final_state eff (eff s q) h"

fun replies :: "('s \<Rightarrow> 'q \<Rightarrow> 's) \<Rightarrow> ('s \<Rightarrow> 'q \<Rightarrow> bytes list) \<Rightarrow> 's \<Rightarrow> (nat \<times> 'q) list \<Rightarrow> nat \<Rightarrow> bytes list" where
  "replies eff ans s [] j = []"
| "replies eff ans s ((i, q) # h) j = (if i = j then ans s q else []) @ replies eff ans (eff s q) h j"

fun all_allowed :: "('s \<Rightarrow> 'q \<Rightarrow> bool) \<Rightarrow> ('s \<Rightarrow> 'q \<Rightarrow> 's) \<Rightarrow> 's \<Rightarrow> (nat \<times> 'q) list \<Rightarrow> bool" where
  "all_allowed ok eff s [] = True"
| "all_allowed ok eff s ((i, q) # h) \<longleftrightarrow> ok s q \<and> all_allowed ok eff (eff s q) h"

abbreviation request :: "nat \<Rightarrow> bytes \<Rightarrow> event" where
  "request i p \<equiv> DataRead i (int (length (packet_create p))) (packet_create p)"

text \<open>A connection on which nothing is waiting at either end.\<close>

definition idle :: "'a net_platform_scheme \<Rightarrow> client \<Rightarrow> bool" where
  "idle P c \<longleftrightarrow> length (buffer c) = packet_max_len P + SDB_SERVER_READ_BUFFER_MAX_LEN \<and> buffer_length c = 0"

lemma idle_request:
  assumes "idle P c" and "8 + length p \<le> packet_max_len P" and "packet_max_len P < 2 ^ 32"
  shows "request_in (received c (packet_create p)) p" and "length (buffer (received c (packet_create p))) < 2 ^ 63"
    and "sent (received c (packet_create p)) = sent c"
proof -
  have b: "buffer (received c (packet_create p)) = packet_create p @ drop (length (packet_create p)) (buffer c)"
    using assms(1) by (simp add: received_def stream_def idle_def)
  show "request_in (received c (packet_create p)) p"
    unfolding request_in_def b
    by (rule exI [of _ "le_enc 4 SDB_SERVER_MAGIC @ le_enc 4 (sizeof_packet + length p)"])
      (simp add: packet_create_def del: le_enc.simps)
  show "length (buffer (received c (packet_create p))) < 2 ^ 63"
    unfolding b using assms by (simp add: idle_def SDB_SERVER_READ_BUFFER_MAX_LEN_def)
qed (simp add: received_def)

lemma server_idle: "server_ok P sv \<Longrightarrow> conn sv i = Some c \<Longrightarrow> buffer_length c = 0 \<Longrightarrow> idle P c"
  using server_okD(2) by (fastforce simp: idle_def client_ok_def)

section \<open>The contract\<close>

locale service = handler_contract handler
  for handler :: "'h packet_handler" +
  fixes P :: "'a net_platform_scheme" and rep :: "'h \<Rightarrow> 's \<Rightarrow> bool" and ok :: "'s \<Rightarrow> 'q \<Rightarrow> bool"
    and eff :: "'s \<Rightarrow> 'q \<Rightarrow> 's" and ans :: "'s \<Rightarrow> 'q \<Rightarrow> bytes list" and pay :: "'q \<Rightarrow> bytes"
  assumes fits: "rep h s \<Longrightarrow> ok s q \<Longrightarrow> 8 + length (pay q) \<le> packet_max_len P \<and> packet_max_len P < 2 ^ 32"
    and served: "rep h s \<Longrightarrow> ok s q \<Longrightarrow> request_in c (pay q) \<Longrightarrow> length (buffer c) < 2 ^ 63 \<Longrightarrow>
      \<exists>c' h'. handler c (Ptr 8) (length (pay q)) h = Inr (0, c', h') \<and> rep h' (eff s q) \<and> handled c (pay q) (ans s q) c'"
begin

lemma request_event:
  assumes sv: "server_ok P sv" "rep (handler_context sv) s" and c: "conn sv i = Some c" "buffer_length c = 0" and q: "ok s q"
  obtains sv' c' where "handle_event P handler sv (request i (pay q)) = Inr sv'" and "server_ok P sv'"
    and "rep (handler_context sv') (eff s q)" and "conn sv' = (conn sv)(i \<mapsto> c')" and "buffer_length c' = 0"
    and "sent c' = sent c @ ans s q"
proof -
  let ?c = "received c (packet_create (pay q))"
  note f = fits [OF sv(2) q]
  note R = idle_request [OF server_idle [OF sv(1) c] conjunct1 [OF f] conjunct2 [OF f]]
  obtain c2 h2 where run: "handler ?c (Ptr 8) (length (pay q)) (handler_context sv) = Inr (0, c2, h2)"
    and rep: "rep h2 (eff s q)" and d: "handled ?c (pay q) (ans s q) c2"
    using served [OF sv(2) q R(1,2)] by blast
  from frame_served [OF sv(1) c _ _ run] f d that rep R(3) show thesis
    unfolding handled_def by metis
qed

lemma history:
  assumes "server_ok P sv" and "rep (handler_context sv) s"
    and "\<And>i. i \<in> fst ` set h \<Longrightarrow> \<exists>c. conn sv i = Some c \<and> buffer_length c = 0"
    and "all_allowed ok eff s h"
  shows "\<exists>sv'. event_loop P handler sv (map (\<lambda>(i, q). request i (pay q)) h) = Inr sv' \<and> server_ok P sv' \<and>
           rep (handler_context sv') (final_state eff s h) \<and>
           (\<forall>j c. conn sv j = Some c \<longrightarrow> (\<exists>c'. conn sv' j = Some c' \<and> sent c' = sent c @ replies eff ans s h j))"
  using assms
proof (induction h arbitrary: sv s)
  case (Cons x h)
  obtain i q where x: "x = (i, q)" by (cases x)
  obtain c where c: "conn sv i = Some c" "buffer_length c = 0" using Cons.prems(3) [of i] x by auto
  have q: "ok s q" "all_allowed ok eff (eff s q) h" using Cons.prems(4) x by simp_all
  obtain sv1 c1 where e: "handle_event P handler sv (request i (pay q)) = Inr sv1"
    and sv1: "server_ok P sv1" "rep (handler_context sv1) (eff s q)" "conn sv1 = (conn sv)(i \<mapsto> c1)"
    and c1: "buffer_length c1 = 0" "sent c1 = sent c @ ans s q"
    using request_event [OF Cons.prems(1,2) c q(1)] by metis
  have "\<exists>c. conn sv1 j = Some c \<and> buffer_length c = 0" if "j \<in> fst ` set h" for j
    using Cons.prems(3) [of j] that sv1(3) c1(1) by (cases "j = i") auto
  from Cons.IH [OF sv1(1,2) this q(2)] obtain sv' where
    sv': "event_loop P handler sv1 (map (\<lambda>(i, q). request i (pay q)) h) = Inr sv'" "server_ok P sv'"
      "rep (handler_context sv') (final_state eff (eff s q) h)"
    and out: "\<And>j c. conn sv1 j = Some c \<Longrightarrow> \<exists>c'. conn sv' j = Some c' \<and> sent c' = sent c @ replies eff ans (eff s q) h j"
    by blast
  have "\<exists>c'. conn sv' j = Some c' \<and> sent c' = sent d @ replies eff ans s (x # h) j" if "conn sv j = Some d" for j d
    using out [of j] that sv1(3) c1(2) c(1) x by (cases "j = i") auto
  with sv' e x show ?case by (simp del: handle_event.simps)
qed simp

end

end
