(* ===== verification/Requests.thy ===== *)
theory Requests
  imports Service
begin

text \<open>
  The request handler keeps the promise of \<open>Service\<close>: every command, from the event that delivers
  it through the handler and the database to the answer on the connection.
\<close>

abbreviation shakadb :: "nat \<Rightarrow> 'a net_platform_scheme \<Rightarrow> store packet_handler" where
  "shakadb fuel P \<equiv> client_handler_process_message fuel P"

section \<open>The setup of the database\<close>

lemma read_loop_config:
  "read_loop fuel P c sid b e n st = Inr (c', st') \<Longrightarrow> db_config (snd st') = db_config (snd st)"
proof (induction fuel arbitrary: c b st)
  case (Suc fuel)
  from Suc.prems obtain fs1 db1 reader where rd: "database_read P (fst st) (snd st) sid b e (u64 (n + 1)) = Inr (fs1, db1, reader)"
    and "st' = (fs1, db1) \<or> (\<exists>c1 b'. read_loop fuel P c1 sid b' e n (fs1, db1) = Inr (c', st'))"
    by (simp add: Let_def del: sdb_min_eq split: prod.splits if_splits)
      ((elim bindR_InrE; auto split: if_splits prod.splits elim!: bindR_InrE), blast+)
  with Suc.IH database_config(4) [OF rd] show ?case by fastforce
qed simp

lemma process_config:
  assumes "shakadb fuel P c p n st = Inr (r, c', st')"
  shows "db_config (snd st') = db_config (snd st)"
proof -
  have wrote: "db_config (snd st1) = db_config (snd st)" if "handle_write P c p st = Inr (c1, st1)" for c1 st1
    using that by (auto simp: handle_write_def Let_def elim!: bindR_InrE dest: database_config(1))
  have trunc: "db_config (snd st1) = db_config (snd st)" if "handle_truncate P c p st = Inr (c1, st1)" for c1 st1
    using that by (auto simp: handle_truncate_def elim!: bindR_InrE dest: database_config(2))
  have latest: "db_config (snd st1) = db_config (snd st)" if "handle_read_latest P c p st = Inr (c1, st1)" for c1 st1
    using that by (auto simp: handle_read_latest_def elim!: bindR_InrE dest: database_config(5))
  have did_read: "db_config (snd st1) = db_config (snd st)" if "handle_read fuel P c p st = Inr (c1, st1)" for c1 st1
    using that by (auto simp: handle_read_def elim!: bindR_InrE split: if_splits
        dest!: database_config(3) read_loop_config)
  from assms show ?thesis
    by (auto simp: client_handler_process_message_def split: if_splits elim!: bindR_InrE)
      (drule did_read wrote trunc latest, simp)+
qed

lemma data_received_config:
  "data_received P (shakadb fuel P) c d st = Inr (x, c', st') \<Longrightarrow> db_config (snd st') = db_config (snd st)"
  by (auto simp: data_received_def Let_def elim!: bindR_InrE split: if_splits dest!: process_config)

lemma event_config:
  assumes "handle_event P (shakadb fuel P) sv e = Inr sv'"
  shows "db_config (snd (handler_context sv')) = db_config (snd (handler_context sv))"
proof (cases e)
  case (DataRead i nread d)
  with assms show ?thesis
    by (auto simp: on_data_read_def client_disconnect_and_destroy_def Let_def elim!: bindR_InrE
        split: option.splits if_splits disposition.splits dest!: data_received_config)
next
  case Shutdown
  with assms show ?thesis
    by (auto simp: on_server_shutdown_def elim!: bindR_InrE split: if_splits dest!: disconnect_all_context)
qed (use assms in \<open>auto simp: on_client_free_def server_stop_def dest!: connected_context\<close>)

section \<open>Every command is served\<close>

text \<open>
  The abstract state is the map of timelines with a bound on the sizes of all files, which every
  write may raise by what \<^verbatim>\<open>series_grow\<close> appends for its batch.
\<close>

definition represents :: "'a net_platform_scheme \<Rightarrow> nat \<Rightarrow> store \<Rightarrow> timelines \<times> nat \<Rightarrow> bool" where
  "represents P m st s \<longleftrightarrow>
     platform_ok P \<and> (\<forall>k. uv_write_status P k \<ge> 0) \<and> packet_max_len P < 2 ^ 32 \<and> 29 \<le> packet_max_len P \<and>
     read_max_payload P < 2 ^ 32 \<and> db_rep (fst st) (snd st) (fst s) \<and> max_series_count (snd st) = m \<and>
     files_within (snd s) (fst st) \<and> file_grow_increment P \<le> snd s"

fun growth_cost :: "'a platform_scheme \<Rightarrow> command \<Rightarrow> nat" where
  "growth_cost P (Write sid ps bs) = growth P ps (length bs)"
| "growth_cost P q = 0"

text \<open>
  What a command needs to be served.  An id is a 32-bit number; a read needs fuel for its loop; a
  batch has to fit a packet, consist of points of the size it says, with times below the two
  largest ones, and where it makes a new series the point size has to fit a file.
\<close>

fun well_formed :: "nat \<Rightarrow> 'a net_platform_scheme \<Rightarrow> nat \<Rightarrow> timelines \<Rightarrow> command \<Rightarrow> bool" where
  "well_formed fuel P m A (Read sid b e) \<longleftrightarrow> sid < 2 ^ 32 \<and> length (timeline_of A sid) < fuel"
| "well_formed fuel P m A (Write sid ps bs) \<longleftrightarrow>
     sid < 2 ^ 32 \<and> 8 \<le> ps \<and> ps < 2 ^ 32 \<and> all_len ps bs \<and> 25 + length (concat bs) \<le> packet_max_len P \<and>
     (\<forall>b\<in>set bs. point_time b < 0xFFFFFFFFFFFFFFFE) \<and>
     (sid < m \<and> A sid = None \<longrightarrow> ps < 2 ^ 31 \<and> ps \<le> file_grow_increment P)"
| "well_formed fuel P m A (Truncate sid) \<longleftrightarrow> sid < 2 ^ 32"
| "well_formed fuel P m A (ReadLatest sid) \<longleftrightarrow> sid < 2 ^ 32"

definition permitted :: "nat \<Rightarrow> 'a net_platform_scheme \<Rightarrow> nat \<Rightarrow> timelines \<times> nat \<Rightarrow> command \<Rightarrow> bool" where
  "permitted fuel P m s q \<longleftrightarrow> well_formed fuel P m (fst s) q \<and> snd s + growth_cost P q < 2 ^ 63"

definition service_step :: "'a net_platform_scheme \<Rightarrow> nat \<Rightarrow> timelines \<times> nat \<Rightarrow> command \<Rightarrow> timelines \<times> nat" where
  "service_step P m s q = (effect P m (fst s) q, snd s + growth_cost P q)"

text \<open>One command, in the buffer of its client.\<close>

definition serves :: "nat \<Rightarrow> 'a net_platform_scheme \<Rightarrow> nat \<Rightarrow> store \<Rightarrow> timelines \<times> nat \<Rightarrow> command \<Rightarrow> client \<Rightarrow> bool" where
  "serves fuel P m st s q c \<longleftrightarrow> (\<exists>c' st'. shakadb fuel P c (Ptr 8) (length (payload q)) st = Inr (0, c', st') \<and>
     represents P m st' (service_step P m s q) \<and> handled c (payload q) (answer P m (fst s) q) c')"

lemma servesI:
  assumes "represents P m st s" and run: "shakadb fuel P c (Ptr 8) (length (payload q)) st = Inr (0, c', fs', db')"
    and "db_rep fs' db' (effect P m (fst s) q)" and "files_within (snd s + growth_cost P q) fs'"
    and "handled c (payload q) (answer P m (fst s) q) c'"
  shows "serves fuel P m st s q c"
proof -
  have "max_series_count db' = max_series_count (snd st)" using process_config [OF run] by (simp add: db_config_def)
  with assms show ?thesis by (auto simp: serves_def represents_def service_step_def)
qed

lemma length_requests [simp]:
  "length (read_request_create sid b e) = 21" "length (truncate_request_create sid) = 5"
  "length (read_latest_request_create sid) = 5"
  by (simp_all add: read_request_create_def truncate_request_create_def read_latest_request_create_def)

lemma representsD:
  assumes "represents P m (fs, db) (A, N)"
  shows "platform_ok P" and "\<And>k. uv_write_status P k \<ge> 0" and "read_max_payload P < 2 ^ 32" and "db_rep fs db A"
    and "max_series_count db = m" and "files_within N fs" and "file_grow_increment P \<le> N"
  using assms by (simp_all add: represents_def)

lemma read_served:
  assumes rep: "represents P m (fs, db) (A, N)" and q: "permitted fuel P m (A, N) (Read sid b e)"
    and req: "request_in c (read_request_create sid b e)"
  shows "serves fuel P m (fs, db) (A, N) (Read sid b e) c"
proof -
  note R = representsD [OF rep]
  have sid: "sid < 2 ^ 32" and fuel: "length (timeline_of A sid) < fuel" using q by (simp_all add: permitted_def)
  show ?thesis
  proof (cases "A sid")
    case None
    obtain db' where run: "shakadb fuel P c (Ptr 8) 21 (fs, db) = Inr (0, answered c (response_header_bytes 0 0), fs, db')"
      and "db_rep fs db' A" using handle_read_none [OF R(1,4) None sid R(2) req] by blast
    then show ?thesis using R(6) None handled_answered [of c _ "response_header_bytes 0 0"]
      by (intro servesI [OF rep, where fs' = fs and db' = db']) (simp_all add: response_frame_def)
  next
    case (Some a)
    then obtain ps cs where a: "A sid = Some (ps, cs)" by (cases a) auto
    show ?thesis
    proof (cases "e < b")
      case True
      have "0 < fuel" using fuel by simp
      then obtain db' where "shakadb fuel P c (Ptr 8) 21 (fs, db) = Inr (0, answered c (response_header_bytes 0 0), fs, db')"
        "db_rep fs db' A" using handle_read_backwards [OF R(1,4) a True sid R(2,3) _ req] by blast
      then show ?thesis using R(6) a True handled_answered [of c _ "response_header_bytes 0 0"]
        by (intro servesI [OF rep, where fs' = fs and db' = db']) (simp_all add: response_frame_def)
    next
      case False
      then have be: "b \<le> e" by simp
      have "length (window b e cs) \<le> length cs" unfolding window_def by (rule length_filter_le)
      then have "length (window b e cs) < fuel" using fuel a by (simp add: timeline_of_def)
      from handle_read_pages [OF R(1,4) a be sid R(2,3) this req] obtain c' db' where
        "shakadb fuel P c (Ptr 8) 21 (fs, db) = Inr (0, c', fs, db')" "db_rep fs db' A" "same_client c c'" "buffer c' = buffer c"
        "sent c' = sent c @ map (response_frame ps) (chunks (max 1 (read_max_payload P div ps)) (window b e cs) @ [[]])"
        by blast
      with R(6) a False show ?thesis
        by (intro servesI [OF rep, where c' = c' and fs' = fs and db' = db']) (simp_all add: handled_def)
    qed
  qed
qed

lemma latest_served:
  assumes rep: "represents P m (fs, db) (A, N)" and q: "permitted fuel P m (A, N) (ReadLatest sid)"
    and req: "request_in c (read_latest_request_create sid)"
  shows "serves fuel P m (fs, db) (A, N) (ReadLatest sid) c"
proof -
  note R = representsD [OF rep]
  have sid: "sid < 2 ^ 32" using q by (simp add: permitted_def)
  define xs where "xs = (if timeline_of A sid = [] then [] else [last (timeline_of A sid)])"
  let ?p = "response_header_bytes (length xs) (point_size_of A sid) @ concat xs"
  obtain db' where "shakadb fuel P c (Ptr 8) 5 (fs, db) = Inr (0, answered c ?p, fs, db')" "db_rep fs db' A"
    using handle_latest_ok [OF R(1,4) sid R(2) req xs_def] by blast
  then show ?thesis using R(6) handled_answered [of c _ ?p]
    by (intro servesI [OF rep, where fs' = fs and db' = db']) (simp_all add: response_frame_def flip: xs_def)
qed

lemma truncate_served:
  assumes rep: "represents P m (fs, db) (A, N)" and q: "permitted fuel P m (A, N) (Truncate sid)"
    and req: "request_in c (truncate_request_create sid)"
  shows "serves fuel P m (fs, db) (A, N) (Truncate sid) c"
proof -
  note R = representsD [OF rep]
  have sid: "sid < 2 ^ 32" using q by (simp add: permitted_def)
  obtain fs' db' where "shakadb fuel P c (Ptr 8) 5 (fs, db) = Inr (0, answered c (simple_response_create SDB_RESPONSE_OK), fs', db')"
    "db_rep fs' db' (A(sid := None))" "files_within N fs'"
    using handle_truncate_ok [OF R(1,4) sid R(2) req, of fuel] R(6) by blast
  then show ?thesis using handled_answered [of c _ "simple_response_create SDB_RESPONSE_OK"]
    by (intro servesI [OF rep, where fs' = fs' and db' = db']) (simp_all add: status_frame_def)
qed

lemma write_served:
  assumes rep: "represents P m (fs, db) (A, N)" and q: "permitted fuel P m (A, N) (Write sid ps bs)"
    and req: "request_in c (write_payload sid ps bs)" and buf: "length (buffer c) < 2 ^ 63"
  shows "serves fuel P m (fs, db) (A, N) (Write sid ps bs) c"
proof -
  let ?w = "\<lparr>content = Ptr 25, count_pl = length bs, point_size = ps\<rparr>" and ?p = "write_payload sid ps bs"
  note R = representsD [OF rep]
  have w: "sid < 2 ^ 32" "8 \<le> ps" "ps < 2 ^ 32" "all_len ps bs" "\<forall>b\<in>set bs. point_time b < 0xFFFFFFFFFFFFFFFE"
    and new: "sid < m \<Longrightarrow> A sid = None \<Longrightarrow> ps < 2 ^ 31 \<and> ps \<le> file_grow_increment P"
    and N: "N + growth P ps (length bs) < 2 ^ 63" using q by (simp_all add: permitted_def)
  have inc: "file_grow_increment P < 2 ^ 63" using N R(7) by simp
  obtain pre post where W: "plist (buffer c) ?w pre bs post"
    and run: "\<And>status fs' db' w' tm'. database_write P fs db sid ?w (buffer c) = Inr (status, fs', db', w', tm') \<Longrightarrow>
      \<exists>c'. shakadb fuel P c (Ptr 8) (length ?p) (fs, db) = Inr (0, c', fs', db') \<and>
        handled c ?p [packet_create (simple_response_create (if status \<noteq> 0 then SDB_RESPONSE_ERROR else SDB_RESPONSE_OK))] c'"
    using handle_write_at [OF R(1,2) req w(1-4) buf] by blast
  have served: ?thesis if wr: "database_write P fs db sid ?w (buffer c) = Inr (status, fs', db', w', tm')"
    "db_rep fs' db' (effect P m A (Write sid ps bs))" "files_within (N + growth P ps (length bs)) fs'"
    "status = 0 \<longleftrightarrow> \<not> refused m A sid ps \<and> (\<exists>b\<in>set bs. point_time b \<noteq> 0)" for status fs' db' w' tm'
  proof -
    obtain c' where "shakadb fuel P c (Ptr 8) (length ?p) (fs, db) = Inr (0, c', fs', db')" "handled c ?p [status_frame (status = 0)] c'"
      using run [OF wr(1)] unfolding status_frame_def by (cases "status = 0") auto
    with wr(2-4) show ?thesis by (intro servesI [OF rep, where c' = c' and fs' = fs' and db' = db']) simp_all
  qed
  show ?thesis
  proof (cases "refused m A sid ps")
    case True
    then obtain db' where d: "database_write P fs db sid ?w (buffer c) = Inr (- 1, fs, db', ?w, buffer c)" and "db_rep fs db' A"
      using database_write_refused [OF R(1,4), of sid ?w "buffer c"] R(5) by (auto simp: refused_def)
    moreover have "files_within (N + growth P ps (length bs)) fs" using R(6) by (auto simp: files_within_def intro: trans_le_add1)
    ultimately show ?thesis using True by (intro served [OF d]) simp_all
  next
    case False
    then have op: "db_opens P db A sid (point_size ?w)" using R(5) new inc w(2) by (auto simp: refused_def db_opens_def)
    show ?thesis
    proof (cases "\<exists>b\<in>set bs. point_time b \<noteq> 0")
      case True
      have "stored_size P fs (series_path db sid ps) \<le> N"
        using R(6,7) by (auto simp: stored_size_def split: option.splits dest: files_withinD)
      then have acc: "db_accepts P fs db A sid (point_size ?w) bs" using op True w(5) N by (simp add: db_accepts_def)
      from database_write_at [OF R(1,4) W acc] R(6,7) obtain fs' db' w' tm' where
        d: "database_write P fs db sid ?w (buffer c) = Inr (0, fs', db', w', tm')"
        and "db_rep fs' db' (A(sid \<mapsto> (ps, merge_pts (prepared P bs) (timeline_of A sid))))"
        and "files_within (N + growth P ps (length bs)) fs'" by (metis points_list.select_convs(3))
      with False True show ?thesis by (intro served [OF d]) simp_all
    next
      case zero: False
      then have z: "\<forall>b\<in>set bs. point_time b = 0" by blast
      then have "prepared P bs = []" using prepared_props(6) [OF platform_ok_qsort [OF R(1)]] by blast
      moreover from database_write_zero [OF R(1,4) W op z] R(6,7) obtain fs' db' w' tm' where
        d: "database_write P fs db sid ?w (buffer c) = Inr (- 1, fs', db', w', tm')"
        and "db_rep fs' db' (A(sid \<mapsto> (ps, timeline_of A sid)))" and "files_within N fs'" by (metis points_list.select_convs(3))
      moreover from this(3) have "files_within (N + growth P ps (length bs)) fs'"
        by (auto simp: files_within_def intro: trans_le_add1)
      ultimately show ?thesis using False zero by (intro served [OF d]) simp_all
    qed
  qed
qed

interpretation shaka: service "client_handler_process_message fuel P" P "represents P m" "permitted fuel P m" "service_step P m"
    "\<lambda>s. answer P m (fst s)" payload for fuel P m
proof
  fix h s q
  assume "represents P m h s" and "permitted fuel P m s q"
  then show "8 + length (payload q) \<le> packet_max_len P \<and> packet_max_len P < 2 ^ 32"
    by (cases q) (simp_all add: represents_def permitted_def)
next
  fix h s q c
  assume a: "represents P m h s" "permitted fuel P m s q" "request_in c (payload q)" "length (buffer c) < 2 ^ 63"
  obtain fs db A N where h: "h = (fs, db)" and s: "s = (A, N)" by (cases h, cases s)
  have "serves fuel P m h s q c"
    using a unfolding h s by (cases q) (simp_all add: read_served write_served truncate_served latest_served)
  then show "\<exists>c' h'. client_handler_process_message fuel P c (Ptr 8) (length (payload q)) h = Inr (0, c', h') \<and>
      represents P m h' (service_step P m s q) \<and> handled c (payload q) (answer P m (fst s) q) c'"
    unfolding serves_def by blast
qed

section \<open>Requests through the server\<close>

text \<open>The map of what a write leaves behind.\<close>

lemma merged_map:
  assumes "platform_ok P" and "db_rep fs db A"
  shows "pmap (merge_pts (prepared P bs) (timeline_of A sid)) = pmap (timeline_of A sid) ++ last_wins (qsort P point_cmp bs)"
proof -
  note Q = prepared_props [OF platform_ok_qsort [OF assms(1)], where bs = bs]
  show ?thesis using pmap_merge_pts [OF Q(1) timeline_of_rep(1) [OF assms(2)]] Q(5) by simp
qed

lemma write_event:
  assumes P: "platform_ok P" "\<And>k. uv_write_status P k \<ge> 0" "packet_max_len P < 2 ^ 32"
    and sv: "server_ok P sv" "handler_context sv = (fs, db)" "db_rep fs db A"
    and c: "conn sv i = Some c" "buffer_length c = 0"
    and w: "sid < 2 ^ 32" "8 \<le> ps" "ps < 2 ^ 32" "all_len ps bs" "db_accepts P fs db A sid ps bs"
      "25 + length (concat bs) \<le> packet_max_len P"
  obtains sv' fs' db' c' where "handle_event P (shakadb fuel P) sv (request i (write_payload sid ps bs)) = Inr sv'"
    and "server_ok P sv'" and "handler_context sv' = (fs', db')"
    and "db_rep fs' db' (A(sid \<mapsto> (ps, merge_pts (prepared P bs) (timeline_of A sid))))"
    and "conn sv' = (conn sv)(i \<mapsto> c')" and "buffer_length c' = 0"
    and "sent c' = sent c @ [packet_create (simple_response_create SDB_RESPONSE_OK)]"
proof -
  let ?p = "write_payload sid ps bs"
  let ?c = "received c (packet_create ?p)"
  have p: "8 + length ?p \<le> packet_max_len P" using w(6) by (simp add: length_write_payload)
  note R = idle_request [OF server_idle [OF sv(1) c] p P(3)]
  obtain fs' db' c2 where run: "shakadb fuel P ?c (Ptr 8) (length ?p) (fs, db) = Inr (0, c2, fs', db')"
    and rep: "db_rep fs' db' (A(sid \<mapsto> (ps, merge_pts (prepared P bs) (timeline_of A sid))))"
    and d: "handled ?c ?p [packet_create (simple_response_create SDB_RESPONSE_OK)] c2"
    using handle_write_ok [OF P(1) sv(3) P(2) R(1) w(1-4) R(2) w(5)] by metis
  have run': "shakadb fuel P ?c (Ptr 8) (length ?p) (handler_context sv) = Inr (0, c2, fs', db')"
    using run sv(2) by simp
  from messages.frame_served [OF sv(1) c p P(3) run'] d rep R(3) that show thesis unfolding handled_def by metis
qed

lemma read_event:
  assumes P: "platform_ok P" "\<And>k. uv_write_status P k \<ge> 0" "packet_max_len P < 2 ^ 32" "29 \<le> packet_max_len P"
      "read_max_payload P < 2 ^ 32"
    and sv: "server_ok P sv" "handler_context sv = (fs, db)" "db_rep fs db A"
    and c: "conn sv i = Some c" "buffer_length c = 0"
    and r: "A sid = Some (ps, cs)" "sid < 2 ^ 32" "b \<le> e" "length (window b e cs) < fuel"
  obtains sv' db' c' pages where "handle_event P (shakadb fuel P) sv (request i (read_request_create sid b e)) = Inr sv'"
    and "server_ok P sv'" and "handler_context sv' = (fs, db')" and "db_rep fs db' A"
    and "conn sv' = (conn sv)(i \<mapsto> c')" and "buffer_length c' = 0"
    and "sent c' = sent c @ map (response_frame ps) (pages @ [[]])" and "concat pages = window b e cs"
proof -
  let ?p = "read_request_create sid b e"
  let ?c = "received c (packet_create ?p)"
  have l: "length ?p = 21" by (simp add: read_request_create_def)
  then have p: "8 + length ?p \<le> packet_max_len P" using P(4) by simp
  note R = idle_request [OF server_idle [OF sv(1) c] p P(3)]
  obtain c2 db' pages where run: "shakadb fuel P ?c (Ptr 8) 21 (fs, db) = Inr (0, c2, fs, db')"
    and rep: "db_rep fs db' A" and buf: "buffer c2 = buffer ?c"
    and snt: "sent c2 = sent ?c @ map (response_frame ps) (pages @ [[]])" "concat pages = window b e cs"
    using handle_read_ok [OF P(1) sv(3) r(1,3,2) P(2,5) r(4) R(1)] by blast
  have run': "shakadb fuel P ?c (Ptr 8) (length ?p) (handler_context sv) = Inr (0, c2, fs, db')"
    using run sv(2) l by simp
  from messages.frame_served [OF sv(1) c p P(3) run'] buf rep snt R(3) that show thesis by metis
qed

end
