(* ===== verification/Session.thy ===== *)
theory Session
  imports Protocol
begin

text \<open>
  \<^verbatim>\<open>src/ctl/session.c\<close>: the client's side of the protocol over a blocking socket.  The other end of
  the connection is a parameter: a state, what it does with the bytes it gets, all it has sent
  so far, and whether it has closed.  So are the amounts \<^verbatim>\<open>send\<close> and \<^verbatim>\<open>recv\<close> transfer, which the
  kernel chooses, and the addresses a host name resolves to.
\<close>

section \<open>Sockets\<close>

record 'w wire =
  peer_step :: "'w \<Rightarrow> bytes \<Rightarrow> 'w"
  peer_output :: "'w \<Rightarrow> bytes"
  peer_closed :: "'w \<Rightarrow> bool"
  send_count :: "nat \<Rightarrow> nat \<Rightarrow> int"
  recv_count :: "nat \<Rightarrow> nat \<Rightarrow> int"
  alloc_ok :: "nat \<Rightarrow> bool"

text \<open>
  One connection: the state of the other end, how many of the bytes it sent have been received,
  how many calls of \<^verbatim>\<open>send\<close> and \<^verbatim>\<open>recv\<close> there have been, and whether this end is open.
\<close>

record 'w tcp =
  peer :: 'w
  taken :: nat
  sends :: nat
  recvs :: nat
  is_open :: bool

definition arrived :: "'w wire \<Rightarrow> 'w tcp \<Rightarrow> bytes" where
  "arrived W t = drop (taken t) (peer_output W (peer t))"

definition c_send :: "'w wire \<Rightarrow> 'w tcp \<Rightarrow> bytes \<Rightarrow> int \<times> 'w tcp" where
  "c_send W t data =
     (let k = send_count W (sends t) (length data); t1 = t\<lparr>sends := Suc (sends t)\<rparr>
      in if k > 0 then (k, t1\<lparr>peer := peer_step W (peer t) (take (nat k) data)\<rparr>) else (k, t1))"

text \<open>
  \<^verbatim>\<open>recv\<close> waits for data unless the other end has closed; what it then returns is at least one
  byte, unless it fails, and at most what was asked for.
\<close>

definition c_recv :: "'w wire \<Rightarrow> 'w tcp \<Rightarrow> nat \<Rightarrow> (int \<times> bytes \<times> 'w tcp) res" where
  "c_recv W t n =
     (if arrived W t = [] then
        (if peer_closed W (peer t) then Inr (0, [], t\<lparr>recvs := Suc (recvs t)\<rparr>) else Inl Blocked)
      else let k = recv_count W (recvs t) (min n (length (arrived W t))) in
        if k > 0 then
          let bs = take (min (nat k) n) (arrived W t)
          in Inr (int (length bs), bs, t\<lparr>taken := taken t + length bs, recvs := Suc (recvs t)\<rparr>)
        else Inr (k, [], t\<lparr>recvs := Suc (recvs t)\<rparr>))"

text \<open>The conversion to \<^verbatim>\<open>int\<close>.\<close>

definition s32 :: "int \<Rightarrow> int" where
  "s32 i = (let v = i mod 2 ^ 32 in if v < 2 ^ 31 then v else v - 2 ^ 32)"

lemma s32_id [wrap_simps]: "0 \<le> i \<Longrightarrow> i < 2 ^ 31 \<Longrightarrow> s32 i = i"
  by (simp add: s32_def)

function send_loop :: "'w wire \<Rightarrow> 'w tcp \<Rightarrow> bytes \<Rightarrow> 'w tcp" where
  "send_loop W t data =
     (if data = [] then t
      else let r = c_send W t data in
        if fst r > 0 then send_loop W (snd r) (drop (nat (fst r)) data) else snd r)"
  by auto

termination by (relation "measure (\<lambda>(W, t, data). length data)") auto

declare send_loop.simps [simp del]

definition socket_send :: "'w wire \<Rightarrow> 'w tcp \<Rightarrow> bytes option \<Rightarrow> 'w tcp" where
  "socket_send W t buffer = (case buffer of None \<Rightarrow> t | Some data \<Rightarrow> send_loop W t data)"

lemma c_recv_some: "c_recv W t n = Inr (k, bs, t1) \<Longrightarrow> 0 < k \<Longrightarrow> 0 < length bs \<and> length bs \<le> n"
  by (auto simp: c_recv_def Let_def min_le_iff_disj split: if_splits)

text \<open>
  \<open>got\<close> is what lies in the buffer before \<^verbatim>\<open>ptr\<close>; the total is an \<^verbatim>\<open>int\<close>.
\<close>

function receive_loop :: "'w wire \<Rightarrow> 'w tcp \<Rightarrow> nat \<Rightarrow> int \<Rightarrow> bytes \<Rightarrow> (int \<times> bytes \<times> 'w tcp) res" where
  "receive_loop W t n total_read got =
     (if n = 0 then Inr (total_read, got, t)
      else bindR (c_recv W t n) (\<lambda>r.
        if fst r > 0 then
          receive_loop W (snd (snd r)) (n - length (fst (snd r))) (s32 (total_read + fst r)) (got @ fst (snd r))
        else Inr (total_read, got, snd (snd r))))"
  by auto

termination
proof (relation "measure (\<lambda>(W, t, n, total, got). n)")
  fix W :: "'w wire" and t n and total :: int and got :: bytes and r
  assume "n \<noteq> 0" and "c_recv W t n = Inr r" and "0 < fst r"
  then show "((W, snd (snd r), n - length (fst (snd r)), s32 (total + fst r), got @ fst (snd r)), W, t, n, total, got)
      \<in> measure (\<lambda>(W, t, n, total, got). n)"
    using c_recv_some [of W t n "fst r" "fst (snd r)" "snd (snd r)"] by simp
qed simp

declare receive_loop.simps [simp del]

definition socket_receive :: "'w wire \<Rightarrow> 'w tcp \<Rightarrow> nat \<Rightarrow> (int \<times> bytes \<times> 'w tcp) res" where
  "socket_receive W t n = receive_loop W t n 0 []"

definition socket_close :: "'w tcp \<Rightarrow> 'w tcp" where
  "socket_close t = t\<lparr>is_open := False\<rparr>"

section \<open>Connecting\<close>

text \<open>
  \<open>getaddrinfo\<close> is \<open>None\<close> when it fails; \<open>open_socket\<close> is \<open>- 1\<close> where \<^verbatim>\<open>socket\<close> fails, and
  \<open>connect_status\<close> \<open>- 1\<close> where \<^verbatim>\<open>connect\<close> does.  Beside the descriptor, the descriptors that were
  closed again are returned.
\<close>

record 'a resolver =
  getaddrinfo :: "string \<Rightarrow> string \<Rightarrow> 'a list option"
  open_socket :: "'a \<Rightarrow> int"
  connect_status :: "'a \<Rightarrow> int"

fun connect_loop :: "'a resolver \<Rightarrow> 'a list \<Rightarrow> int \<Rightarrow> int list \<Rightarrow> int \<times> int list" where
  "connect_loop R [] sock closed = (sock, closed)"
| "connect_loop R (rp # rps) sock closed =
     (let s = open_socket R rp in
      if s = - 1 then connect_loop R rps s closed
      else if connect_status R rp \<noteq> - 1 then (s, closed)
      else connect_loop R rps (- 1) (closed @ [s]))"

definition socket_connect :: "'a resolver \<Rightarrow> string \<Rightarrow> int \<Rightarrow> int \<times> int list" where
  "socket_connect R server port =
     (case getaddrinfo R server (snprintf SDB_STR_MAX_LEN (dec_int port)) of
        None \<Rightarrow> (- 1, [])
      | Some result \<Rightarrow> connect_loop R result (- 1) [])"

lemma connect_loop_closed:
  "connect_loop R rps sock closed = (s, cl) \<Longrightarrow>
   \<exists>k \<le> length rps. cl = closed @ filter (\<lambda>x. x \<noteq> - 1) (map (open_socket R) (take k rps)) \<and>
     (s = - 1 \<or> s = sock \<and> rps = [] \<or> k < length rps \<and> s = open_socket R (rps ! k) \<and> connect_status R (rps ! k) \<noteq> - 1)"
proof (induction rps arbitrary: sock closed)
  case (Cons rp rps)
  show ?case
  proof (cases "open_socket R rp \<noteq> - 1 \<and> connect_status R rp \<noteq> - 1")
    case True
    with Cons.prems show ?thesis by (intro exI [of _ 0]) (auto simp: Let_def)
  next
    case False
    let ?closed = "closed @ (if open_socket R rp = - 1 then [] else [open_socket R rp])"
    have "connect_loop R rps (- 1) ?closed = (s, cl)" using Cons.prems False by (auto simp: Let_def split: if_splits)
    from Cons.IH [OF this] obtain k where "k \<le> length rps"
      "cl = ?closed @ filter (\<lambda>x. x \<noteq> - 1) (map (open_socket R) (take k rps))"
      "s = - 1 \<or> s = - 1 \<and> rps = [] \<or> k < length rps \<and> s = open_socket R (rps ! k) \<and> connect_status R (rps ! k) \<noteq> - 1"
      by blast
    then show ?thesis by (intro exI [of _ "Suc k"]) auto
  qed
qed auto

section \<open>Sessions\<close>

text \<open>A \<^verbatim>\<open>session_t\<close>; \<open>read_response\<close> is the payload of the last response to a read.\<close>

record 'w session =
  link :: "'w tcp"
  read_response :: "bytes option"
  read_open :: bool

text \<open>The descriptor stands for the connection it has been given, in the state \<open>t\<close>.\<close>

definition session_create :: "'a resolver \<Rightarrow> 'w tcp \<Rightarrow> string \<Rightarrow> int \<Rightarrow> 'w session option" where
  "session_create R t server port =
     (if fst (socket_connect R server port) = - 1 then None
      else Some \<lparr>link = t, read_response = None, read_open = False\<rparr>)"

definition session_destroy :: "'w session \<Rightarrow> 'w tcp" where
  "session_destroy ss = socket_close (link ss)"

definition session_send_and_destroy :: "'w wire \<Rightarrow> 'w session \<Rightarrow> bytes \<Rightarrow> 'w session" where
  "session_send_and_destroy W ss response =
     (let hdr = le_enc 4 SDB_SERVER_MAGIC @ le_enc 4 (sizeof_packet + length response);
          t1 = socket_send W (link ss) (Some hdr)
      in ss\<lparr>link := socket_send W t1 (Some response)\<rparr>)"

text \<open>
  An object that cannot be allocated leaves \<^verbatim>\<open>recv\<close> with a null pointer, which it refuses.  The
  comparison of the total with the size is between \<^verbatim>\<open>int\<close> and \<^verbatim>\<open>size_t\<close>.
\<close>

definition session_receive :: "'w wire \<Rightarrow> 'w session \<Rightarrow> nat \<Rightarrow> (bytes option \<times> 'w session) res" where
  "session_receive W ss type =
     bindR (socket_receive W (link ss) sizeof_packet) (\<lambda>(n, header, t1).
       let ss1 = ss\<lparr>link := t1\<rparr> in
       if n \<noteq> int sizeof_packet then Inr (None, ss1)
       else bindR (packet_at header (Ptr 0)) (\<lambda>pk.
         if magic pk \<noteq> SDB_SERVER_MAGIC then Inr (None, ss1)
         else let payload_size = u64_sub (total_size pk) sizeof_packet in
           if \<not> alloc_ok W payload_size then Inr (None, ss1)
           else bindR (socket_receive W t1 payload_size) (\<lambda>(m, payload, t2).
             let ss2 = ss\<lparr>link := t2\<rparr> in
             if nat (m mod 2 ^ 64) \<noteq> payload_size then Inr (None, ss2)
             else bindR (payload_type payload (Ptr 0)) (\<lambda>ty.
               if ty \<noteq> type then Inr (None, ss2)
               else bindR (payload_validate payload (Ptr 0) payload_size) (\<lambda>valid.
                 if \<not> valid then Inr (None, ss2) else Inr (Some payload, ss2))))))"

definition session_send_with_simple_response :: "'w wire \<Rightarrow> 'w session \<Rightarrow> bytes \<Rightarrow> (int \<times> 'w session) res" where
  "session_send_with_simple_response W ss req =
     bindR (session_receive W (session_send_and_destroy W ss req) SDB_SIMPLE_RESPONSE) (\<lambda>(response, ss1).
       case response of
         None \<Rightarrow> Inr (1, ss1)
       | Some payload \<Rightarrow>
           bindR (simple_response_code_at payload (Ptr 0)) (\<lambda>code.
             Inr (if code \<noteq> SDB_RESPONSE_OK then 1 else 0, ss1)))"

definition session_write :: "'w wire \<Rightarrow> 'w session \<Rightarrow> nat \<Rightarrow> points_list \<Rightarrow> bytes \<Rightarrow> (int \<times> 'w session) res" where
  "session_write W ss series_id points_arg m =
     (if read_open ss then Inr (- 1, ss)
      else bindR (write_request_create series_id points_arg m) (session_send_with_simple_response W ss))"

definition session_truncate :: "'w wire \<Rightarrow> 'w session \<Rightarrow> nat \<Rightarrow> (int \<times> 'w session) res" where
  "session_truncate W ss series_id =
     (if read_open ss then Inr (- 1, ss)
      else session_send_with_simple_response W ss (truncate_request_create series_id))"

definition session_read :: "'w wire \<Rightarrow> 'w session \<Rightarrow> nat \<Rightarrow> timestamp \<Rightarrow> timestamp \<Rightarrow> int \<times> 'w session" where
  "session_read W ss series_id begin fin =
     (if read_open ss then (- 1, ss)
      else (0, (session_send_and_destroy W ss (read_request_create series_id begin fin))\<lparr>read_open := True\<rparr>))"

definition session_read_next :: "'w wire \<Rightarrow> 'w session \<Rightarrow> (bool \<times> 'w session) res" where
  "session_read_next W ss =
     (if \<not> read_open ss then Inr (False, ss)
      else bindR (session_receive W (ss\<lparr>read_response := None\<rparr>) SDB_READ_RESPONSE) (\<lambda>(response, ss1).
        case response of
          None \<Rightarrow> Inr (False, ss1\<lparr>read_open := False\<rparr>)
        | Some payload \<Rightarrow>
            bindR (read_response_at payload (Ptr 0)) (\<lambda>r.
              if rp_points_count r = 0 then Inr (False, ss1\<lparr>read_open := False\<rparr>)
              else Inr (True, ss1\<lparr>read_response := Some payload\<rparr>))))"

definition session_read_latest :: "'w wire \<Rightarrow> 'w session \<Rightarrow> nat \<Rightarrow> int \<times> 'w session" where
  "session_read_latest W ss series_id =
     (if read_open ss then (- 1, ss)
      else (0, (session_send_and_destroy W ss (read_latest_request_create series_id))\<lparr>read_open := True\<rparr>))"

section \<open>The contract of the kernel\<close>

text \<open>
  \<^verbatim>\<open>send\<close> takes, and \<^verbatim>\<open>recv\<close> returns, at least one byte and at most what there is.
\<close>

locale transport =
  fixes W :: "'w wire"
  assumes send_some: "0 < n \<Longrightarrow> 0 < send_count W k n \<and> send_count W k n \<le> int n"
    and recv_some: "0 < n \<Longrightarrow> 0 < recv_count W k n \<and> recv_count W k n \<le> int n"
begin

lemma send_loop_pieces:
  "\<exists>ps. concat ps = data \<and> [] \<notin> set ps \<and>
     send_loop W t data = t\<lparr>peer := fold (\<lambda>d w. peer_step W w d) ps (peer t), sends := sends t + length ps\<rparr>"
proof (induction data arbitrary: t rule: length_induct)
  case (1 data)
  show ?case
  proof (cases "data = []")
    case True
    then show ?thesis by (intro exI [of _ "[]"]) (simp add: send_loop.simps)
  next
    case False
    define k where "k = nat (send_count W (sends t) (length data))"
    define t1 where "t1 = t\<lparr>sends := Suc (sends t), peer := peer_step W (peer t) (take k data)\<rparr>"
    have k: "0 < k" "k \<le> length data" using send_some [of "length data" "sends t"] False by (auto simp: k_def)
    have step: "send_loop W t data = send_loop W t1 (drop k data)"
      using False send_some [of "length data" "sends t"]
      by (subst send_loop.simps) (simp add: c_send_def Let_def t1_def k_def)
    obtain ps where "concat ps = drop k data" "[] \<notin> set ps"
      "send_loop W t1 (drop k data) = t1\<lparr>peer := fold (\<lambda>d w. peer_step W w d) ps (peer t1), sends := sends t1 + length ps\<rparr>"
      using "1.IH" k False by (metis diff_less length_drop length_greater_0_conv)
    with step k False show ?thesis by (intro exI [of _ "take k data # ps"]) (auto simp: t1_def)
  qed
qed

lemma receive_loop_exact:
  "n \<le> length (arrived W t) \<Longrightarrow> 0 \<le> sofar \<Longrightarrow> sofar + int n < 2 ^ 31 \<Longrightarrow>
   \<exists>m. receive_loop W t n sofar got
     = Inr (sofar + int n, got @ take n (arrived W t), t\<lparr>taken := taken t + n, recvs := m\<rparr>)"
proof (induction n arbitrary: t sofar got rule: less_induct)
  case (less n)
  show ?case
  proof (cases "n = 0")
    case True
    then show ?thesis by (intro exI [of _ "recvs t"]) (simp add: receive_loop.simps)
  next
    case False
    define k where "k = nat (recv_count W (recvs t) (min n (length (arrived W t))))"
    define t1 where "t1 = t\<lparr>taken := taken t + k, recvs := Suc (recvs t)\<rparr>"
    have k: "0 < k" "k \<le> n" using recv_some [of n "recvs t"] False less.prems(1) by (auto simp: k_def min_absorb1)
    have a1: "arrived W t1 = drop k (arrived W t)" by (simp add: arrived_def t1_def add.commute)
    have ne: "arrived W t \<noteq> []" using False less.prems(1) by auto
    have r: "c_recv W t n = Inr (int k, take k (arrived W t), t1)"
      using ne k less.prems(1) by (simp add: c_recv_def Let_def t1_def flip: k_def) (simp add: k_def)
    have step: "receive_loop W t n sofar got = receive_loop W t1 (n - k) (sofar + int k) (got @ take k (arrived W t))"
      using False k less.prems r by (subst receive_loop.simps) (simp add: s32_id)
    obtain m where "receive_loop W t1 (n - k) (sofar + int k) (got @ take k (arrived W t))
        = Inr (sofar + int k + int (n - k), (got @ take k (arrived W t)) @ take (n - k) (arrived W t1),
            t1\<lparr>taken := taken t1 + (n - k), recvs := m\<rparr>)"
      using less.IH [of "n - k" t1 "sofar + int k" "got @ take k (arrived W t)"] k less.prems a1
      by (auto simp: diff_le_mono)
    moreover have "take k (arrived W t) @ take (n - k) (drop k (arrived W t)) = take n (arrived W t)"
      using k by (metis le_add_diff_inverse take_add)
    ultimately show ?thesis
      unfolding step a1 using k by (intro exI [of _ m]) (simp add: t1_def)
  qed
qed

lemma socket_receive_ok:
  assumes "n \<le> length (arrived W t)" and "n < 2 ^ 31"
  obtains m where "socket_receive W t n = Inr (int n, take n (arrived W t), t\<lparr>taken := taken t + n, recvs := m\<rparr>)"
    and "arrived W (t\<lparr>taken := taken t + n, recvs := m\<rparr>) = drop n (arrived W t)"
proof -
  obtain m where "receive_loop W t n 0 [] = Inr (0 + int n, [] @ take n (arrived W t), t\<lparr>taken := taken t + n, recvs := m\<rparr>)"
    using receive_loop_exact [of n t 0 "[]"] assms by auto
  then show thesis by (intro that [of m]) (simp_all add: socket_receive_def arrived_def add.commute)
qed

text \<open>A whole frame at the front of what has arrived is received as its payload.\<close>

lemma session_receive_frame:
  assumes a: "arrived W (link ss) = packet_create p @ rest" and len: "8 + length p < 2 ^ 31" and al: "alloc_ok W (length p)"
    and p: "payload_type p (Ptr 0) = Inr ty" "payload_validate p (Ptr 0) (length p) = Inr True"
  obtains t where "session_receive W ss ty = Inr (Some p, ss\<lparr>link := t\<rparr>)" and "arrived W t = rest"
    and "peer t = peer (link ss)" and "taken t = taken (link ss) + (8 + length p)"
proof -
  have small: "length p + 8 < 2 ^ 32" using len by simp
  note H = packet_header [OF small order.refl, of rest]
  obtain m where r1: "socket_receive W (link ss) 8
      = Inr (8, take 8 (arrived W (link ss)), (link ss)\<lparr>taken := taken (link ss) + 8, recvs := m\<rparr>)"
    and a1: "arrived W ((link ss)\<lparr>taken := taken (link ss) + 8, recvs := m\<rparr>) = drop 8 (arrived W (link ss))"
    using socket_receive_ok [of 8 "link ss"] a by auto
  define t1 where "t1 = (link ss)\<lparr>taken := taken (link ss) + 8, recvs := m\<rparr>"
  have a1': "arrived W t1 = p @ rest" using a1 a unfolding t1_def [symmetric] by (simp add: packet_create_def)
  obtain m2 where r2: "socket_receive W t1 (length p) = Inr (int (length p), p, t1\<lparr>taken := taken t1 + length p, recvs := m2\<rparr>)"
    and a2: "arrived W (t1\<lparr>taken := taken t1 + length p, recvs := m2\<rparr>) = rest"
    using socket_receive_ok [of "length p" t1] a1' len by auto
  have pk: "packet_at (take 8 (packet_create p @ rest)) (Ptr 0) = Inr \<lparr>magic = SDB_SERVER_MAGIC, total_size = 8 + length p\<rparr>"
    using packet_at_prefix [of "take 8 (packet_create p @ rest)" "[]"] H magic_dec le4.dec_enc [of "8 + length p"] small by simp
  have sz: "u64_sub (8 + length p) 8 = length p" using len by (subst u64_sub_le) auto
  show thesis
    using r1 r2 a2 pk sz al p a len
    by (intro that [of "t1\<lparr>taken := taken t1 + length p, recvs := m2\<rparr>"])
      (simp_all add: session_receive_def sizeof_packet_def Let_def flip: t1_def, simp_all add: t1_def)
qed

text \<open>One page of a read, and the page without points that ends it.\<close>

lemma read_next_page:
  assumes a: "arrived W (link ss) = response_frame ps xs @ rest" and xs: "all_len ps xs" "ps < 2 ^ 32"
    and len: "21 + length (concat xs) < 2 ^ 31" "length xs < 2 ^ 64"
    and al: "alloc_ok W (13 + length (concat xs))" and op: "read_open ss"
  obtains t where "session_read_next W ss =
        Inr (xs \<noteq> [], ss\<lparr>link := t, read_open := xs \<noteq> [],
          read_response := if xs = [] then None else Some (response_header_bytes (length xs) ps @ concat xs)\<rparr>)"
    and "arrived W t = rest" and "peer t = peer (link ss)" and "taken t = taken (link ss) + length (response_frame ps xs)"
proof -
  let ?p = "response_header_bytes (length xs) ps @ concat xs" and ?ss = "ss\<lparr>read_response := None\<rparr>"
  have sz: "length xs * ps < 2 ^ 31" using len(1) xs(1) by simp
  have v: "payload_validate ?p (Ptr 0) (length ?p) = Inr True"
    using response_validate [OF len(2) xs(2), of "concat xs"] xs(1) sz by (simp add: u64_id mult.commute)
  obtain t where t: "session_receive W ?ss SDB_READ_RESPONSE = Inr (Some ?p, ?ss\<lparr>link := t\<rparr>)"
    "arrived W t = rest" "peer t = peer (link ss)" "taken t = taken (link ss) + (8 + length ?p)"
    using session_receive_frame [OF _ _ _ header_types(2) v, of ?ss rest] a len(1) al by (auto simp: response_frame_def)
  have "read_response_at ?p (Ptr 0) = Inr \<lparr>rp_points_count = length xs, rp_point_size = ps, rp_points = Ptr 13\<rparr>"
    using read_response_header [OF len(2) xs(2), of SDB_READ_RESPONSE "concat xs", folded response_header_bytes_def] .
  with t op show thesis by (intro that [of t]) (simp_all add: session_read_next_def response_frame_def)
qed

text \<open>A request answered with a simple response.\<close>

lemma simple_response_ok:
  assumes a: "arrived W (link (session_send_and_destroy W ss req)) = packet_create (simple_response_create code) @ rest"
    and code: "code < 256" and al: "alloc_ok W 2"
  obtains t where "session_send_with_simple_response W ss req =
        Inr (if code = SDB_RESPONSE_OK then 0 else 1, (session_send_and_destroy W ss req)\<lparr>link := t\<rparr>)"
    and "arrived W t = rest" and "peer t = peer (link (session_send_and_destroy W ss req))"
    and "taken t = taken (link (session_send_and_destroy W ss req)) + 10"
proof -
  let ?p = "simple_response_create code" and ?ss = "session_send_and_destroy W ss req"
  have p: "payload_type ?p (Ptr 0) = Inr SDB_SIMPLE_RESPONSE" "payload_validate ?p (Ptr 0) (length ?p) = Inr True"
    "simple_response_code_at ?p (Ptr 0) = Inr code"
    using created_types(1) [of code "[]"] created_validate(1) [of code "[]"] simple_response_fields [OF code, of "[]"] by simp_all
  obtain t where "session_receive W ?ss SDB_SIMPLE_RESPONSE = Inr (Some ?p, ?ss\<lparr>link := t\<rparr>)"
    "arrived W t = rest" "peer t = peer (link ?ss)" "taken t = taken (link ?ss) + (8 + length ?p)"
    using session_receive_frame [OF a _ _ p(1,2)] al by auto
  with p(3) show thesis by (intro that [of t]) (simp_all add: session_send_with_simple_response_def)
qed

text \<open>What the other end sees of a request: the frame, in pieces.\<close>

lemma session_send_pieces:
  "\<exists>ds n. concat ds = packet_create req \<and> [] \<notin> set ds \<and>
     session_send_and_destroy W ss req = ss\<lparr>link := (link ss)\<lparr>peer := fold (\<lambda>d w. peer_step W w d) ds (peer (link ss)), sends := n\<rparr>\<rparr>"
proof -
  let ?h = "le_enc 4 SDB_SERVER_MAGIC @ le_enc 4 (sizeof_packet + length req)"
  obtain ps where ps: "concat ps = ?h" "[] \<notin> set ps" "send_loop W (link ss) ?h
      = (link ss)\<lparr>peer := fold (\<lambda>d w. peer_step W w d) ps (peer (link ss)), sends := sends (link ss) + length ps\<rparr>"
    using send_loop_pieces by blast
  define t1 where "t1 = send_loop W (link ss) ?h"
  obtain qs where qs: "concat qs = req" "[] \<notin> set qs" "send_loop W t1 req
      = t1\<lparr>peer := fold (\<lambda>d w. peer_step W w d) qs (peer t1), sends := sends t1 + length qs\<rparr>"
    using send_loop_pieces by blast
  show ?thesis
    using ps qs by (intro exI [of _ "ps @ qs"] exI [of _ "sends t1 + length qs"])
      (auto simp: session_send_and_destroy_def socket_send_def packet_create_def Let_def t1_def simp del: le_enc.simps)
qed

end

section \<open>Properties\<close>

text \<open>
  C35: however the kernel cuts the stream, \<^verbatim>\<open>socket_receive\<close> returns exactly the next bytes that were
  asked for, once the other end has sent them, and \<^verbatim>\<open>socket_send\<close> delivers every byte of the buffer
  in order.
\<close>

theorem socket_transfers:
  assumes "\<And>k m. 0 < m \<Longrightarrow> 0 < send_count W k m \<and> send_count W k m \<le> int m"
    and "\<And>k m. 0 < m \<Longrightarrow> 0 < recv_count W k m \<and> recv_count W k m \<le> int m"
    and "n \<le> length (arrived W t)" and "n < 2 ^ 31"
  shows "(\<exists>t'. socket_receive W t n = Inr (int n, take n (arrived W t), t') \<and> arrived W t' = drop n (arrived W t)) \<and>
         (\<exists>ds. concat ds = data \<and> [] \<notin> set ds \<and>
            peer (socket_send W t (Some data)) = fold (\<lambda>d w. peer_step W w d) ds (peer t))"
proof -
  have T: "transport W" using assms(1,2) by unfold_locales
  obtain ds where "concat ds = data" "[] \<notin> set ds" "send_loop W t data
      = t\<lparr>peer := fold (\<lambda>d w. peer_step W w d) ds (peer t), sends := sends t + length ds\<rparr>"
    using transport.send_loop_pieces [OF T] by blast
  then have "\<exists>ds. concat ds = data \<and> [] \<notin> set ds \<and>
      peer (socket_send W t (Some data)) = fold (\<lambda>d w. peer_step W w d) ds (peer t)"
    by (intro exI [of _ ds]) (simp add: socket_send_def)
  with transport.socket_receive_ok [OF T assms(3,4)] show ?thesis by metis
qed

text \<open>An end that records what it gets and has sent five bytes, over a socket that moves one byte at a time.\<close>

definition echo_wire :: "bytes wire" where
  "echo_wire = \<lparr>peer_step = (\<lambda>w d. w @ d), peer_output = (\<lambda>w. w), peer_closed = (\<lambda>w. False),
     send_count = (\<lambda>_ _. 1), recv_count = (\<lambda>_ _. 1), alloc_ok = (\<lambda>_. True)\<rparr>"

theorem socket_transfers_witness:
  "(\<exists>t'. socket_receive echo_wire \<lparr>peer = [1, 2, 3, 4, 5], taken = 1, sends = 0, recvs = 0, is_open = True\<rparr> 3
      = Inr (3, [2, 3, 4], t') \<and> arrived echo_wire t' = [5]) \<and>
   (\<exists>ds. concat ds = [8, 9] \<and> [] \<notin> set ds \<and>
      peer (socket_send echo_wire \<lparr>peer = [1, 2, 3, 4, 5], taken = 1, sends = 0, recvs = 0, is_open = True\<rparr> (Some [8, 9]))
        = fold (\<lambda>d w. peer_step echo_wire w d) ds [1, 2, 3, 4, 5])"
  using socket_transfers [of echo_wire 3 "\<lparr>peer = [1, 2, 3, 4, 5], taken = 1, sends = 0, recvs = 0, is_open = True\<rparr>" "[8, 9]"]
  by (simp add: echo_wire_def arrived_def)

end
