(* ===== verification/Console.thy ===== *)
theory Console
  imports Database
begin

text \<open>
  What the command line client uses of the C library's streams and number conversions:
  \<^verbatim>\<open>fread\<close>, \<^verbatim>\<open>feof\<close>, \<^verbatim>\<open>fscanf\<close>, \<^verbatim>\<open>getline\<close>, output to the two standard streams, and the
  \<^verbatim>\<open>strto*\<close> family.  Streams carry bytes; text is ASCII.  How floating point numbers are printed
  and read, and how much memory \<^verbatim>\<open>getline\<close> asks for, is left to the record \<open>libc\<close>.
\<close>

section \<open>Streams\<close>

definition byte_of_char :: "char \<Rightarrow> byte" where
  "byte_of_char c = word_of_nat (of_char c)"

definition chr :: "byte \<Rightarrow> char" where
  "chr b = char_of (unat b)"

definition ascii :: "string \<Rightarrow> bytes" where
  "ascii = map byte_of_char"

lemma chr_byte [simp]: "chr (byte_of_char c) = c"
  by (simp add: chr_def byte_of_char_def unat_of_nat)

lemma map_chr_ascii [simp]: "map chr (ascii text) = text"
  by (simp add: ascii_def o_def)

lemma ascii_append [simp]: "ascii (s @ t) = ascii s @ ascii t" "ascii [] = []" "length (ascii s) = length s"
  by (simp_all add: ascii_def)

record console =
  stdin :: bytes
  at_eof :: bool
  stdout :: bytes
  stderr :: string

definition put_out :: "bytes \<Rightarrow> console \<Rightarrow> console" where
  "put_out bs con = con\<lparr>stdout := stdout con @ bs\<rparr>"

definition put_err :: "string \<Rightarrow> console \<Rightarrow> console" where
  "put_err text con = con\<lparr>stderr := stderr con @ text\<rparr>"

text \<open>
  \<^verbatim>\<open>fread\<close> of at most \<open>n\<close> records: the number of whole records, and all the bytes it has put
  into the array.  Only a read that meets the end of the input sets the flag \<^verbatim>\<open>feof\<close> reports.
\<close>

definition fread :: "nat \<Rightarrow> nat \<Rightarrow> console \<Rightarrow> nat \<times> bytes \<times> console" where
  "fread sz n con =
     (let got = take (sz * n) (stdin con)
      in (length got div sz, got,
          con\<lparr>stdin := drop (sz * n) (stdin con), at_eof := at_eof con \<or> length (stdin con) < sz * n\<rparr>))"

section \<open>Reading numbers from text\<close>

definition clamp_long :: "int \<Rightarrow> int" where
  "clamp_long v = max (- (2 ^ 63)) (min (2 ^ 63 - 1) v)"

definition to_ulong :: "int \<Rightarrow> nat" where
  "to_ulong v = (if \<bar>v\<bar> < 2 ^ 64 then nat (v mod 2 ^ 64) else 2 ^ 64 - 1)"

lemma to_ulong_id: "n < 2 ^ 64 \<Longrightarrow> to_ulong (int n) = n"
  by (simp add: to_ulong_def)

text \<open>\<^verbatim>\<open>strtoul\<close> and \<^verbatim>\<open>strtoull\<close> with base 0, and \<^verbatim>\<open>atoi\<close>.\<close>

definition signed_text :: "(string \<Rightarrow> nat) \<Rightarrow> string \<Rightarrow> int" where
  "signed_text magnitude text =
     (case dropWhile is_space text of
        [] \<Rightarrow> 0
      | c # cs \<Rightarrow> if c = CHR ''-'' then - int (magnitude cs)
                  else if c = CHR ''+'' then int (magnitude cs)
                  else int (magnitude (c # cs)))"

definition strtoul :: "string \<Rightarrow> nat" where
  "strtoul text = to_ulong (signed_text read_magnitude text)"

definition atoi :: "string \<Rightarrow> int" where
  "atoi text = (let v = clamp_long (signed_text (read_digits 10 0) text) mod 2 ^ 32
                in if v < 2 ^ 31 then v else v - 2 ^ 32)"

lemma strtol_signed_text: "strtol text = clamp_long (signed_text read_magnitude text)"
proof (cases "dropWhile is_space text")
  case (Cons c cs)
  then show ?thesis unfolding strtol_def signed_text_def clamp_long_def Let_def Cons list.case by (simp split del: if_split)
next
  case Nil
  then show ?thesis unfolding strtol_def signed_text_def clamp_long_def Let_def Nil list.case by simp
qed

section \<open>Scanning\<close>

definition is_digit :: "nat \<Rightarrow> byte \<Rightarrow> bool" where
  "is_digit base b = (case digit_val (chr b) of Some d \<Rightarrow> d < base | None \<Rightarrow> False)"

definition scan_sign :: "bytes \<Rightarrow> bool \<times> bytes" where
  "scan_sign bs =
     (case bs of
        [] \<Rightarrow> (False, [])
      | b # rest \<Rightarrow> if chr b = CHR ''-'' then (True, rest) else if chr b = CHR ''+'' then (False, rest) else (False, bs))"

text \<open>
  The magnitude of a number, for \<^verbatim>\<open>%u\<close> in base 10, for \<^verbatim>\<open>%i\<close> (\<open>auto\<close>) in the base its prefix
  says; \<open>None\<close> when there is no digit, which is a matching failure.
\<close>

definition scan_magnitude :: "bool \<Rightarrow> bytes \<Rightarrow> nat option \<times> bytes" where
  "scan_magnitude auto bs =
     (let zero = (auto \<and> (case bs of b # _ \<Rightarrow> chr b = CHR ''0'' | [] \<Rightarrow> False));
          hex = (zero \<and> (case bs of _ # x # _ \<Rightarrow> chr x = CHR ''x'' \<or> chr x = CHR ''X'' | _ \<Rightarrow> False));
          base = (if hex then 16 else if zero then 8 else 10);
          rest = (if hex then drop 2 bs else bs);
          ds = takeWhile (is_digit base) rest
      in (if ds = [] then None else Some (read_digits base 0 (map chr ds)), drop (length ds) rest))"

text \<open>
  One integer conversion: the value, the rest of the input, and whether its end was met.  The
  character behind a number is looked at, so that a number at the end of the input meets it.
\<close>

definition scan_int :: "bool \<Rightarrow> bytes \<Rightarrow> int option \<times> bytes \<times> bool" where
  "scan_int auto bs =
     (let r = dropWhile (\<lambda>b. is_space (chr b)) bs in
      if r = [] then (None, [], True)
      else let (neg, r1) = scan_sign r; (v, r2) = scan_magnitude auto r1
           in (map_option (\<lambda>n. if neg then - int n else int n) v, r2, r2 = []))"

text \<open>
  \<^verbatim>\<open>"%lu,"\<close> followed by another conversion \<open>conv\<close>: what was assigned, the rest, and the end.
\<close>

definition fscanf_time :: "bytes \<Rightarrow> nat option \<times> bool \<times> bytes \<times> bool" where
  "fscanf_time bs =
     (let (v, r, e) = scan_int False bs in
      case v of
        None \<Rightarrow> (None, False, r, e)
      | Some t \<Rightarrow>
          (case r of
             [] \<Rightarrow> (Some (to_ulong t), False, [], True)
           | c # r1 \<Rightarrow> if chr c = CHR '','' then (Some (to_ulong t), True, r1, False)
                       else (Some (to_ulong t), False, r, False)))"

definition fscanf_pair ::
  "(bytes \<Rightarrow> bytes option \<times> bytes \<times> bool) \<Rightarrow> bytes \<Rightarrow> nat option \<times> bytes option \<times> bytes \<times> bool" where
  "fscanf_pair conv bs =
     (let (t, comma, r, e) = fscanf_time bs in
      if comma then let (v, r1, e1) = conv r in (t, v, r1, e1) else (t, None, r, e))"

text \<open>
  A line with its newline, if it has one; the end of the input is met when it has none.
\<close>

definition take_line :: "bytes \<Rightarrow> bytes \<times> bytes \<times> bool" where
  "take_line bs =
     (let l = takeWhile (\<lambda>b. b \<noteq> 10) bs
      in if length l < length bs then (l @ [10], drop (Suc (length l)) bs, False) else (bs, [], True))"

record libc =
  scan_float :: "nat \<Rightarrow> bytes \<Rightarrow> bytes option \<times> bytes \<times> bool"
  print_float :: "nat \<Rightarrow> bytes \<Rightarrow> string"
  getline_size :: "nat \<Rightarrow> nat \<Rightarrow> nat"

section \<open>What is printed is read back\<close>

definition no_digit :: "bytes \<Rightarrow> bool" where
  "no_digit rest \<longleftrightarrow> (case rest of [] \<Rightarrow> True | b # _ \<Rightarrow> digit_val (chr b) = None)"

lemma no_digitD: "no_digit (b # rest) \<Longrightarrow> \<not> is_digit base b \<and> chr b \<noteq> CHR ''x'' \<and> chr b \<noteq> CHR ''X''"
  by (auto simp: no_digit_def is_digit_def digit_val_def)

lemma ascii_dec_nat:
  obtains d cs where "d < 10" and "ascii (dec_nat n) = byte_of_char (digit_char d) # cs" and "d = 0 \<longleftrightarrow> n = 0"
    and "n = 0 \<Longrightarrow> cs = []" and "\<forall>b\<in>set (ascii (dec_nat n)). is_digit 10 b"
proof (cases "n = 0")
  case True
  then show thesis by (intro that [of 0 "[]"]) (simp_all add: dec_nat.simps ascii_def is_digit_def flip: digit_char_0)
next
  case False
  then obtain d where d: "hd (dec_nat n) = digit_char d" "0 < d" "d < 10" using hd_dec_nat by auto
  then obtain cs where "dec_nat n = digit_char d # cs" by (metis dec_nat_neq_Nil list.collapse)
  moreover have "\<forall>b\<in>set (ascii (dec_nat n)). is_digit 10 b"
    by (auto simp: ascii_def is_digit_def dest: dec_nat_digits)
  ultimately show thesis using d False by (intro that [of d "ascii cs"]) (simp_all add: ascii_def)
qed

lemma takeWhile_digits:
  "\<forall>b\<in>set ds. is_digit base b \<Longrightarrow> no_digit rest \<Longrightarrow> takeWhile (is_digit base) (ds @ rest) = ds"
  by (cases rest) (auto simp: takeWhile_tail dest: no_digitD)

lemma scan_magnitude_dec:
  assumes "no_digit rest"
  shows "scan_magnitude auto (ascii (dec_nat n) @ rest) = (Some n, rest)"
proof -
  obtain d cs where d: "d < 10" "ascii (dec_nat n) = byte_of_char (digit_char d) # cs" "d = 0 \<longleftrightarrow> n = 0"
    "n = 0 \<Longrightarrow> cs = []" "\<forall>b\<in>set (ascii (dec_nat n)). is_digit 10 b"
    using ascii_dec_nat [of n] by metis
  show ?thesis
  proof (cases "n = 0 \<and> auto")
    case True
    then have e: "ascii (dec_nat n) = [byte_of_char (CHR ''0'')]" using d by simp
    have o: "is_digit 8 (byte_of_char (CHR ''0''))" by (simp add: is_digit_def digit_val_def)
    have "takeWhile (is_digit 8) (byte_of_char (CHR ''0'') # rest) = [byte_of_char (CHR ''0'')]"
      using takeWhile_digits [of "[byte_of_char (CHR ''0'')]" 8, OF _ assms] o by simp
    moreover have "(case rest of x # _ \<Rightarrow> chr x = CHR ''x'' \<or> chr x = CHR ''X'' | [] \<Rightarrow> False) \<longleftrightarrow> False"
      using assms by (auto dest: no_digitD split: list.splits)
    ultimately show ?thesis
      unfolding e using True by (simp add: scan_magnitude_def Let_def digit_val_def del: takeWhile.simps)
  next
    case False
    then have z: "(auto \<and> (case ascii (dec_nat n) @ rest of b # _ \<Rightarrow> chr b = CHR ''0'' | [] \<Rightarrow> False)) = False"
      using d(1-3) by auto
    have "takeWhile (is_digit 10) (ascii (dec_nat n) @ rest) = ascii (dec_nat n)"
      using takeWhile_digits [OF d(5) assms] .
    moreover have "read_digits 10 0 (map chr (ascii (dec_nat n))) = n" by (simp add: read_digits_dec_nat)
    moreover have "ascii (dec_nat n) \<noteq> []" using d(2) by simp
    ultimately show ?thesis unfolding scan_magnitude_def z Let_def by simp
  qed
qed

lemma scan_int_dec:
  assumes "no_digit rest"
  shows "scan_int auto (ascii (dec_int v) @ rest) = (Some v, rest, rest = [])"
proof -
  obtain d cs where d: "d < 10" "ascii (dec_nat (nat \<bar>v\<bar>)) = byte_of_char (digit_char d) # cs"
    using ascii_dec_nat [of "nat \<bar>v\<bar>"] by metis
  note M = scan_magnitude_dec [OF assms, of auto "nat \<bar>v\<bar>"]
  show ?thesis
  proof (cases "v < 0")
    case True
    then have "ascii (dec_int v) = byte_of_char (CHR ''-'') # ascii (dec_nat (nat \<bar>v\<bar>))"
      by (simp add: dec_int_def ascii_def)
    with True M show ?thesis by (simp add: scan_int_def scan_sign_def is_space_def)
  next
    case False
    then have "ascii (dec_int v) = ascii (dec_nat (nat \<bar>v\<bar>))" by (simp add: dec_int_def)
    with False M d show ?thesis by (simp add: scan_int_def scan_sign_def)
  qed
qed

end
