(* ===== verification/Diagnostics.thy ===== *)
theory Diagnostics
  imports Common
begin

text \<open>
  \<^verbatim>\<open>src/diagnostics.c\<close>: stop watches and the log.  The clock and the time zone are arguments: what
  \<^verbatim>\<open>clock_gettime\<close> and \<^verbatim>\<open>localtime_r\<close> return.  A message is the text its format and arguments
  expand to.  The other components are modelled without their log calls, which have no effect
  but on the standard error stream.
\<close>

section \<open>Stop watches\<close>

record timespec =
  tv_sec :: int
  tv_nsec :: int

definition sdb_now :: "timespec \<Rightarrow> nat" where
  "sdb_now ts = nat ((tv_sec ts * 1000000000 + tv_nsec ts) mod 2 ^ 64)"

record stopwatch =
  sw_start :: nat
  sw_stop :: nat

definition stopwatch_start :: "timespec \<Rightarrow> stopwatch" where
  "stopwatch_start ts = \<lparr>sw_start = sdb_now ts, sw_stop = 0\<rparr>"

text \<open>
  The elapsed time in nanoseconds; the source divides by \<^verbatim>\<open>1000000000.0f\<close> to seconds, which only
  messages show.
\<close>

definition stopwatch_stop_and_destroy :: "timespec \<Rightarrow> stopwatch \<Rightarrow> nat" where
  "stopwatch_stop_and_destroy ts sw =
     (let sw1 = sw\<lparr>sw_stop := sdb_now ts\<rparr> in u64_sub (sw_stop sw1) (sw_start sw1))"

lemma stopwatch_elapsed:
  assumes "0 \<le> tv_sec a" "0 \<le> tv_nsec a" "tv_sec a * 1000000000 + tv_nsec a \<le> tv_sec b * 1000000000 + tv_nsec b"
    and "tv_sec b * 1000000000 + tv_nsec b < 2 ^ 64"
  shows "int (stopwatch_stop_and_destroy b (stopwatch_start a))
         = (tv_sec b * 1000000000 + tv_nsec b) - (tv_sec a * 1000000000 + tv_nsec a)"
  using assms by (simp add: stopwatch_stop_and_destroy_def stopwatch_start_def sdb_now_def u64_sub_def Let_def)

section \<open>The log\<close>

definition SDB_LOG_LINE_MAX_LEN :: nat where
  "SDB_LOG_LINE_MAX_LEN = 1024"

record sdb_log =
  verbose :: bool

text \<open>
  The global \<^verbatim>\<open>g_log\<close>: null, an open log, or the pointer that \<^verbatim>\<open>log_close\<close> leaves behind.
\<close>

datatype log_state = NoLog | OpenLog sdb_log | ClosedLog

definition log_init :: "bool \<Rightarrow> log_state" where
  "log_init v = OpenLog \<lparr>verbose = v\<rparr>"

fun log_close :: "log_state \<Rightarrow> log_state res" where
  "log_close NoLog = Inr NoLog"
| "log_close (OpenLog l) = Inr ClosedLog"
| "log_close ClosedLog = Inl UseAfterFree"

record tm =
  tm_year :: int
  tm_mon :: int
  tm_mday :: int
  tm_hour :: int
  tm_min :: int
  tm_sec :: int

text \<open>\<^verbatim>\<open>%02d\<close> and \<^verbatim>\<open>%03lu\<close>: at least \<open>w\<close> characters, filled with zeros behind the sign.\<close>

definition fmt_0 :: "nat \<Rightarrow> int \<Rightarrow> string" where
  "fmt_0 w i =
     (let ds = dec_nat (nat \<bar>i\<bar>)
      in if i < 0 then CHR ''-'' # replicate (w - 1 - length ds) (CHR ''0'') @ ds
         else replicate (w - length ds) (CHR ''0'') @ ds)"

text \<open>What goes to the standard error stream.\<close>

definition sdb_log_write :: "(int \<Rightarrow> tm) \<Rightarrow> timespec \<Rightarrow> log_state \<Rightarrow> string \<Rightarrow> string \<Rightarrow> string" where
  "sdb_log_write localtime tick g_log level message =
     (if g_log = NoLog then []
      else let line = snprintf SDB_LOG_LINE_MAX_LEN message; now = localtime (tv_sec tick)
        in dec_int (tm_year now + 1900) @ ''/'' @ fmt_0 2 (tm_mon now + 1) @ ''/'' @ fmt_0 2 (tm_mday now) @ '' ''
           @ fmt_0 2 (tm_hour now) @ '':'' @ fmt_0 2 (tm_min now) @ '':'' @ fmt_0 2 (tm_sec now)
           @ ''.'' @ fmt_0 3 (tv_nsec tick div 1000000) @ '' ['' @ level @ '']: '' @ line @ [CHR 0x0A])"

definition log_error :: "(int \<Rightarrow> tm) \<Rightarrow> timespec \<Rightarrow> log_state \<Rightarrow> string \<Rightarrow> string" where
  "log_error localtime tick g_log message = sdb_log_write localtime tick g_log ''ERROR'' message"

definition log_info :: "(int \<Rightarrow> tm) \<Rightarrow> timespec \<Rightarrow> log_state \<Rightarrow> string \<Rightarrow> string" where
  "log_info localtime tick g_log message = sdb_log_write localtime tick g_log ''INFO'' message"

fun log_debug :: "(int \<Rightarrow> tm) \<Rightarrow> timespec \<Rightarrow> log_state \<Rightarrow> string \<Rightarrow> string res" where
  "log_debug localtime tick NoLog message = Inr []"
| "log_debug localtime tick (OpenLog l) message =
     Inr (if \<not> verbose l then [] else sdb_log_write localtime tick (OpenLog l) ''DEBUG'' message)"
| "log_debug localtime tick ClosedLog message = Inl UseAfterFree"

section \<open>The length of a line\<close>

lemma dec_nat_length: "n < 10 ^ k \<Longrightarrow> 0 < k \<Longrightarrow> length (dec_nat n) \<le> k"
proof (induction n arbitrary: k rule: dec_nat.induct)
  case (1 n)
  show ?case
  proof (cases "n < 10")
    case True
    with 1 show ?thesis by (simp add: dec_nat.simps [of n])
  next
    case False
    obtain j where k: "k = Suc j" using "1.prems"(2) by (cases k) auto
    with False "1.prems" have j: "0 < j" by (cases j) auto
    have "n div 10 < 10 ^ j" using "1.prems"(1) k by (simp add: less_mult_imp_div_less mult.commute)
    with "1.IH" [OF False _ j] k False show ?thesis by (simp add: dec_nat.simps [of n])
  qed
qed

lemma fmt_0_length: "0 \<le> i \<Longrightarrow> i < 10 ^ w \<Longrightarrow> 0 < w \<Longrightarrow> length (fmt_0 w i) = w"
proof -
  assume i: "0 \<le> i" "i < 10 ^ w" "0 < w"
  then have "nat i < 10 ^ w" by (simp add: nat_less_iff)
  from dec_nat_length [OF this i(3)] i show ?thesis by (simp add: fmt_0_def Let_def)
qed

section \<open>Properties\<close>

definition tm_ok :: "tm \<Rightarrow> bool" where
  "tm_ok t \<longleftrightarrow> - 900 \<le> tm_year t \<and> tm_year t \<le> 8099 \<and> 0 \<le> tm_mon t \<and> tm_mon t \<le> 11 \<and> 1 \<le> tm_mday t \<and> tm_mday t \<le> 31 \<and>
     0 \<le> tm_hour t \<and> tm_hour t \<le> 23 \<and> 0 \<le> tm_min t \<and> tm_min t \<le> 59 \<and> 0 \<le> tm_sec t \<and> tm_sec t \<le> 60"

lemma year_length: "1000 \<le> y \<Longrightarrow> y < 10000 \<Longrightarrow> length (dec_int y) \<le> 4"
  using dec_nat_length [of "nat y" 4] by (simp add: dec_int_def nat_less_iff)



end
