(* ===== verification/Ctl.thy ===== *)
theory Ctl
  imports Session Console Diagnostics
begin

text \<open>
  \<^verbatim>\<open>src/ctl/main.c\<close>: the command line client.  The console (standard input, output and error
  stream) is part of the state.  \<^verbatim>\<open>getopt_long\<close> is a parameter: the sequence of options and
  arguments its calls return.
\<close>

section \<open>Constants and configuration\<close>

definition SDB_VERSION :: string where "SDB_VERSION = ''0.0.1''"
definition SDB_BUILD :: string where "SDB_BUILD = ''<COMMIT_ID>''"

definition SDB_CLIENT_CMD_WRITE :: string where "SDB_CLIENT_CMD_WRITE = ''write''"
definition SDB_CLIENT_CMD_READ :: string where "SDB_CLIENT_CMD_READ = ''read''"
definition SDB_CLIENT_CMD_TRUNCATE :: string where "SDB_CLIENT_CMD_TRUNCATE = ''truncate''"
definition SDB_CLIENT_CMD_LATEST :: string where "SDB_CLIENT_CMD_LATEST = ''latest''"
definition SDB_CLIENT_CMD_TO_CSV :: string where "SDB_CLIENT_CMD_TO_CSV = ''to_csv''"
definition SDB_CLIENT_CMD_FROM_CSV :: string where "SDB_CLIENT_CMD_FROM_CSV = ''from_csv''"

definition SDB_TYPE_FLOAT :: nat where "SDB_TYPE_FLOAT = 1"
definition SDB_TYPE_DOUBLE :: nat where "SDB_TYPE_DOUBLE = 2"
definition SDB_TYPE_INT32 :: nat where "SDB_TYPE_INT32 = 3"
definition SDB_TYPE_INT64 :: nat where "SDB_TYPE_INT64 = 4"
definition SDB_TYPE_STRING :: nat where "SDB_TYPE_STRING = 5"

lemmas data_types = SDB_TYPE_FLOAT_def SDB_TYPE_DOUBLE_def SDB_TYPE_INT32_def SDB_TYPE_INT64_def SDB_TYPE_STRING_def

record client_configuration =
  command :: string
  hostname :: string
  cfg_port :: int
  cfg_series_id :: nat
  cfg_begin :: timestamp
  cfg_end :: timestamp
  cfg_point_size :: nat
  data_type :: nat

abbreviation tab :: string where "tab \<equiv> [CHR 0x09]"
abbreviation nl :: string where "nl \<equiv> [CHR 0x0A]"

definition print_usage :: string where
  "print_usage = concat (map (\<lambda>l. l @ nl) [
      [],
      ''shakadbctl - controls shakadb instance'',
      [],
      ''    version:'' @ tab @ SDB_VERSION,
      ''    build:'' @ tab @ SDB_BUILD,
      [],
      ''Usage: shakadbctl <command> [options]'',
      [],
      ''    global parameters:'',
      [],
      ''    --hostname, -h:   shakadb server address, can be IP or hostname'',
      ''                      default value: '' @ [CHR 0x27] @ ''localhost'' @ [CHR 0x27],
      ''    --port, -p:       shakadb server port'',
      ''                      default value: 8487'',
      [],
      ''    available commands:'',
      [],
      ''    write        writes the binary stream from STDIN'',
      ''                 to the time series'',
      ''                     --series, -s    time series id'',
      ''                     --size, -x      data point value size'',
      ''                                     can be derived from the type parameter'',
      ''                     --type, -t      optional type of the data point'',
      ''                                     available values: int32, int64, string, float, double'',
      [],
      ''    read         reads the time series and outputs'',
      ''                 the binary stream to STDOUT'',
      ''                     --series, -s    time series id'',
      ''                     --begin, -b     begin for reading, inclusive'',
      ''                     --end, -e       end for reading, exclusive'',
      [],
      ''    truncate     removes all data from the given time series'',
      ''                     --series, -s    time series id'',
      [],
      ''    latest       reads the latest value from the time series'',
      ''                 and outputs in binary format to STDOUT'',
      ''                     --series, -s    time series id'',
      [],
      ''    to_csv       converts the binary stream of data points from STDIN'',
      ''                 into human readable CSV format'',
      ''                     --size, -x      data point value size'',
      ''                                     required only for strings'',
      ''                     --type, -t      type of the data point'',
      ''                                     available values: int32, int64, string, float, double'',
      [],
      ''    from_csv     reads data from the STDIN in CSV format and converts to binary'',
      ''                 writing to STDOUT'',
      ''                     --size, -x      data point value size'',
      ''                                     required only for strings'',
      ''                     --type, -t      type of the data point'',
      ''                                     available values: int32, int64, string, float, double'',
      [],
      [],
      ''For more info visit: http://shakadb.com/getting-started'',
      []])"

text \<open>Equality of C strings up to \<open>n\<close> characters.\<close>

definition strncmp_eq :: "string \<Rightarrow> string \<Rightarrow> nat \<Rightarrow> bool" where
  "strncmp_eq a b n \<longleftrightarrow> take n a = take n b"

definition parse_data_type :: "string \<Rightarrow> nat res" where
  "parse_data_type type =
     (if strncmp_eq ''string'' type SDB_STR_MAX_LEN then Inr SDB_TYPE_STRING
      else if strncmp_eq ''int32'' type SDB_STR_MAX_LEN then Inr SDB_TYPE_INT32
      else if strncmp_eq ''int64'' type SDB_STR_MAX_LEN then Inr SDB_TYPE_INT64
      else if strncmp_eq ''float'' type SDB_STR_MAX_LEN then Inr SDB_TYPE_FLOAT
      else if strncmp_eq ''double'' type SDB_STR_MAX_LEN then Inr SDB_TYPE_DOUBLE
      else die_internal ''Unknown type'' ''src/ctl/main.c'' 238)"

text \<open>
  The loop over the options, with the checks at its end; beside the status, what is written to
  the standard error stream.  The host name is copied over the string literal that
  \<^verbatim>\<open>config.hostname\<close> points to.
\<close>

fun load_options :: "(char \<times> string) list \<Rightarrow> client_configuration \<Rightarrow> (int \<times> client_configuration \<times> string) res" where
  "load_options [] config =
     Inr (if data_type config \<noteq> 0 then
            if data_type config = SDB_TYPE_DOUBLE \<or> data_type config = SDB_TYPE_INT64
            then (0, config\<lparr>cfg_point_size := 8 + 8\<rparr>, [])
            else if data_type config = SDB_TYPE_FLOAT \<or> data_type config = SDB_TYPE_INT32
            then (0, config\<lparr>cfg_point_size := 4 + 8\<rparr>, [])
            else if data_type config = SDB_TYPE_STRING
            then (if cfg_point_size config = 0 then (- 1, config, ''string has to have the size specified'' @ nl)
                  else (0, config, []))
            else (- 1, config, ''invalid data type'' @ nl)
          else (0, config, []))"
| "load_options ((c, optarg) # opts) config =
     (if c = CHR ''h'' then Inl ReadOnly
      else if c = CHR ''p'' then load_options opts (config\<lparr>cfg_port := s32 (strtol optarg)\<rparr>)
      else if c = CHR ''s'' then load_options opts (config\<lparr>cfg_series_id := nat (strtol optarg mod 2 ^ 32)\<rparr>)
      else if c = CHR ''b'' then load_options opts (config\<lparr>cfg_begin := word_of_nat (strtoul optarg)\<rparr>)
      else if c = CHR ''e'' then load_options opts (config\<lparr>cfg_end := word_of_nat (strtoul optarg)\<rparr>)
      else if c = CHR ''x'' then load_options opts (config\<lparr>cfg_point_size := u32 (u32 (strtoul optarg) + 8)\<rparr>)
      else if c = CHR ''t'' then
        bindR (parse_data_type optarg) (\<lambda>ty. load_options opts (config\<lparr>data_type := ty\<rparr>))
      else Inr (- 1, config, []))"

definition client_configuration_load ::
  "(string list \<Rightarrow> (char \<times> string) list) \<Rightarrow> string list \<Rightarrow> client_configuration \<Rightarrow> (int \<times> client_configuration \<times> string) res" where
  "client_configuration_load getopt_long argv config =
     (if length argv < 2 then Inr (- 1, config, [])
      else load_options (getopt_long argv) (config\<lparr>command := argv ! 1\<rparr>))"

section \<open>Writing and reading\<close>

definition points_size :: nat where "points_size = 6553600"

text \<open>
  The array holds \<^verbatim>\<open>config->point_size * points_size\<close> bytes, a product of 32 bits.  The loop ends
  with the input; every round but the last but one takes some of it.
\<close>

fun write_loop ::
  "nat \<Rightarrow> 'w wire \<Rightarrow> client_configuration \<Rightarrow> 'w session \<Rightarrow> bytes \<Rightarrow> console \<Rightarrow> (int \<times> 'w session \<times> console) res" where
  "write_loop 0 W config ss pts con = Inl OutOfFuel"
| "write_loop (Suc fuel) W config ss pts con =
     (if at_eof con then Inr (0, ss, con)
      else let (did_read, got, con1) = fread (cfg_point_size config) points_size con in
        bindR (store pts (Ptr 0) got) (\<lambda>pts1.
          if did_read > 0 then
            bindR (session_write W ss (cfg_series_id config)
                     \<lparr>content = Ptr 0, count_pl = did_read, point_size = cfg_point_size config\<rparr> pts1) (\<lambda>(status, ss1).
              if status \<noteq> 0 then Inr (- 1, ss1, put_err (''failed to write points'' @ nl) con1)
              else write_loop fuel W config ss1 pts1 con1)
          else write_loop fuel W config ss pts1 con1))"

definition execute_write ::
  "'w wire \<Rightarrow> client_configuration \<Rightarrow> 'w session \<Rightarrow> console \<Rightarrow> (int \<times> 'w session \<times> console) res" where
  "execute_write W config ss con =
     (if cfg_point_size config = 0 \<or> data_type config = 0
      then Inr (- 1, ss, put_err (''unknown point size/type'' @ nl) con)
      else write_loop (Suc (Suc (Suc (length (stdin con))))) W config ss (sdb_alloc (u32 (cfg_point_size config * points_size)))
             (put_err (''writing to series: '' @ fmt_d (cfg_series_id config) @ nl) con))"

text \<open>
  The loop over the responses to a read, printing the points; it goes on for as long as the
  other end sends them, which the fuel bounds.
\<close>

fun read_responses :: "nat \<Rightarrow> 'w wire \<Rightarrow> 'w session \<Rightarrow> int \<Rightarrow> console \<Rightarrow> (int \<times> 'w session \<times> console) res" where
  "read_responses 0 W ss total_read con = Inl OutOfFuel"
| "read_responses (Suc fuel) W ss total_read con =
     bindR (session_read_next W ss) (\<lambda>(more, ss1).
       if \<not> more then Inr (total_read, ss1, con)
       else case read_response ss1 of
         None \<Rightarrow> Inl NullDeref
       | Some payload \<Rightarrow>
           bindR (read_response_at payload (Ptr 0)) (\<lambda>r.
           bindR (load payload (rp_points r) (rp_point_size r * rp_points_count r)) (\<lambda>bs.
             read_responses fuel W ss1 (s32 (total_read + int (rp_points_count r))) (put_out bs con))))"

definition execute_read ::
  "nat \<Rightarrow> 'w wire \<Rightarrow> client_configuration \<Rightarrow> 'w session \<Rightarrow> console \<Rightarrow> (int \<times> 'w session \<times> console) res" where
  "execute_read fuel W config ss con =
     (let con1 = put_err (''reading points: '' @ fmt_d (cfg_series_id config) @ '' -> ['' @ dec_nat (unat (cfg_begin config))
                   @ '', '' @ dec_nat (unat (cfg_end config)) @ '')'' @ nl) con;
          (status, ss1) = session_read W ss (cfg_series_id config) (cfg_begin config) (cfg_end config)
      in if status \<noteq> 0 then Inr (- 1, ss1, put_err (''failed to read data points'' @ nl) con1)
         else bindR (read_responses fuel W ss1 0 con1) (\<lambda>(total_read, ss2, con2).
                Inr (0, ss2, put_err (''total read: '' @ dec_int total_read @ '' points'' @ nl) con2)))"

definition execute_truncate ::
  "'w wire \<Rightarrow> client_configuration \<Rightarrow> 'w session \<Rightarrow> console \<Rightarrow> (int \<times> 'w session \<times> console) res" where
  "execute_truncate W config ss con =
     (let con1 = put_err (''truncating data series: '' @ fmt_d (cfg_series_id config) @ nl) con
      in bindR (session_truncate W ss (cfg_series_id config)) (\<lambda>(status, ss1).
           Inr (if status \<noteq> 0 then (- 1, ss1, put_err (''failed to read data points'' @ nl) con1)
                else (0, ss1, put_err (''truncate successful'' @ nl) con1))))"

text \<open>The loop is that of \<^verbatim>\<open>execute_read\<close>, without the count.\<close>

definition execute_get_latest ::
  "nat \<Rightarrow> 'w wire \<Rightarrow> client_configuration \<Rightarrow> 'w session \<Rightarrow> console \<Rightarrow> (int \<times> 'w session \<times> console) res" where
  "execute_get_latest fuel W config ss con =
     (let con1 = put_err (''getting latest from: '' @ fmt_d (cfg_series_id config) @ nl) con;
          (status, ss1) = session_read_latest W ss (cfg_series_id config)
      in if status \<noteq> 0 then Inr (- 1, ss1, put_err (''failed to get latest data point'' @ nl) con1)
         else bindR (read_responses fuel W ss1 0 con1) (\<lambda>(_, ss2, con2).
                case read_response ss2 of
                  None \<Rightarrow> Inl NullDeref
                | Some payload \<Rightarrow>
                    bindR (read_response_at payload (Ptr 0)) (\<lambda>r.
                      Inr (0, ss2, if rp_points_count r = 0 then put_err (''time series empty'' @ nl) con2 else con2))))"

section \<open>CSV\<close>

text \<open>The conversion of the value of a point, as the bytes it puts into the value.\<close>

definition scan_value :: "libc \<Rightarrow> nat \<Rightarrow> bytes \<Rightarrow> bytes option \<times> bytes \<times> bool" where
  "scan_value L ty bs =
     (if ty = SDB_TYPE_INT32 \<or> ty = SDB_TYPE_INT64 then
        let (v, r, e) = scan_int True bs; w = (if ty = SDB_TYPE_INT32 then 4 else 8)
        in (map_option (\<lambda>i. le_enc w (nat (clamp_long i mod 2 ^ 64))) v, r, e)
      else if ty = SDB_TYPE_FLOAT then scan_float L 4 bs
      else scan_float L 8 bs)"

text \<open>
  One line of a string series: the rest of the line behind the time.  \<^verbatim>\<open>getline\<close> keeps its buffer
  and the size of the buffer; the size is what is compared with the size of the value.
\<close>

definition string_value ::
  "libc \<Rightarrow> nat \<Rightarrow> bytes option \<Rightarrow> nat \<Rightarrow> console \<Rightarrow> (bytes \<times> bytes option \<times> nat \<times> console) res" where
  "string_value L value_size line line_len con =
     (let (l, r, e) = take_line (stdin con);
          line1 = (if stdin con = [] then line else Some l);
          line_len1 = (if stdin con = [] then line_len else getline_size L line_len (length l + 1));
          con1 = con\<lparr>stdin := r, at_eof := e\<rparr>
      in if line_len1 > value_size then die_internal ''line too long'' ''src/ctl/main.c'' 398
         else case line1 of
           None \<Rightarrow> Inl NullDeref
         | Some text \<Rightarrow>
             let chars = takeWhile (\<lambda>b. b \<noteq> 0) text; n = u64_sub (length chars) 1
             in if n > value_size then Inl OutOfBounds
                else Inr (take n chars @ replicate (value_size - n) 0, line1, line_len1, con1))"

text \<open>
  The loop of \<^verbatim>\<open>execute_from_csv\<close>; \<open>time\<close> starts as whatever the uninitialised variable holds.
  A line that does not match leaves the time and the value as they are.
\<close>

fun from_csv_loop ::
  "nat \<Rightarrow> libc \<Rightarrow> nat \<Rightarrow> nat \<Rightarrow> nat \<Rightarrow> bytes \<Rightarrow> bytes option \<Rightarrow> nat \<Rightarrow> console \<Rightarrow> (int \<times> console) res" where
  "from_csv_loop 0 L ty value_size time val line line_len con = Inl OutOfFuel"
| "from_csv_loop (Suc fuel) L ty value_size time val line line_len con =
     (if at_eof con then Inr (0, con)
      else if ty = SDB_TYPE_INT32 \<or> ty = SDB_TYPE_INT64 \<or> ty = SDB_TYPE_FLOAT \<or> ty = SDB_TYPE_DOUBLE then
        let (t, v, r, e) = fscanf_pair (scan_value L ty) (stdin con);
            time1 = (case t of None \<Rightarrow> time | Some x \<Rightarrow> x)
        in bindR (case v of None \<Rightarrow> Inr val | Some bs \<Rightarrow> store val (Ptr 0) bs) (\<lambda>val1.
             from_csv_loop fuel L ty value_size time1 val1 line line_len
               (put_out (le_enc 8 time1 @ val1) (con\<lparr>stdin := r, at_eof := e\<rparr>)))
      else if ty = SDB_TYPE_STRING then
        let (t, comma, r, e) = fscanf_time (stdin con);
            time1 = (case t of None \<Rightarrow> time | Some x \<Rightarrow> x);
            con1 = con\<lparr>stdin := r, at_eof := e\<rparr>
        in if e then Inr (0, con1)
           else bindR (string_value L value_size line line_len con1) (\<lambda>(val1, line1, line_len1, con2).
                  from_csv_loop fuel L ty value_size time1 val1 line1 line_len1 (put_out (le_enc 8 time1 @ val1) con2))
      else die_internal ''Unknown type'' ''src/ctl/main.c'' 406)"

definition execute_from_csv ::
  "nat \<Rightarrow> libc \<Rightarrow> nat \<Rightarrow> client_configuration \<Rightarrow> console \<Rightarrow> (int \<times> console) res" where
  "execute_from_csv fuel L time config con =
     (if cfg_point_size config = 0 \<or> data_type config = 0
      then Inr (- 1, put_err (''unknown point size/type'' @ nl) con)
      else let value_size = u64_sub (cfg_point_size config) 8
        in from_csv_loop fuel L (data_type config) value_size time (sdb_alloc value_size) None 0
             (put_err (''converting to binary'' @ nl) con))"

text \<open>A C string in memory, up to the first zero byte.\<close>

definition c_string_at :: "bytes \<Rightarrow> ptr \<Rightarrow> bytes res" where
  "c_string_at m p =
     (case p of
        Null \<Rightarrow> Inl NullDeref
      | Ptr a \<Rightarrow> if 0 \<le> a \<and> 0 \<in> set (drop (nat a) m) then Inr (takeWhile (\<lambda>b. b \<noteq> 0) (drop (nat a) m))
                 else Inl OutOfBounds)"

definition signed :: "nat \<Rightarrow> nat \<Rightarrow> int" where
  "signed w n = (if n < 2 ^ (w - 1) then int n else int n - 2 ^ w)"

definition print_value :: "libc \<Rightarrow> nat \<Rightarrow> bytes \<Rightarrow> ptr \<Rightarrow> bytes res" where
  "print_value L ty m p =
     (if ty = SDB_TYPE_INT32 then bindR (load m p 4) (\<lambda>bs. Inr (ascii (dec_int (signed 32 (le_dec bs)))))
      else if ty = SDB_TYPE_INT64 then bindR (load m p 8) (\<lambda>bs. Inr (ascii (dec_int (signed 64 (le_dec bs)))))
      else if ty = SDB_TYPE_FLOAT then bindR (load m p 4) (\<lambda>bs. Inr (ascii (print_float L 4 bs)))
      else if ty = SDB_TYPE_DOUBLE then bindR (load m p 8) (\<lambda>bs. Inr (ascii (print_float L 8 bs)))
      else if ty = SDB_TYPE_STRING then c_string_at m p
      else die_internal ''Unknown type'' ''src/ctl/main.c'' 457)"

text \<open>The inner loop of \<^verbatim>\<open>execute_to_csv\<close>; as many rounds as there are points, and one to leave it.\<close>

fun to_csv_rows :: "nat \<Rightarrow> libc \<Rightarrow> nat \<Rightarrow> points_list \<Rightarrow> bytes \<Rightarrow> ptr \<Rightarrow> ptr \<Rightarrow> console \<Rightarrow> console res" where
  "to_csv_rows 0 L ty list m fin cur con = Inl OutOfFuel"
| "to_csv_rows (Suc fuel) L ty list m fin cur con =
     (if cur = fin then Inr con
      else bindR (load_time m cur) (\<lambda>time.
           bindR (print_value L ty m (ptr_add cur 8)) (\<lambda>v.
             to_csv_rows fuel L ty list m fin (data_point_next list cur)
               (put_out (ascii (dec_nat (unat time) @ '','') @ v @ ascii nl) con))))"

fun to_csv_loop :: "nat \<Rightarrow> libc \<Rightarrow> nat \<Rightarrow> nat \<Rightarrow> bytes \<Rightarrow> console \<Rightarrow> (int \<times> console) res" where
  "to_csv_loop 0 L ty psize pts con = Inl OutOfFuel"
| "to_csv_loop (Suc fuel) L ty psize pts con =
     (if at_eof con then Inr (0, con)
      else let (did_read, got, con1) = fread psize points_size con;
               list = \<lparr>content = Ptr 0, count_pl = did_read, point_size = psize\<rparr>
        in bindR (store pts (Ptr 0) got) (\<lambda>pts1.
           bindR (to_csv_rows (Suc did_read) L ty list pts1 (points_list_end list) (content list) con1) (\<lambda>con2.
             to_csv_loop fuel L ty psize pts1 con2)))"

definition execute_to_csv :: "libc \<Rightarrow> client_configuration \<Rightarrow> console \<Rightarrow> (int \<times> console) res" where
  "execute_to_csv L config con =
     (if cfg_point_size config = 0 \<or> data_type config = 0
      then Inr (- 1, put_err (''unknown point size/type'' @ nl) con)
      else to_csv_loop (Suc (Suc (Suc (length (stdin con))))) L (data_type config) (cfg_point_size config)
             (sdb_alloc (u32 (cfg_point_size config * points_size))) (put_err (''converting to csv'' @ nl) con))"

section \<open>Commands\<close>

definition execute_command ::
  "nat \<Rightarrow> libc \<Rightarrow> nat \<Rightarrow> 'w wire \<Rightarrow> client_configuration \<Rightarrow> 'w session \<Rightarrow> console \<Rightarrow> (int \<times> 'w session \<times> console) res" where
  "execute_command fuel L time W config ss con =
     (if strncmp_eq SDB_CLIENT_CMD_WRITE (command config) SDB_STR_MAX_LEN then execute_write W config ss con
      else if strncmp_eq SDB_CLIENT_CMD_READ (command config) SDB_STR_MAX_LEN then execute_read fuel W config ss con
      else if strncmp_eq SDB_CLIENT_CMD_TRUNCATE (command config) SDB_STR_MAX_LEN then execute_truncate W config ss con
      else if strncmp_eq SDB_CLIENT_CMD_LATEST (command config) SDB_STR_MAX_LEN then execute_get_latest fuel W config ss con
      else if strncmp_eq SDB_CLIENT_CMD_TO_CSV (command config) SDB_STR_MAX_LEN
      then bindR (execute_to_csv L config con) (\<lambda>(status, con1). Inr (status, ss, con1))
      else if strncmp_eq SDB_CLIENT_CMD_FROM_CSV (command config) SDB_STR_MAX_LEN
      then bindR (execute_from_csv fuel L time config con) (\<lambda>(status, con1). Inr (status, ss, con1))
      else if strncmp_eq [] (command config) SDB_STR_MAX_LEN then Inr (0, ss, put_out (ascii print_usage) con)
      else Inr (- 1, ss, put_err (''unknown command: '' @ [CHR 0x27] @ command config @ [CHR 0x27] @ nl) con))"

text \<open>
  \<^verbatim>\<open>main\<close>: \<open>clock\<close> gives the two readings of the stop watch, \<open>seconds\<close> the text of the elapsed
  time.  Beside the exit status and the console, the connection as it is left.
\<close>

definition ctl_main ::
  "(string list \<Rightarrow> (char \<times> string) list) \<Rightarrow> 'a resolver \<Rightarrow> 'w tcp \<Rightarrow> timespec \<times> timespec \<Rightarrow> (nat \<Rightarrow> string) \<Rightarrow>
   nat \<Rightarrow> libc \<Rightarrow> nat \<Rightarrow> 'w wire \<Rightarrow> string list \<Rightarrow> console \<Rightarrow> (int \<times> 'w tcp \<times> console) res" where
  "ctl_main getopt_long R t clock seconds fuel L time W argv con =
     (let config = \<lparr>command = [], hostname = ''localhost'', cfg_port = 8487, cfg_series_id = 0, cfg_begin = 0,
                    cfg_end = 0, cfg_point_size = 0, data_type = 0\<rparr> in
      bindR (client_configuration_load getopt_long argv config) (\<lambda>(loaded, config1, text).
        let con1 = put_err text con in
        if loaded \<noteq> 0 then Inr (- 1, t, put_out (ascii print_usage) con1)
        else let sw = stopwatch_start (fst clock); address = hostname config1 @ '':'' @ dec_int (cfg_port config1) in
          case session_create R t (hostname config1) (cfg_port config1) of
            None \<Rightarrow> Inr (- 1, t, put_err (''Failed to connect to: '' @ address @ nl) con1)
          | Some ss \<Rightarrow>
              bindR (execute_command fuel L time W config1 ss (put_err (''Connected to: '' @ address @ nl) con1))
                (\<lambda>(status, ss1, con2).
                  let elapsed = seconds (stopwatch_stop_and_destroy (snd clock) sw) in
                  Inr (status, session_destroy ss1,
                       put_err ((if status = 0 then ''Command executed ('' else ''Command failed ('') @ elapsed @ ''s)'' @ nl)
                         con2))))"

section \<open>Reading the latest point\<close>

lemma session_receive_keeps:
  "session_receive W ss ty = Inr (r, ss') \<Longrightarrow> read_response ss' = read_response ss \<and> read_open ss' = read_open ss"
  by (auto simp: session_receive_def Let_def elim!: bindR_InrE split: if_splits)

lemma read_next_last: "session_read_next W ss = Inr (False, ss') \<Longrightarrow> read_open ss \<Longrightarrow> read_response ss' = None"
  by (auto simp: session_read_next_def elim!: bindR_InrE split: option.splits if_splits dest!: session_receive_keeps)

lemma read_next_open: "session_read_next W ss = Inr (True, ss') \<Longrightarrow> read_open ss'"
  by (auto simp: session_read_next_def elim!: bindR_InrE split: option.splits if_splits dest!: session_receive_keeps)

lemma read_responses_none:
  "read_responses fuel W ss n con = Inr (k, ss', con') \<Longrightarrow> read_open ss \<Longrightarrow> read_response ss' = None"
proof (induction fuel arbitrary: ss n con)
  case (Suc fuel)
  from Suc.prems obtain more ss1 where r: "session_read_next W ss = Inr (more, ss1)"
    and k: "\<not> more \<and> ss' = ss1 \<or> more \<and> (\<exists>m con1. read_responses fuel W ss1 m con1 = Inr (k, ss', con'))"
    by (auto elim!: bindR_InrE split: if_splits option.splits) blast+
  from k show ?case
  proof
    assume "\<not> more \<and> ss' = ss1"
    with r Suc.prems(2) read_next_last [of W ss ss1] show ?thesis by simp
  next
    assume "more \<and> (\<exists>m con1. read_responses fuel W ss1 m con1 = Inr (k, ss', con'))"
    with r Suc.IH [of ss1] read_next_open [of W ss ss1] show ?thesis by auto
  qed
qed simp

section \<open>Printing the pages of a read\<close>

context transport
begin

lemma read_responses_pages:
  assumes "arrived W (link ss) = concat (map (response_frame ps) (pages @ [[]]))" and "read_open ss" and "ps < 2 ^ 32"
    and "\<forall>xs\<in>set pages. xs \<noteq> [] \<and> all_len ps xs \<and> length xs < 2 ^ 64 \<and> 21 + length (concat xs) < 2 ^ 31"
    and "\<And>n. alloc_ok W n" and "length pages < fuel"
  shows "\<exists>k ss'. read_responses fuel W ss n con
           = Inr (k, ss', con\<lparr>stdout := stdout con @ concat (concat pages)\<rparr>) \<and> \<not> read_open ss' \<and>
             peer (link ss') = peer (link ss) \<and>
             taken (link ss') = taken (link ss) + length (concat (map (response_frame ps) (pages @ [[]])))"
  using assms
proof (induction pages arbitrary: fuel ss n con)
  case Nil
  then obtain f where f: "fuel = Suc f" by (cases fuel) auto
  obtain t where "session_read_next W ss = Inr (False, ss\<lparr>link := t, read_open := False, read_response := None\<rparr>)"
    "peer t = peer (link ss)" "taken t = taken (link ss) + length (response_frame ps [])"
    using read_next_page [of ss ps "[]" "[]"] Nil.prems by auto
  then show ?case unfolding f by simp
next
  case (Cons xs pages)
  then obtain f where f: "fuel = Suc f" by (cases fuel) auto
  let ?p = "response_header_bytes (length xs) ps @ concat xs"
  have xs: "xs \<noteq> []" "all_len ps xs" "length xs < 2 ^ 64" "21 + length (concat xs) < 2 ^ 31" using Cons.prems(4) by auto
  have a: "arrived W (link ss) = response_frame ps xs @ concat (map (response_frame ps) (pages @ [[]]))"
    using Cons.prems(1) by simp
  obtain t where t: "session_read_next W ss = Inr (True, ss\<lparr>link := t, read_open := True, read_response := Some ?p\<rparr>)"
    "arrived W t = concat (map (response_frame ps) (pages @ [[]]))" "peer t = peer (link ss)"
    "taken t = taken (link ss) + length (response_frame ps xs)"
    using read_next_page [OF a xs(2) Cons.prems(3) xs(4,3)] Cons.prems(2,5) xs(1) by auto
  define ss1 where "ss1 = ss\<lparr>link := t, read_open := True, read_response := Some ?p\<rparr>"
  have r: "read_response_at ?p (Ptr 0) = Inr \<lparr>rp_points_count = length xs, rp_point_size = ps, rp_points = Ptr 13\<rparr>"
    using read_response_header [OF xs(3) Cons.prems(3), of SDB_READ_RESPONSE "concat xs", folded response_header_bytes_def] .
  have n: "ps * length xs = length (concat xs)" using xs(2) by simp
  have ld: "load ?p (Ptr 13) (ps * length xs) = Inr (concat xs)"
    unfolding n by (cases "concat xs = []") (simp_all add: load_def del: concat_eq_Nil_conv)
  have step: "read_responses fuel W ss n con
      = read_responses f W ss1 (s32 (n + int (length xs))) (con\<lparr>stdout := stdout con @ concat xs\<rparr>)"
    unfolding f using t(1) r ld by (simp add: ss1_def put_out_def)
  have "arrived W (link ss1) = concat (map (response_frame ps) (pages @ [[]]))" "read_open ss1"
    using t(2) by (simp_all add: ss1_def)
  from Cons.IH [OF this Cons.prems(3), of f "s32 (n + int (length xs))" "con\<lparr>stdout := stdout con @ concat xs\<rparr>"]
    Cons.prems(4,5,6) f t(3,4)
  show ?case unfolding step by (auto simp: ss1_def)
qed

end

section \<open>CSV rows\<close>

definition value_width :: "nat \<Rightarrow> nat" where
  "value_width ty = (if ty = SDB_TYPE_INT32 then 4 else 8)"

text \<open>The text of a point with an integer value, without the newline.\<close>

definition csv_row :: "nat \<Rightarrow> point \<Rightarrow> bytes" where
  "csv_row ty c = ascii (dec_nat (unat (point_time c)) @ '','')
     @ ascii (dec_int (signed (8 * value_width ty) (le_dec (drop 8 c))))"

lemma le_enc_mod: "le_enc n (x mod 256 ^ n) = le_enc n x"
  by (metis le_dec_enc le_enc_dec length_le_enc)

lemma signed_value:
  assumes "length bs = w" and "w = 4 \<or> w = 8"
  shows "le_enc w (nat (clamp_long (signed (8 * w) (le_dec bs)) mod 2 ^ 64)) = bs"
proof -
  let ?n = "le_dec bs"
  have lt: "?n < 256 ^ w" using le_dec_less [of bs] assms(1) by simp
  have neg: "nat ((int n - m) mod 2 ^ 64) = nat (int n - m + 2 ^ 64)" if "int n < m" "m \<le> 2 ^ 64" for n m
  proof -
    have "(int n - m) mod 2 ^ 64 = (int n - m + 2 ^ 64) mod 2 ^ 64" by (simp only: mod_add_self2)
    also have "\<dots> = int n - m + 2 ^ 64" using that by (intro mod_pos_pos_trivial) auto
    finally show ?thesis by simp
  qed
  have "nat (clamp_long (signed (8 * w) ?n) mod 2 ^ 64) mod 256 ^ w = ?n"
    using assms(2)
  proof
    assume w: "w = 4"
    have "nat (int ?n - 2 ^ 32 + 2 ^ 64) = ?n + 2 ^ 32 * (2 ^ 32 - 1)" using lt w by simp
    moreover have "(?n + 2 ^ 32 * (2 ^ 32 - 1)) mod 2 ^ 32 = ?n" using lt w by (simp only: mod_mult_self2) simp
    ultimately show ?thesis using lt w neg [of ?n "2 ^ 32"] by (simp add: signed_def clamp_long_def)
  next
    assume w: "w = 8"
    then show ?thesis using lt neg [of ?n "2 ^ 64"] by (simp add: signed_def clamp_long_def)
  qed
  then show ?thesis using le_enc_mod [of w] le_enc_dec [of w bs] assms(1) by metis
qed

text \<open>One line is read back, behind at most one newline left over from the line before.\<close>

lemma fscanf_row:
  assumes ty: "ty = SDB_TYPE_INT32 \<or> ty = SDB_TYPE_INT64" and c: "length c = 8 + value_width ty"
    and pre: "pre = [] \<or> pre = ascii nl"
  shows "fscanf_pair (scan_value L ty) (pre @ csv_row ty c @ ascii nl @ rest)
         = (Some (unat (point_time c)), Some (drop 8 c), ascii nl @ rest, False)"
proof -
  let ?t = "unat (point_time c)" and ?w = "value_width ty"
  let ?v = "signed (8 * ?w) (le_dec (drop 8 c))"
  have w: "?w = 4 \<or> ?w = 8" by (simp add: value_width_def)
  have comma: "no_digit (ascii '','' @ r)" for r by (simp add: no_digit_def ascii_def digit_val_def)
  have newline: "no_digit (ascii nl @ r)" for r by (simp add: no_digit_def ascii_def digit_val_def)
  have skip: "scan_int b (pre @ r) = scan_int b r" for b r
    using pre by (auto simp: scan_int_def ascii_def is_space_def)
  have "(unat (point_time c) :: nat) < 2 ^ 64" using unsigned_less [of "point_time c", where ?'a = nat] by simp
  then have ul: "to_ulong (int ?t) = ?t" by (rule to_ulong_id)
  have t: "scan_int False (pre @ ascii (dec_nat ?t) @ ascii '','' @ r) = (Some (int ?t), ascii '','' @ r, False)" for r
    using scan_int_dec [OF comma, of False "int ?t" r] skip by (simp add: dec_int_def ascii_def)
  have tm: "fscanf_time (pre @ csv_row ty c @ ascii nl @ rest) = (Some ?t, True, ascii (dec_int ?v) @ ascii nl @ rest, False)"
    using t [of "ascii (dec_int ?v) @ ascii nl @ rest"] ul by (simp add: fscanf_time_def csv_row_def) (simp add: ascii_def)
  have "scan_int True (ascii (dec_int ?v) @ ascii nl @ rest) = (Some ?v, ascii nl @ rest, False)"
    using scan_int_dec [OF newline, of True ?v rest] by (simp add: ascii_def)
  moreover have "le_enc ?w (nat (clamp_long ?v mod 2 ^ 64)) = drop 8 c"
    using signed_value [of "drop 8 c" ?w] c w by simp
  ultimately have "scan_value L ty (ascii (dec_int ?v) @ ascii nl @ rest) = (Some (drop 8 c), ascii nl @ rest, False)"
    using ty by (auto simp: scan_value_def value_width_def data_types)
  with tm show ?thesis by (simp add: fscanf_pair_def)
qed

lemma fscanf_end:
  assumes "pre = [] \<or> pre = ascii nl"
  shows "fscanf_pair conv pre = (None, None, [], True)"
  using assms by (auto simp: fscanf_pair_def fscanf_time_def scan_int_def ascii_def is_space_def)

lemma point_bytes: "length c = 8 + w \<Longrightarrow> le_enc 8 (unat (point_time c)) @ drop 8 c = c"
proof -
  assume l: "length c = 8 + w"
  have "le_dec (take 8 c) < 2 ^ 64" using l le_dec_less [of "take 8 c"] by simp
  then have "unat (point_time c) = le_dec (take 8 c)" by (simp add: point_time_def unat_of_nat)
  with l show ?thesis using le_enc_dec [of 8 "take 8 c"] by simp
qed

lemma from_csv_rows:
  assumes ty: "ty = SDB_TYPE_INT32 \<or> ty = SDB_TYPE_INT64" and cs: "all_len (8 + value_width ty) cs"
    and pre: "pre = [] \<or> pre = ascii nl" and val: "length val = value_width ty"
    and con: "stdin con = pre @ concat (map (\<lambda>c. csv_row ty c @ ascii nl) cs)" "\<not> at_eof con" and fuel: "length cs + 2 \<le> fuel"
  shows "from_csv_loop fuel L ty n time val line line_len con
         = Inr (0, con\<lparr>stdin := [], at_eof := True,
             stdout := stdout con @ concat cs @ (if cs = [] then le_enc 8 time @ val else last cs)\<rparr>)"
  using cs pre val con fuel
proof (induction cs arbitrary: fuel pre time val con)
  case Nil
  then obtain f where f: "fuel = Suc (Suc f)" by (metis add_2_eq_Suc' add_0 list.size(3) Suc_le_D Suc_le_mono)
  have "fscanf_pair (scan_value L ty) (stdin con) = (None, None, [], True)" using fscanf_end Nil.prems(2,4) by simp
  then show ?case using Nil.prems(5) ty unfolding f by (auto simp: put_out_def Let_def data_types)
next
  case (Cons c cs)
  then obtain f where f: "fuel = Suc f" by (cases fuel) auto
  let ?rest = "concat (map (\<lambda>c. csv_row ty c @ ascii nl) cs)"
  let ?con = "con\<lparr>stdin := ascii nl @ ?rest, at_eof := False, stdout := stdout con @ c\<rparr>"
  have c: "length c = 8 + value_width ty" using Cons.prems(1) by simp
  have row: "fscanf_pair (scan_value L ty) (stdin con)
      = (Some (unat (point_time c)), Some (drop 8 c), ascii nl @ ?rest, False)"
    using fscanf_row [OF ty c Cons.prems(2), of L ?rest] Cons.prems(4) by simp
  have st: "store val (Ptr 0) (drop 8 c) = Inr (drop 8 c)" using c Cons.prems(3) by (auto simp: store_def)
  have step: "from_csv_loop fuel L ty n time val line line_len con
      = from_csv_loop f L ty n (unat (point_time c)) (drop 8 c) line line_len ?con"
    unfolding f using row st ty Cons.prems(5) point_bytes [OF c] by (auto simp: put_out_def Let_def data_types)
  have "from_csv_loop f L ty n (unat (point_time c)) (drop 8 c) line line_len ?con
      = Inr (0, ?con\<lparr>stdin := [], at_eof := True,
             stdout := stdout ?con @ concat cs @ (if cs = [] then le_enc 8 (unat (point_time c)) @ drop 8 c else last cs)\<rparr>)"
    using Cons.prems f c by (intro Cons.IH [where pre = "ascii nl"]) auto
  then show ?case unfolding step using point_bytes [OF c] by simp
qed

text \<open>The other way: the points in memory are printed row by row.\<close>

lemma print_row:
  assumes ty: "ty = SDB_TYPE_INT32 \<or> ty = SDB_TYPE_INT64" and pl: "plist m list pre cs post"
    and sz: "point_size list = 8 + value_width ty" and i: "i < length cs"
  shows "print_value L ty m (ptr_add (elem (length pre) (point_size list) i) 8)
         = Inr (ascii (dec_int (signed (8 * value_width ty) (le_dec (drop 8 (cs ! i))))))"
proof -
  have "load m (elem (length pre) (point_size list) i) (point_size list) = Inr (cs ! i)"
    using pl i by (auto simp: plist_def load_record)
  from load_drop [OF this, of 8]
  have "load m (ptr_add (elem (length pre) (point_size list) i) 8) (value_width ty) = Inr (drop 8 (cs ! i))"
    by (simp add: sz)
  then show ?thesis using ty by (auto simp: print_value_def value_width_def data_types)
qed

lemma to_csv_rows_ok:
  assumes ty: "ty = SDB_TYPE_INT32 \<or> ty = SDB_TYPE_INT64" and pl: "plist m list pre cs post"
    and sz: "point_size list = 8 + value_width ty"
  shows "i \<le> length cs \<Longrightarrow> length cs - i < fuel \<Longrightarrow>
    to_csv_rows fuel L ty list m (points_list_end list) (elem (length pre) (point_size list) i) con
      = Inr (con\<lparr>stdout := stdout con @ concat (map (\<lambda>c. csv_row ty c @ ascii nl) (drop i cs))\<rparr>)"
proof (induction fuel arbitrary: i con)
  case (Suc fuel)
  let ?p = "elem (length pre) (point_size list) i"
  note fin = plist_end [OF pl]
  show ?case
  proof (cases "i = length cs")
    case True
    then show ?thesis by (simp add: fin)
  next
    case False
    then have i: "i < length cs" using Suc.prems(1) by simp
    let ?con = "con\<lparr>stdout := stdout con @ csv_row ty (cs ! i) @ ascii nl\<rparr>"
    have "to_csv_rows (Suc fuel) L ty list m (points_list_end list) ?p con
        = to_csv_rows fuel L ty list m (points_list_end list) (elem (length pre) (point_size list) (Suc i)) ?con"
      using False plist_load_time [OF pl i] print_row [OF ty pl sz i, of L] plistD(6) [OF pl]
      by (simp add: fin data_point_next_def put_out_def csv_row_def)
    also have "\<dots> = Inr (?con\<lparr>stdout := stdout ?con @ concat (map (\<lambda>c. csv_row ty c @ ascii nl) (drop (Suc i) cs))\<rparr>)"
      using i Suc.prems(2) by (intro Suc.IH) auto
    also have "\<dots> = Inr (con\<lparr>stdout := stdout con @ concat (map (\<lambda>c. csv_row ty c @ ascii nl) (drop i cs))\<rparr>)"
      using i by (simp add: Cons_nth_drop_Suc [symmetric])
    finally show ?thesis .
  qed
qed simp

text \<open>
  One batch: input shorter than the buffer is read whole, and the buffer then holds its points.
\<close>

lemma one_batch:
  assumes w: "8 \<le> ps" "ps \<le> 655" and cs: "all_len ps cs" "length cs < points_size"
    and con: "stdin con = concat cs" and post: "post = replicate (ps * points_size - length (concat cs)) 0"
  shows "u32 (ps * points_size) = ps * points_size"
    and "fread ps points_size con = (length cs, concat cs, con\<lparr>stdin := [], at_eof := True\<rparr>)"
    and "store (sdb_alloc (ps * points_size)) (Ptr 0) (concat cs) = Inr (concat cs @ post)"
    and "plist (concat cs @ post) \<lparr>content = Ptr 0, count_pl = length cs, point_size = ps\<rparr> [] cs post"
proof -
  have len: "length (concat cs) = length cs * ps" using cs(1) by simp
  have lt: "length cs * ps < points_size * ps" using w(1) cs(2) by (intro mult_strict_right_mono) auto
  show "u32 (ps * points_size) = ps * points_size" using w(2) by (simp add: points_size_def u32_def)
  show "fread ps points_size con = (length cs, concat cs, con\<lparr>stdin := [], at_eof := True\<rparr>)"
    using lt len con w(1) by (simp add: fread_def Let_def mult.commute)
  show "store (sdb_alloc (ps * points_size)) (Ptr 0) (concat cs) = Inr (concat cs @ post)"
    using lt unfolding post len [symmetric]
    by (cases "concat cs = []") (simp_all add: store_def sdb_alloc_def len mult.commute del: concat_eq_Nil_conv)
  have "length (concat cs @ post) < 2 ^ 63" using lt len w(2) by (simp add: post points_size_def)
  then show "plist (concat cs @ post) \<lparr>content = Ptr 0, count_pl = length cs, point_size = ps\<rparr> [] cs post"
    using w(1) cs(1) by (simp add: plist_def)
qed

lemma to_csv_ok:
  assumes ty: "ty = SDB_TYPE_INT32 \<or> ty = SDB_TYPE_INT64" and cs: "all_len (8 + value_width ty) cs" "length cs < points_size"
    and cfg: "data_type config = ty" "cfg_point_size config = 8 + value_width ty"
    and con: "stdin con = concat cs" "\<not> at_eof con"
  shows "execute_to_csv L config con
         = Inr (0, con\<lparr>stdin := [], at_eof := True, stderr := stderr con @ ''converting to csv'' @ nl,
             stdout := stdout con @ concat (map (\<lambda>c. csv_row ty c @ ascii nl) cs)\<rparr>)"
proof -
  let ?ps = "8 + value_width ty" and ?err = "''converting to csv'' @ nl"
  let ?con = "con\<lparr>stdin := [], at_eof := True, stderr := stderr con @ ?err\<rparr>"
  let ?list = "\<lparr>content = Ptr 0, count_pl = length cs, point_size = ?ps\<rparr>"
  define post where "post = replicate (?ps * points_size - length (concat cs)) (0 :: byte)"
  have w: "8 \<le> ?ps" "?ps \<le> 655" by (simp_all add: value_width_def)
  have "stdin (put_err ?err con) = concat cs" using con(1) by (simp add: put_err_def)
  note B = one_batch [OF w cs this post_def]
  have fr: "fread ?ps points_size (put_err ?err con) = (length cs, concat cs, ?con)"
    using B(2) by (simp add: put_err_def)
  have rows: "to_csv_rows (Suc (length cs)) L ty ?list (concat cs @ post) (points_list_end ?list) (Ptr 0) ?con
      = Inr (?con\<lparr>stdout := stdout con @ concat (map (\<lambda>c. csv_row ty c @ ascii nl) cs)\<rparr>)"
    using to_csv_rows_ok [OF ty B(4), of 0 "Suc (length cs)" L ?con] by simp
  have "execute_to_csv L config con = to_csv_loop (Suc (Suc (Suc (length (concat cs))))) L ty ?ps
      (sdb_alloc (?ps * points_size)) (put_err ?err con)"
    using cfg ty B(1) con by (auto simp: execute_to_csv_def data_types)
  also have "\<dots> = Inr (0, ?con\<lparr>stdout := stdout con @ concat (map (\<lambda>c. csv_row ty c @ ascii nl) cs)\<rparr>)"
    using con(2) B(3) fr rows by (simp add: put_err_def del: to_csv_rows.simps)
  finally show ?thesis by simp
qed

section \<open>Properties\<close>

text \<open>
  C36: converting integer points to CSV and back gives the points again, followed by the last one a
  second time: the newline behind the last row makes one more round of the loop, whose scan
  fails and leaves time and value as they were.
\<close>

theorem csv_round_trip:
  assumes "ty = SDB_TYPE_INT32 \<or> ty = SDB_TYPE_INT64" and "data_type config = ty"
    and "cfg_point_size config = 8 + value_width ty" and "all_len (8 + value_width ty) cs" and "cs \<noteq> []"
    and "length cs < points_size" and "stdin con = concat cs" and "\<not> at_eof con" and "stdout con = []"
    and "length cs + 2 \<le> fuel"
  shows "\<exists>con1 con2. execute_to_csv L config con = Inr (0, con1) \<and>
           execute_from_csv fuel L time config (con1\<lparr>stdin := stdout con1, at_eof := False, stdout := []\<rparr>) = Inr (0, con2) \<and>
           stdout con2 = concat cs @ last cs"
proof -
  let ?rows = "concat (map (\<lambda>c. csv_row ty c @ ascii nl) cs)"
  let ?con1 = "con\<lparr>stdin := [], at_eof := True, stderr := stderr con @ ''converting to csv'' @ nl, stdout := ?rows\<rparr>"
  let ?con = "put_err (''converting to binary'' @ nl) (?con1\<lparr>stdin := stdout ?con1, at_eof := False, stdout := []\<rparr>)"
  have one: "execute_to_csv L config con = Inr (0, ?con1)"
    using to_csv_ok [OF assms(1,4,6,2,3,7,8), of L] assms(9) by simp
  have w: "u64_sub (8 + value_width ty) 8 = value_width ty" by (subst u64_sub_le) (simp_all add: value_width_def)
  have "from_csv_loop fuel L ty (value_width ty) time (sdb_alloc (value_width ty)) None 0 ?con
      = Inr (0, ?con\<lparr>stdin := [], at_eof := True,
          stdout := stdout ?con @ concat cs @ (if cs = [] then le_enc 8 time @ sdb_alloc (value_width ty) else last cs)\<rparr>)"
    using assms(1,4,10) by (intro from_csv_rows [where pre = "[]"]) (simp_all add: put_err_def)
  then have "execute_from_csv fuel L time config (?con1\<lparr>stdin := stdout ?con1, at_eof := False, stdout := []\<rparr>)
      = Inr (0, ?con\<lparr>stdin := [], at_eof := True, stdout := stdout ?con @ concat cs @ last cs\<rparr>)"
    using assms(1,2,3,5) w by (auto simp: execute_from_csv_def Let_def data_types)
  with one show ?thesis by (intro exI conjI) (assumption, assumption, simp add: put_err_def)
qed

definition sample_config :: "nat \<Rightarrow> nat \<Rightarrow> client_configuration" where
  "sample_config ty ps = \<lparr>command = ''read'', hostname = ''localhost'', cfg_port = 8487, cfg_series_id = 7,
     cfg_begin = 0, cfg_end = 30, cfg_point_size = ps, data_type = ty\<rparr>"

definition sample_console :: "bytes \<Rightarrow> console" where
  "sample_console bs = \<lparr>stdin = bs, at_eof = False, stdout = [], stderr = []\<rparr>"

lemma sample_console_simps [simp]:
  "stdin (sample_console bs) = bs" "at_eof (sample_console bs) = False" "stdout (sample_console bs) = []"
  by (simp_all add: sample_console_def)

definition plain_libc :: libc where
  "plain_libc = \<lparr>scan_float = (\<lambda>w bs. (None, bs, bs = [])), print_float = (\<lambda>w bs. ''0.000000''),
     getline_size = (\<lambda>old n. max old (max 120 n))\<rparr>"

theorem csv_round_trip_witness:
  "\<exists>con1 con2. execute_to_csv plain_libc (sample_config SDB_TYPE_INT64 16) (sample_console (concat [sample 10 1, sample 20 2]))
       = Inr (0, con1) \<and>
     execute_from_csv 4 plain_libc 0 (sample_config SDB_TYPE_INT64 16)
       (con1\<lparr>stdin := stdout con1, at_eof := False, stdout := []\<rparr>) = Inr (0, con2) \<and>
     stdout con2 = concat [sample 10 1, sample 20 2] @ last [sample 10 1, sample 20 2]"
  by (rule csv_round_trip [where ty = SDB_TYPE_INT64])
    (simp_all add: sample_config_def value_width_def data_types points_size_def)



text \<open>
  The size of the buffer that \<^verbatim>\<open>write\<close> and \<^verbatim>\<open>to_csv\<close> read their input into is computed with 32
  bits, so that for points of more than 655 bytes the input runs over its end.
\<close>

lemma write_buffer_overrun:
  assumes "data_type config \<noteq> 0" and "cfg_point_size config \<noteq> 0" and "\<not> at_eof con"
    and "u32 (cfg_point_size config * points_size) < length (take (cfg_point_size config * points_size) (stdin con))"
  shows "execute_write W config ss con = Inl OutOfBounds \<and> execute_to_csv L config con = Inl OutOfBounds"
proof -
  let ?n = "cfg_point_size config * points_size"
  have s: "store (sdb_alloc (u32 ?n)) (Ptr 0) (take ?n (stdin con)) = Inl OutOfBounds"
    using assms(2,4) by (auto simp: store_def points_size_def)
  have "execute_write W config ss con = Inl OutOfBounds"
    using assms(1-3) s by (simp add: execute_write_def fread_def put_err_def Let_def)
  moreover have "execute_to_csv L config con = Inl OutOfBounds"
    using assms(1-3) s by (simp add: execute_to_csv_def fread_def put_err_def Let_def)
  ultimately show ?thesis ..
qed

lemma write_buffer_overrun_example:
  "execute_write echo_wire (sample_config SDB_TYPE_STRING 656)
       \<lparr>link = \<lparr>peer = [], taken = 0, sends = 0, recvs = 0, is_open = True\<rparr>, read_response = None, read_open = False\<rparr>
       (sample_console (replicate 4194305 0)) = Inl OutOfBounds \<and>
     execute_to_csv plain_libc (sample_config SDB_TYPE_STRING 656) (sample_console (replicate 4194305 0)) = Inl OutOfBounds"
  by (rule write_buffer_overrun) (simp_all add: sample_config_def data_types points_size_def u32_def)

text \<open>
  C37: the command \<^verbatim>\<open>latest\<close> never succeeds, whatever the server answers: the loop over the responses
  ends only when one is missing or empty, and the response the code looks at next has then been
  freed and is a null pointer.
\<close>

theorem get_latest_never_succeeds:
  assumes "\<not> read_open ss"
  shows "execute_get_latest fuel W config ss con \<noteq> Inr r"
proof -
  let ?ss = "(session_send_and_destroy W ss (read_latest_request_create (cfg_series_id config)))\<lparr>read_open := True\<rparr>"
  have "session_read_latest W ss (cfg_series_id config) = (0, ?ss)"
    using assms by (simp add: session_read_latest_def)
  then show ?thesis
    using read_responses_none [of fuel W ?ss] by (auto simp: execute_get_latest_def Let_def elim!: bindR_InrE)
qed

theorem get_latest_never_succeeds_witness:
  "\<forall>ss con. execute_get_latest 5 echo_wire (sample_config SDB_TYPE_INT64 16)
     \<lparr>link = \<lparr>peer = [], taken = 0, sends = 0, recvs = 0, is_open = True\<rparr>, read_response = None, read_open = False\<rparr>
     (sample_console []) \<noteq> Inr (0, ss, con)"
  by (intro allI, rule get_latest_never_succeeds) simp

end
