(* ===== verification/ClientServer.thy ===== *)
theory ClientServer
  imports Requests Ctl
begin

text \<open>
  The two programs connected: the server, with one of its clients, as the other end of a
  session's connection.  What the client sends in one call, the server reads in pieces of at
  most \<^verbatim>\<open>SDB_SERVER_READ_BUFFER_MAX_LEN\<close> bytes; a server that fails is one that closes.
\<close>

section \<open>The server as a peer\<close>

type_synonym served = "disposition \<times> client \<times> store"

definition server_step :: "nat \<Rightarrow> 'a net_platform_scheme \<Rightarrow> served \<Rightarrow> bytes \<Rightarrow> served" where
  "server_step fuel P w d =
     (case w of (disp, c, st) \<Rightarrow>
        case disp of
          Disconnect \<Rightarrow> w
        | Keep \<Rightarrow>
            (case feed P (client_handler_process_message fuel P) c (chunks SDB_SERVER_READ_BUFFER_MAX_LEN d) st of
               Inl _ \<Rightarrow> (Disconnect, c, st)
             | Inr w' \<Rightarrow> w'))"

definition server_wire ::
  "nat \<Rightarrow> 'a net_platform_scheme \<Rightarrow> (nat \<Rightarrow> nat \<Rightarrow> int) \<Rightarrow> (nat \<Rightarrow> nat \<Rightarrow> int) \<Rightarrow> served wire" where
  "server_wire fuel P sc rc =
     \<lparr>peer_step = server_step fuel P, peer_output = (\<lambda>(disp, c, st). concat (sent c)),
      peer_closed = (\<lambda>(disp, c, st). disp = Disconnect), send_count = sc, recv_count = rc, alloc_ok = (\<lambda>_. True)\<rparr>"

text \<open>A network that moves at most \<open>m + 1\<close> bytes at a time.\<close>

definition segment :: "nat \<Rightarrow> nat \<Rightarrow> nat \<Rightarrow> int" where
  "segment m k n = int (min n (Suc m))"

interpretation segments: transport "server_wire fuel P (segment m) (segment m)" for fuel P m
  by unfold_locales (auto simp: server_wire_def segment_def)

lemma feed_append:
  "feed P handler c (ds @ es) h = bindR (feed P handler c ds h) (\<lambda>(disp, c1, h1).
     case disp of Keep \<Rightarrow> feed P handler c1 es h1 | Disconnect \<Rightarrow> Inr (Disconnect, c1, h1))"
proof (induction ds arbitrary: c h)
  case (Cons d ds)
  show ?case
  proof (cases "data_received P handler c d h")
    case (Inr r)
    obtain disp c1 h1 where r: "r = (disp, c1, h1)" by (cases r)
    show ?thesis using Inr Cons by (cases disp) (simp_all add: r)
  qed simp
qed simp

lemma server_steps:
  "feed P (client_handler_process_message fuel P) c (concat (map (chunks SDB_SERVER_READ_BUFFER_MAX_LEN) ds)) st
     = Inr (Keep, c', st') \<Longrightarrow>
   fold (\<lambda>d w. server_step fuel P w d) ds (Keep, c, st) = (Keep, c', st')"
proof (induction ds arbitrary: c st)
  case (Cons d ds)
  from Cons.prems obtain disp c1 st1 where
    f: "feed P (client_handler_process_message fuel P) c (chunks SDB_SERVER_READ_BUFFER_MAX_LEN d) st = Inr (disp, c1, st1)"
    and g: "(case disp of
        Keep \<Rightarrow> feed P (client_handler_process_message fuel P) c1 (concat (map (chunks SDB_SERVER_READ_BUFFER_MAX_LEN) ds)) st1
      | Disconnect \<Rightarrow> Inr (Disconnect, c1, st1)) = Inr (Keep, c', st')"
    by (auto simp: feed_append elim!: bindR_InrE)
  have k: "disp = Keep" using g by (cases disp) simp_all
  then have "server_step fuel P (Keep, c, st) d = (Keep, c1, st1)" using f by (simp add: server_step_def)
  with Cons.IH g k show ?case by simp
qed simp

lemma frame_in_pieces:
  assumes c: "idle P c" and p: "8 + length p \<le> packet_max_len P" "packet_max_len P < 2 ^ 32"
    and ds: "concat ds = packet_create p" "[] \<notin> set ds"
    and run: "client_handler_process_message fuel P (received c (packet_create p)) (Ptr 8) (length p) st = Inr (0, c2, st2)"
    and c2: "take 8 (buffer c2) = take 8 (buffer (received c (packet_create p)))"
      "drop (8 + length p) (buffer c2) = drop (8 + length p) (buffer (received c (packet_create p)))"
  obtains c' where "fold (\<lambda>d w. server_step fuel P w d) ds (Keep, c, st) = (Keep, c', st2)"
    and "idle P c'" and "sent c' = sent c2"
proof -
  let ?H = "client_handler_process_message fuel P" and ?es = "concat (map (chunks SDB_SERVER_READ_BUFFER_MAX_LEN) ds)"
  have N: "1 \<le> SDB_SERVER_READ_BUFFER_MAX_LEN" by (simp add: SDB_SERVER_READ_BUFFER_MAX_LEN_def)
  have st: "stream c = []" using c by (simp add: stream_def idle_def)
  have lb: "buffer_length c \<le> length (buffer c)" "length (buffer c) < 2 ^ 63"
    "buffer_length c + length (packet_create p) \<le> length (buffer c)"
    using c p by (simp_all add: idle_def SDB_SERVER_READ_BUFFER_MAX_LEN_def)
  have "concat ?es = concat ds" using N by (induction ds) (simp_all add: concat_chunks)
  then have es: "concat ?es = packet_create p" using ds(1) by simp
  moreover have "\<forall>e\<in>set ?es. e \<noteq> []" using in_chunks [OF _ N] by auto
  moreover have "?es \<noteq> []" using es packet_create_neq_Nil [of p] by (metis concat.simps(1))
  ultimately have fd: "feed P ?H c ?es st = data_received P ?H c (packet_create p) st"
    using feed_pieces [where handler = ?H and h = st, OF lb(1,2), of ?es p] lb(3) st p by simp
  have keep: "buffer_length c2 = buffer_length (received c (packet_create p))" "length (buffer c2) = length (buffer c)"
    using messages.keeps [OF run] lb by (simp_all add: received_def stream_def)
  obtain c' where c': "data_received P ?H c (packet_create p) st = Inr (Keep, c', st2)" "stream c' = []"
    "sent c' = sent c2" "length (buffer c') = length (buffer c)"
    using data_received_frame(2) [where rest = "[]" and handler = ?H, OF lb(1,2) _ lb(3) _ p run keep(1) c2 keep(2)] st by auto
  have "idle P c'" using c'(2,4) c by (auto simp: idle_def stream_def SDB_SERVER_READ_BUFFER_MAX_LEN_def)
  with server_steps [of P fuel c ds st c' st2] fd c' show thesis by (intro that [of c']) simp_all
qed

section \<open>Requests of a session\<close>

text \<open>
  \<open>attached P ss c st\<close>: the session is connected to the server, whose client \<open>c\<close> is idle, with
  the store \<open>st\<close>, and it has received all that was sent.
\<close>

definition attached :: "'a net_platform_scheme \<Rightarrow> served session \<Rightarrow> client \<Rightarrow> store \<Rightarrow> bool" where
  "attached P ss c st \<longleftrightarrow>
     idle P c \<and> peer (link ss) = (Keep, c, st) \<and> taken (link ss) = length (concat (sent c))"

lemma session_request:
  assumes T: "transport (server_wire fuel P sc rc)" and at: "attached P ss c st"
    and p: "8 + length p \<le> packet_max_len P" "packet_max_len P < 2 ^ 32"
    and run: "client_handler_process_message fuel P (received c (packet_create p)) (Ptr 8) (length p) st = Inr (0, c2, st2)"
    and c2: "take 8 (buffer c2) = take 8 (buffer (received c (packet_create p)))"
      "drop (8 + length p) (buffer c2) = drop (8 + length p) (buffer (received c (packet_create p)))"
    and snt: "sent c2 = sent c @ frames"
  obtains t c' where "session_send_and_destroy (server_wire fuel P sc rc) ss p = ss\<lparr>link := t\<rparr>"
    and "peer t = (Keep, c', st2)" and "idle P c'" and "sent c' = sent c @ frames"
    and "arrived (server_wire fuel P sc rc) t = concat frames" and "taken t = taken (link ss)"
proof -
  let ?W = "server_wire fuel P sc rc"
  obtain ds n where ds: "concat ds = packet_create p" "[] \<notin> set ds"
    "session_send_and_destroy ?W ss p
       = ss\<lparr>link := (link ss)\<lparr>peer := fold (\<lambda>d w. peer_step ?W w d) ds (peer (link ss)), sends := n\<rparr>\<rparr>"
    using transport.session_send_pieces [OF T] by blast
  obtain c' where c': "fold (\<lambda>d w. server_step fuel P w d) ds (Keep, c, st) = (Keep, c', st2)" "idle P c'" "sent c' = sent c2"
    using frame_in_pieces [OF _ p ds(1,2) run c2] at by (auto simp: attached_def)
  show thesis
    using ds(3) c' at snt
    by (intro that [of "(link ss)\<lparr>peer := (Keep, c', st2), sends := n\<rparr>" c'])
      (simp_all add: attached_def server_wire_def arrived_def)
qed

section \<open>Writing and reading through the client\<close>

lemma execute_write_ok:
  assumes T: "transport (server_wire fuel P sc rc)" and P: "platform_ok P" "\<And>k. uv_write_status P k \<ge> 0" "packet_max_len P < 2 ^ 32"
    and at: "attached P ss c (fs, db)" "\<not> read_open ss" and rep: "db_rep fs db A"
    and cfg: "cfg_series_id config = sid" "cfg_point_size config = ps" "data_type config \<noteq> 0"
    and w: "sid < 2 ^ 32" "8 \<le> ps" "ps \<le> 655" "all_len ps bs" "bs \<noteq> []" "length bs < points_size"
      "db_accepts P fs db A sid ps bs" "25 + length (concat bs) \<le> packet_max_len P"
    and con: "stdin con = concat bs" "\<not> at_eof con"
  shows "\<exists>ss' con' c' fs' db'. execute_write (server_wire fuel P sc rc) config ss con = Inr (0, ss', con') \<and>
           attached P ss' c' (fs', db') \<and> \<not> read_open ss' \<and>
           db_rep fs' db' (A(sid \<mapsto> (ps, merge_pts (prepared P bs) (timeline_of A sid))))"
proof -
  let ?W = "server_wire fuel P sc rc" and ?p = "write_payload sid ps bs"
  let ?r = "received c (packet_create ?p)" and ?ok = "packet_create (simple_response_create SDB_RESPONSE_OK)"
  have p: "8 + length ?p \<le> packet_max_len P" using w(8) by simp
  have idle: "idle P c" using at(1) by (simp add: attached_def)
  note R = idle_request [OF idle p P(3)]
  have psl: "ps < 2 ^ 32" using w(3) by simp
  obtain fs' db' c2 where run: "client_handler_process_message fuel P ?r (Ptr 8) (length ?p) (fs, db) = Inr (0, c2, fs', db')"
    and rep': "db_rep fs' db' (A(sid \<mapsto> (ps, merge_pts (prepared P bs) (timeline_of A sid))))"
    and snt: "sent c2 = sent c @ [?ok]"
    and buf: "take 8 (buffer c2) = take 8 (buffer ?r)" "drop (8 + length ?p) (buffer c2) = drop (8 + length ?p) (buffer ?r)"
    using handle_write_ok [OF P(1) rep P(2) R(1) w(1,2) psl w(4) R(2) w(7)] R(3) unfolding handled_def by metis
  obtain t c' where sd: "session_send_and_destroy ?W ss ?p = ss\<lparr>link := t\<rparr>"
    and t: "peer t = (Keep, c', fs', db')" "idle P c'" "sent c' = sent c @ [?ok]" "arrived ?W t = concat [?ok]"
      "taken t = taken (link ss)"
    using session_request [OF T at(1) p P(3) run buf snt] by metis
  obtain t2 where sr: "session_send_with_simple_response ?W ss ?p = Inr (0, ss\<lparr>link := t2\<rparr>)"
    and t2: "peer t2 = peer t" "taken t2 = taken t + 10"
    using transport.simple_response_ok [OF T, of ss ?p SDB_RESPONSE_OK "[]"] sd t(4)
    by (auto simp: SDB_RESPONSE_OK_def server_wire_def)
  define post where "post = replicate (ps * points_size - length (concat bs)) (0 :: byte)"
  let ?list = "\<lparr>content = Ptr 0, count_pl = length bs, point_size = ps\<rparr>"
  define con0 where "con0 = put_err (''writing to series: '' @ fmt_d sid @ nl) con"
  let ?con = "con0\<lparr>stdin := [], at_eof := True\<rparr>"
  have c0: "stdin con0 = concat bs" "\<not> at_eof con0" using con by (simp_all add: con0_def put_err_def)
  note B = one_batch [OF w(2,3,4,6) c0(1) post_def]
  have req: "write_request_create sid ?list (concat bs @ post) = Inr ?p"
    using write_request_create_ok [OF B(4)] by (simp add: write_payload_def)
  have "execute_write ?W config ss con = write_loop (Suc (Suc (Suc (length (concat bs))))) ?W config ss
      (sdb_alloc (ps * points_size)) con0"
    using cfg B(1) con(1) w(2) by (auto simp: execute_write_def con0_def)
  also have "\<dots> = Inr (0, ss\<lparr>link := t2\<rparr>, ?con)"
    using c0(2) B(2,3) req sr at(2) cfg w(5) by (simp add: session_write_def)
  finally have "execute_write ?W config ss con = Inr (0, ss\<lparr>link := t2\<rparr>, ?con)" .
  moreover have "attached P (ss\<lparr>link := t2\<rparr>) c' (fs', db')"
    using t t2 at(1) by (simp add: attached_def)
  ultimately show ?thesis using rep' at(2) by (intro exI conjI) (assumption, assumption, simp, assumption)
qed

lemma page_sizes:
  assumes rep: "db_rep fs db A" and a: "A sid = Some (ps, cs)" "ps < 2 ^ 30" and P: "read_max_payload P < 2 ^ 30"
    and xs: "set xs \<subseteq> set cs" "length xs \<le> max 1 (read_max_payload P div ps)"
  shows "all_len ps xs \<and> length xs < 2 ^ 64 \<and> 21 + length (concat xs) < 2 ^ 31"
proof -
  have all: "all_len ps xs"
    using timeline_of_rep(2) [OF rep, of sid] a(1) all_len_subset [OF xs(1)] by (simp add: timeline_of_def point_size_of_def)
  have "length xs * ps \<le> max 1 (read_max_payload P div ps) * ps" using xs(2) by (rule mult_le_mono1)
  also have "\<dots> \<le> max ps (read_max_payload P)" by (simp add: max_def div_times_less_eq_dividend)
  also have "\<dots> < 2 ^ 30" using P a(2) by simp
  finally have b: "length xs * ps < 2 ^ 30" .
  have "1 \<le> ps" using timeline_of_rep(3) [OF rep, of sid] a(1) by (simp add: point_size_of_def)
  then have "length xs \<le> length xs * ps" by simp
  then have "length xs < 2 ^ 30" using b by (rule le_less_trans)
  then have "length xs < 2 ^ 64" by simp
  with b all show ?thesis by simp
qed

lemma execute_read_ok:
  assumes T: "transport (server_wire fuel P sc rc)" and P: "platform_ok P" "\<And>k. uv_write_status P k \<ge> 0"
      "packet_max_len P < 2 ^ 32" "29 \<le> packet_max_len P" "read_max_payload P < 2 ^ 30"
    and at: "attached P ss c (fs, db)" "\<not> read_open ss" and rep: "db_rep fs db A"
    and cfg: "cfg_series_id config = sid" "sid < 2 ^ 32" "cfg_begin config \<le> cfg_end config"
    and a: "A sid = Some (ps, cs)" "ps < 2 ^ 30" and fuel: "length (window (cfg_begin config) (cfg_end config) cs) < fuel"
      "length (window (cfg_begin config) (cfg_end config) cs) < rounds"
  shows "\<exists>ss' con' c' db'. execute_read rounds (server_wire fuel P sc rc) config ss con = Inr (0, ss', con') \<and>
           stdout con' = stdout con @ concat (window (cfg_begin config) (cfg_end config) cs) \<and>
           attached P ss' c' (fs, db') \<and> \<not> read_open ss' \<and> db_rep fs db' A"
proof -
  let ?W = "server_wire fuel P sc rc" and ?b = "cfg_begin config" and ?e = "cfg_end config"
  let ?p = "read_request_create sid ?b ?e"
  let ?r = "received c (packet_create ?p)"
  have p: "8 + length ?p \<le> packet_max_len P" using P(4) by simp
  have idle: "idle P c" using at(1) by (simp add: attached_def)
  note R = idle_request [OF idle p P(3)]
  have rmp: "read_max_payload P < 2 ^ 32" using P(5) by simp
  obtain c2 db' pages where run: "client_handler_process_message fuel P ?r (Ptr 8) (length ?p) (fs, db) = Inr (0, c2, fs, db')"
    and rep': "db_rep fs db' A" and buf: "buffer c2 = buffer ?r"
    and pages: "sent c2 = sent c @ map (response_frame ps) (pages @ [[]])" "concat pages = window ?b ?e cs"
      "\<forall>xs\<in>set pages. xs \<noteq> [] \<and> length xs \<le> max 1 (read_max_payload P div ps)"
    using handle_read_ok [OF P(1) rep a(1) cfg(3,2) P(2) rmp fuel(1) R(1)] R(3) by auto
  obtain t c' where sd: "session_send_and_destroy ?W ss ?p = ss\<lparr>link := t\<rparr>"
    and t: "peer t = (Keep, c', fs, db')" "idle P c'" "sent c' = sent c @ map (response_frame ps) (pages @ [[]])"
      "arrived ?W t = concat (map (response_frame ps) (pages @ [[]]))" "taken t = taken (link ss)"
    using session_request [OF T at(1) p P(3) run _ _ pages(1)] buf by metis
  define ss1 where "ss1 = ss\<lparr>link := t, read_open := True\<rparr>"
  have rd: "session_read ?W ss sid ?b ?e = (0, ss1)" using at(2) sd by (simp add: session_read_def ss1_def)
  have sizes: "xs \<noteq> [] \<and> all_len ps xs \<and> length xs < 2 ^ 64 \<and> 21 + length (concat xs) < 2 ^ 31" if x: "xs \<in> set pages" for xs
  proof -
    have "set xs \<subseteq> set cs" using x pages(2) by (auto simp: window_def dest!: arg_cong [where f = set])
    with page_sizes [OF rep a P(5)] pages(3) x show ?thesis by blast
  qed
  have "length pages \<le> length (concat pages)" using pages(3) by (induction pages) (auto simp: Suc_le_eq add_strict_increasing)
  then have rounds: "length pages < rounds" using fuel(2) pages(2) by simp
  have al: "\<And>n. alloc_ok ?W n" by (simp add: server_wire_def)
  define con1 where "con1 = put_err (''reading points: '' @ fmt_d sid @ '' -> ['' @ dec_nat (unat ?b)
                   @ '', '' @ dec_nat (unat ?e) @ '')'' @ nl) con"
  obtain k ss2 where rr: "read_responses rounds ?W ss1 0 con1
      = Inr (k, ss2, con1\<lparr>stdout := stdout con1 @ concat (concat pages)\<rparr>)" "\<not> read_open ss2"
    "peer (link ss2) = peer t" "taken (link ss2) = taken t + length (concat (map (response_frame ps) (pages @ [[]])))"
    using transport.read_responses_pages [OF T, of ss1 ps pages rounds 0 con1] t(4) sizes al rounds a(2)
    by (auto simp: ss1_def)
  have "execute_read rounds ?W config ss con = Inr (0, ss2,
      put_err (''total read: '' @ dec_int k @ '' points'' @ nl) (con1\<lparr>stdout := stdout con1 @ concat (concat pages)\<rparr>))"
    using rd rr(1) cfg(1) by (simp add: execute_read_def con1_def Let_def)
  moreover have "attached P ss2 c' (fs, db')" using rr(3,4) t at(1) by (simp add: attached_def)
  moreover have "stdout con1 = stdout con" by (simp add: con1_def put_err_def)
  ultimately show ?thesis using rr(2) rep' pages(2) by (intro exI conjI) (assumption, simp add: put_err_def, assumption+)
qed

end
