(* ===== verification/ServerMain.thy ===== *)
theory ServerMain
  imports Requests Diagnostics Console
begin

text \<open>
  \<^verbatim>\<open>src/main.c\<close>: the server program.  \<^verbatim>\<open>getopt_long\<close> and the events of the loop are parameters; a
  signal is a stop request among the events.  The lines the program itself logs are collected
  in order, with the readings of the clock for each of them given.
\<close>

section \<open>Configuration\<close>

definition SDB_VERSION :: string where "SDB_VERSION = ''0.0.1''"
definition SDB_BUILD :: string where "SDB_BUILD = ''<COMMIT_ID>''"
definition SDB_CONFIG_DEFAULT_DIRECTORY :: string where "SDB_CONFIG_DEFAULT_DIRECTORY = ''/var/lib/shakadb''"
definition SDB_CONFIG_DEFAULT_PORT :: int where "SDB_CONFIG_DEFAULT_PORT = 8487"

record configuration =
  log_verbose :: bool
  database_directory :: string
  database_no_flush :: bool
  server_port :: int

abbreviation tab :: string where "tab \<equiv> [CHR 0x09]"
abbreviation nl :: string where "nl \<equiv> [CHR 0x0A]"

definition print_usage :: string where
  "print_usage = concat (map (\<lambda>l. l @ nl) [
      [],
      ''ShakaDB - time series database'',
      [],
      ''    Version:'' @ tab @ SDB_VERSION,
      ''    Build:'' @ tab @ SDB_BUILD,
      [],
      ''Usage: shakadb <options>'',
      ''Options:'',
      [],
      ''    --help, -h:       displays this information'',
      ''    --port, -p:       port to listen on'',
      ''                      default value: '' @ dec_int SDB_CONFIG_DEFAULT_PORT,
      ''    --directory, -d:  directory where database will be created'',
      ''                      default value: '' @ SDB_CONFIG_DEFAULT_DIRECTORY,
      ''    --no-flush, -x:   omits the flush call after the write method'',
      ''                      this can make the db 10x faster,'',
      ''                      especially when batches are small'',
      ''                      WARNING: if server crashes you may loose your data'',
      ''    --verbose, -v:    logs debug information'',
      [],
      ''For more info visit: http://shakadb.com/getting-started'',
      []])"

text \<open>Parsing returns a status, or ends the program after printing the usage.\<close>

datatype parse_outcome = Parsed int configuration | Exited int string

fun parse_options :: "(char \<times> string) list \<Rightarrow> configuration \<Rightarrow> parse_outcome" where
  "parse_options [] config = Parsed 0 config"
| "parse_options ((c, optarg) # opts) config =
     (if c = CHR ''p'' then parse_options opts (config\<lparr>server_port := atoi optarg\<rparr>)
      else if c = CHR ''d'' then parse_options opts (config\<lparr>database_directory := strncpy SDB_STR_MAX_LEN optarg\<rparr>)
      else if c = CHR ''h'' then Exited 0 print_usage
      else if c = CHR ''x'' then parse_options opts (config\<lparr>database_no_flush := True\<rparr>)
      else if c = CHR ''v'' then parse_options opts (config\<lparr>log_verbose := True\<rparr>)
      else Parsed (- 1) config)"

definition configuration_parse ::
  "(string list \<Rightarrow> (char \<times> string) list) \<Rightarrow> configuration \<Rightarrow> string list \<Rightarrow> parse_outcome" where
  "configuration_parse getopt_long config argv =
     parse_options (getopt_long argv)
       (config\<lparr>server_port := SDB_CONFIG_DEFAULT_PORT,
               database_directory := strncpy SDB_STR_MAX_LEN SDB_CONFIG_DEFAULT_DIRECTORY, log_verbose := False\<rparr>)"

text \<open>The messages of the banner; the directory must be a terminated string.\<close>

definition print_banner :: "configuration \<Rightarrow> string list res" where
  "print_banner config =
     bindR (c_str SDB_STR_MAX_LEN (database_directory config)) (\<lambda>dir.
       Inr [
      ''          _           _             _ _          '',
      ''      ___| |__   __ _| | ____ _  __| | |__       '',
      ''     / __| '' @ [CHR 0x27] @ ''_ '' @ [CHR 0x5C] @ '' / _'' @ [CHR 0x60] @ '' | |/ / _'' @ [CHR 0x60] @ '' |/ _'' @ [CHR 0x60] @ '' | '' @ [CHR 0x27] @ ''_ '' @ [CHR 0x5C] @ ''      '',
      ''     '' @ [CHR 0x5C] @ ''__ '' @ [CHR 0x5C] @ '' | | | (_| |   < (_| | (_| | |_) |     '',
      ''     |___/_| |_|'' @ [CHR 0x5C] @ ''__,_|_|'' @ [CHR 0x5C] @ ''_'' @ [CHR 0x5C] @ ''__,_|'' @ [CHR 0x5C] @ ''__,_|_.__/      '',
      ''                                                 '',
      ''    Version:   '' @ SDB_VERSION,
      ''    Build:     '' @ SDB_BUILD,
      [],
      ''    directory:   '' @ dir,
      ''    port:        '' @ dec_int (server_port config),
      ''    flush write: '' @ (if database_no_flush config then ''no'' else ''yes''),
      []])"

section \<open>Running\<close>

definition control_signal_handler :: "'h server option \<Rightarrow> 'h server option" where
  "control_signal_handler g_server = map_option server_stop g_server"

definition on_message_received :: "nat \<Rightarrow> 'a net_platform_scheme \<Rightarrow> store packet_handler" where
  "on_message_received fuel P c data sz context = client_handler_process_message fuel P c data sz context"

text \<open>
  The file system when the server has stopped, the closed mappings, and the messages.
\<close>

definition master_routine ::
  "nat \<Rightarrow> 'a net_platform_scheme \<Rightarrow> configuration \<Rightarrow> files \<Rightarrow> event list \<Rightarrow> (files \<times> file_map list \<times> string list) res" where
  "master_routine fuel P config fs events =
     (let db = database_create (database_directory config) SDB_DATA_SERIES_MAX (database_no_flush config);
          g_server = server_create P (server_port config) (fs, db)
      in bindR (server_run P (on_message_received fuel P) g_server events) (\<lambda>sv.
           Inr (fst (handler_context sv), database_destroy (snd (handler_context sv)),
                [''initializing database ...'', ''initializing server ...'', ''initialization complete'',
                 ''interrupt received'', ''closing server ...'', ''closing database ...''])))"

text \<open>The lines of the log: message \<open>i\<close> is written at the time \<open>ticks i\<close>.\<close>

definition log_lines :: "(int \<Rightarrow> tm) \<Rightarrow> (nat \<Rightarrow> timespec) \<Rightarrow> log_state \<Rightarrow> string list \<Rightarrow> string" where
  "log_lines localtime ticks g_log messages =
     concat (map (\<lambda>(i, m). log_info localtime (ticks i) g_log m) (enumerate 0 messages))"

text \<open>
  \<^verbatim>\<open>main\<close>: the exit status, the file system, what is printed and what is logged.
\<close>

definition server_main ::
  "(string list \<Rightarrow> (char \<times> string) list) \<Rightarrow> (int \<Rightarrow> tm) \<Rightarrow> (nat \<Rightarrow> timespec) \<Rightarrow> nat \<Rightarrow> 'a net_platform_scheme \<Rightarrow>
   string list \<Rightarrow> files \<Rightarrow> event list \<Rightarrow> (int \<times> files \<times> string \<times> string) res" where
  "server_main getopt_long localtime ticks fuel P argv fs events =
     (case configuration_parse getopt_long
             \<lparr>log_verbose = False, database_directory = [], database_no_flush = False, server_port = 0\<rparr> argv of
        Exited status text \<Rightarrow> Inr (status, fs, text, [])
      | Parsed status config \<Rightarrow>
          if status \<noteq> 0 then Inr (- 1, fs, print_usage, [])
          else let g_log = log_init (log_verbose config) in
            bindR (print_banner config) (\<lambda>banner.
            bindR (master_routine fuel P config fs events) (\<lambda>(fs1, closed, messages).
            bindR (log_close g_log) (\<lambda>g_log1.
              Inr (0, fs1, [], log_lines localtime ticks g_log
                     (banner @ messages @ [''========== ShakaDB Stopped  =========='']))))))"

section \<open>A life of the server\<close>

lemma on_message_received_eq: "on_message_received fuel P = shakadb fuel P"
  by (simp add: fun_eq_iff on_message_received_def)

lemma first_connection:
  assumes "0 < max_clients P"
  obtains sv where "handle_event P handler ((server_create P p h)\<lparr>listening := True\<rparr>) (Connected 0 0 0) = Inr sv"
    and "server_ok P sv" and "conn sv 0 = Some (client_create P 0 0)" and "handler_context sv = h"
proof -
  let ?sv = "(server_create P p h)\<lparr>listening := True\<rparr>"
  have ok: "server_ok P ?sv" using server_create_ok [of P p h] by (simp add: server_ok_def)
  have i: "free_index (clients ?sv) = 0" using assms by (cases "max_clients P") (simp_all add: server_create_def)
  let ?sv1 = "?sv\<lparr>clients := (clients ?sv)[0 := Some (client_create P 0 0)], next_socket := 1\<rparr>"
  have run: "on_client_connected P ?sv 0 0 0 = Inr ?sv1"
    using assms i by (simp add: on_client_connected_def Let_def server_create_def)
  have "server_ok P ?sv1" using connect_ok [OF ok run] .
  moreover have "conn ?sv1 0 = Some (client_create P 0 0)" using assms by (simp add: conn_def server_create_def)
  moreover have "handler_context ?sv1 = h" by (simp add: server_create_def)
  ultimately show thesis using run by (intro that [of ?sv1]) simp_all
qed

lemma stop_and_shutdown:
  assumes ok: "server_ok P sv" and "async_open sv"
  obtains sv' where "event_loop P handler sv [StopRequest, Shutdown] = Inr sv'" and "handler_context sv' = handler_context sv"
    and "\<And>i. conn sv' i = None"
proof -
  have "server_ok P (server_stop sv)" using ok by (simp add: server_ok_def server_stop_def)
  moreover have "shutdown_data (server_stop sv)" by (simp add: server_stop_def)
  ultimately obtain sv' where r: "on_server_shutdown (server_stop sv) = Inr sv'" "\<And>i. conn sv' i = None"
    using shutdown_ok by metis
  have "handler_context sv' = handler_context sv"
    using r(1) by (auto simp: on_server_shutdown_def server_stop_def elim!: bindR_InrE dest!: disconnect_all_context)
  with r assms(2) show thesis by (intro that [of sv']) (simp_all add: server_stop_def)
qed

lemma event_async:
  "handle_event P handler sv (Connected st a r) = Inr sv' \<Longrightarrow> async_open sv' = async_open sv"
  "handle_event P handler sv (DataRead i n d) = Inr sv' \<Longrightarrow> async_open sv' = async_open sv"
  by (auto simp: on_client_connected_def on_data_read_def client_disconnect_and_destroy_def Let_def elim!: bindR_InrE
      split: option.splits if_splits disposition.splits)

lemma serve_one_write:
  assumes P: "platform_ok P" "\<And>k. uv_write_status P k \<ge> 0" "packet_max_len P < 2 ^ 32" "0 < max_clients P"
    and rep: "db_rep fs db A"
    and w: "sid < 2 ^ 32" "8 \<le> ps" "ps < 2 ^ 32" "all_len ps bs" "db_accepts P fs db A sid ps bs"
      "25 + length (concat bs) \<le> packet_max_len P"
  obtains sv' fs' db' where "event_loop P (shakadb fuel P) ((server_create P p (fs, db))\<lparr>listening := True\<rparr>)
        [Connected 0 0 0, request 0 (write_payload sid ps bs), StopRequest, Shutdown] = Inr sv'"
    and "handler_context sv' = (fs', db')" and "db_config db' = db_config db"
    and "db_rep fs' db' (A(sid \<mapsto> (ps, merge_pts (prepared P bs) (timeline_of A sid))))"
proof -
  let ?sv = "(server_create P p (fs, db))\<lparr>listening := True\<rparr>"
  obtain sv1 where s1: "handle_event P (shakadb fuel P) ?sv (Connected 0 0 0) = Inr sv1" "server_ok P sv1"
    "conn sv1 0 = Some (client_create P 0 0)" "handler_context sv1 = (fs, db)"
    using first_connection [OF P(4)] by metis
  have bl: "buffer_length (client_create P 0 0) = 0" by (simp add: client_create_def)
  obtain sv2 fs' db' where s2: "handle_event P (shakadb fuel P) sv1 (request 0 (write_payload sid ps bs)) = Inr sv2"
    "server_ok P sv2" "handler_context sv2 = (fs', db')"
    "db_rep fs' db' (A(sid \<mapsto> (ps, merge_pts (prepared P bs) (timeline_of A sid))))"
    using write_event [OF P(1-3) s1(2,4) rep s1(3) bl w] by blast
  have "async_open sv2" using event_async(1) [OF s1(1)] event_async(2) [OF s2(1)] by (simp add: server_create_def)
  then obtain sv3 where s3: "event_loop P (shakadb fuel P) sv2 [StopRequest, Shutdown] = Inr sv3"
    "handler_context sv3 = handler_context sv2"
    using stop_and_shutdown [OF s2(2)] by metis
  have "event_loop P (shakadb fuel P) ?sv
      ([Connected 0 0 0, request 0 (write_payload sid ps bs)] @ [StopRequest, Shutdown]) = Inr sv3"
    using s1(1) s2(1) s3(1) by (simp del: handle_event.simps)
  moreover have "db_config db' = db_config db" using event_config [OF s2(1)] s2(3) s1(4) by simp
  ultimately show thesis using s2 s3 by (intro that [of sv3 fs' db']) simp_all
qed

section \<open>Properties\<close>

text \<open>
  C7: what was written survives a restart.  The program, started on a directory that holds the
  series \<open>A\<close>, serves one client that connects and writes a batch, is stopped by a signal, and
  exits with 0; a database created on the same directory afterwards represents \<open>A\<close> with the
  batch merged into its series.
\<close>

theorem written_survives_restart:
  assumes "platform_ok P" and "\<And>k. uv_write_status P k \<ge> 0" and "uv_bind_status P \<ge> 0" and "uv_listen_status P = 0"
    and "uv_run_status P = 0" and "packet_max_len P < 2 ^ 32" and "0 < max_clients P"
    and "getopt_long argv = [(CHR ''d'', dir)]"
    and "db_rep fs (database_create dir SDB_DATA_SERIES_MAX False) A"
    and "sid < 2 ^ 32" and "8 \<le> ps" and "ps < 2 ^ 32" and "all_len ps bs"
    and "db_accepts P fs (database_create dir SDB_DATA_SERIES_MAX False) A sid ps bs"
    and "25 + length (concat bs) \<le> packet_max_len P" and "length dir < SDB_STR_MAX_LEN"
  shows "\<exists>fs' logged cs'.
           server_main getopt_long localtime ticks fuel P argv fs
             [Connected 0 0 0, request 0 (write_payload sid ps bs), StopRequest, Shutdown] = Inr (0, fs', [], logged) \<and>
           db_rep fs' (database_create dir SDB_DATA_SERIES_MAX False) (A(sid \<mapsto> (ps, cs'))) \<and>
           pmap cs' = pmap (timeline_of A sid) ++ last_wins (qsort P point_cmp bs)"
proof -
  let ?db = "database_create dir SDB_DATA_SERIES_MAX False" and ?cs = "merge_pts (prepared P bs) (timeline_of A sid)"
  let ?cfg = "\<lparr>log_verbose = False, database_directory = dir, database_no_flush = False, server_port = SDB_CONFIG_DEFAULT_PORT\<rparr>"
  have cfg: "configuration_parse getopt_long
      \<lparr>log_verbose = False, database_directory = [], database_no_flush = False, server_port = 0\<rparr> argv = Parsed 0 ?cfg"
    using assms(8,16) by (simp add: configuration_parse_def strncpy_def)
  obtain sv' fs' db' where run: "event_loop P (shakadb fuel P)
        ((server_create P SDB_CONFIG_DEFAULT_PORT (fs, ?db))\<lparr>listening := True\<rparr>)
        [Connected 0 0 0, request 0 (write_payload sid ps bs), StopRequest, Shutdown] = Inr sv'"
    and r: "handler_context sv' = (fs', db')" "db_config db' = db_config ?db" "db_rep fs' db' (A(sid \<mapsto> (ps, ?cs)))"
    using serve_one_write [OF assms(1,2,6,7,9-15)] by blast
  define closed where "closed = database_destroy db'"
  have dir: "c_str SDB_STR_MAX_LEN dir = Inr dir" using assms(16) by (simp add: c_str_def)
  obtain msgs where "master_routine fuel P ?cfg fs
      [Connected 0 0 0, request 0 (write_payload sid ps bs), StopRequest, Shutdown] = Inr (fs', closed, msgs)"
    using run r(1) assms(3-5)
    by (simp add: master_routine_def server_run_def on_message_received_eq closed_def del: event_loop.simps)
  moreover obtain banner where "print_banner ?cfg = Inr banner" using dir by (simp add: print_banner_def)
  ultimately obtain logged where "server_main getopt_long localtime ticks fuel P argv fs
      [Connected 0 0 0, request 0 (write_payload sid ps bs), StopRequest, Shutdown] = Inr (0, fs', [], logged)"
    using cfg by (simp add: server_main_def log_init_def)
  moreover have "db_rep fs' ?db (A(sid \<mapsto> (ps, ?cs)))"
  proof -
    have "directory db' = directory ?db" "max_series_count db' = max_series_count ?db" "db_no_flush db' = db_no_flush ?db"
      using r(2) by (simp_all add: db_config_def)
    moreover have "directory ?db = dir" using assms(16) by (simp add: database_create_def strncpy_def)
    ultimately show ?thesis using db_rep_restart [OF r(3)] by (simp add: database_create_def)
  qed
  moreover have "pmap ?cs = pmap (timeline_of A sid) ++ last_wins (qsort P point_cmp bs)"
    using merged_map [OF assms(1,9)] .
  ultimately show ?thesis by blast
qed

lemma sample_net_main [simp]: "uv_bind_status sample_net = 0" "uv_listen_status sample_net = 0" "uv_run_status sample_net = 0"
  by (simp_all add: sample_net_def posix_def platform.extend_def)

lemma sample_accepts_main:
  "db_accepts sample_net sample_files (database_create ''d'' SDB_DATA_SERIES_MAX False) sample_map 7 16 [sample 15 3]"
proof -
  have "series_path (database_create ''d'' SDB_DATA_SERIES_MAX False) 7 16 = series_path sample_db 7 16"
    by (simp add: series_path_def database_create_def sample_db_def)
  then show ?thesis
    using sample_accepts by (simp add: db_accepts_def db_opens_def sample_db_simps database_create_def SDB_DATA_SERIES_MAX_def)
qed

theorem written_survives_restart_witness:
  "\<exists>fs' logged cs'.
     server_main (\<lambda>_. [(CHR ''d'', ''d'')]) (\<lambda>_. \<lparr>tm_year = 118, tm_mon = 0, tm_mday = 13, tm_hour = 0, tm_min = 0, tm_sec = 0\<rparr>)
       (\<lambda>_. \<lparr>tv_sec = 0, tv_nsec = 0\<rparr>) 0 sample_net [''shakadb'', ''-d'', ''d''] sample_files
       [Connected 0 0 0, request 0 (write_payload 7 16 [sample 15 3]), StopRequest, Shutdown] = Inr (0, fs', [], logged) \<and>
     db_rep fs' (database_create ''d'' SDB_DATA_SERIES_MAX False) (sample_map(7 \<mapsto> (16, cs'))) \<and>
     pmap cs' = pmap (timeline_of sample_map 7) ++ last_wins (qsort sample_net point_cmp [sample 15 3])"
  by (rule written_survives_restart)
    (simp_all add: sample_rep sample_accepts_main SDB_DATA_SERIES_MAX_def [symmetric] SDB_STR_MAX_LEN_def,
     simp_all add: sample_rep SDB_DATA_SERIES_MAX_def)

end
