(* ===== verification/Lz4.thy ===== *)
theory Lz4
  imports Memory
begin

text \<open>
  \<^verbatim>\<open>lz4.c\<close>, the block compressor under \<^verbatim>\<open>prototype/transfer-compression\<close>, as the prototype builds it:
  for GCC on a little-endian machine with 64-bit pointers, so \<^verbatim>\<open>size_t\<close> has 8 bytes.  This theory
  holds its constants, its ways to access and copy memory, and what a compressed block means:
  \<open>block_bytes\<close> lays a list of sequences out as bytes and \<open>expand\<close> says what they stand for.
  \<open>Lz4Decode\<close> and \<open>Lz4Encode\<close> hold the two directions.

  Positions are signed offsets from \<^verbatim>\<open>source\<close> or \<^verbatim>\<open>dest\<close>, which are the starts of their objects,
  and every access goes through the checked \<open>load\<close> and \<open>store\<close>.
\<close>

unbundle bit_operations_syntax

section \<open>Constants\<close>

definition LZ4_MEMORY_USAGE :: nat where "LZ4_MEMORY_USAGE = 14"

definition LZ4_MAX_INPUT_SIZE :: nat where "LZ4_MAX_INPUT_SIZE = 0x7E000000"

definition LZ4_HASHLOG :: nat where "LZ4_HASHLOG = LZ4_MEMORY_USAGE - 2"

definition MINMATCH :: int where "MINMATCH = 4"

definition COPYLENGTH :: int where "COPYLENGTH = 8"

definition LASTLITERALS :: int where "LASTLITERALS = 5"

definition MFLIMIT :: int where "MFLIMIT = COPYLENGTH + MINMATCH"

definition LZ4_minLength :: int where "LZ4_minLength = MFLIMIT + 1"

definition LZ4_64KLIMIT :: int where "LZ4_64KLIMIT = 64 * 1024 + (MFLIMIT - 1)"

definition SKIPSTRENGTH :: nat where "SKIPSTRENGTH = 6"

definition MAX_DISTANCE :: int where "MAX_DISTANCE = 2 ^ 16 - 1"

definition ML_MASK :: nat where "ML_MASK = 15"

definition RUN_MASK :: nat where "RUN_MASK = 15"

definition STEPSIZE :: nat where "STEPSIZE = 8"

lemmas lz4_constants [simp] =
  LZ4_MEMORY_USAGE_def LZ4_MAX_INPUT_SIZE_def LZ4_HASHLOG_def MINMATCH_def COPYLENGTH_def LASTLITERALS_def MFLIMIT_def
  LZ4_minLength_def LZ4_64KLIMIT_def SKIPSTRENGTH_def MAX_DISTANCE_def ML_MASK_def RUN_MASK_def STEPSIZE_def

definition LZ4_compressBound :: "int \<Rightarrow> int" where
  "LZ4_compressBound isize = (if isize < 0 \<or> int LZ4_MAX_INPUT_SIZE < isize then 0 else isize + isize div 255 + 16)"

section \<open>Access\<close>

text \<open>\<^verbatim>\<open>A16\<close>, \<^verbatim>\<open>A32\<close>, \<^verbatim>\<open>AARCH\<close> and plain bytes: little-endian numbers of 2, 4, 8 and 1 bytes at an offset.\<close>

definition read_le :: "nat \<Rightarrow> bytes \<Rightarrow> int \<Rightarrow> nat res" where
  "read_le n m p = bindR (load m (Ptr p) n) (\<lambda>bs. Inr (le_dec bs))"

definition put_byte :: "bytes \<Rightarrow> int \<Rightarrow> nat \<Rightarrow> bytes res" where
  "put_byte m p v = store m (Ptr p) (le_enc 1 v)"

text \<open>
  \<^verbatim>\<open>LZ4_WILDCOPY\<close> copies in steps of 8 bytes until the destination has passed \<open>e\<close>, at least once,
  and leaves both pointers behind what it copied; first between two objects, then inside one.
\<close>

function LZ4_WILDCOPY :: "bytes \<Rightarrow> int \<Rightarrow> bytes \<Rightarrow> int \<Rightarrow> int \<Rightarrow> (bytes \<times> int \<times> int) res" where
  "LZ4_WILDCOPY dm d sm s e =
     bindR (copy_between dm (Ptr d) sm (Ptr s) STEPSIZE) (\<lambda>dm1.
       if d + int STEPSIZE < e then LZ4_WILDCOPY dm1 (d + int STEPSIZE) sm (s + int STEPSIZE) e
       else Inr (dm1, d + int STEPSIZE, s + int STEPSIZE))"
  by pat_completeness auto
termination by (relation "measure (\<lambda>(dm, d, sm, s, e). nat (e - d))") auto

function wildcopy_within :: "bytes \<Rightarrow> int \<Rightarrow> int \<Rightarrow> int \<Rightarrow> (bytes \<times> int \<times> int) res" where
  "wildcopy_within m d s e =
     bindR (copy_between m (Ptr d) m (Ptr s) STEPSIZE) (\<lambda>m1.
       if d + int STEPSIZE < e then wildcopy_within m1 (d + int STEPSIZE) (s + int STEPSIZE) e
       else Inr (m1, d + int STEPSIZE, s + int STEPSIZE))"
  by pat_completeness auto
termination by (relation "measure (\<lambda>(m, d, s, e). nat (e - d))") auto

declare LZ4_WILDCOPY.simps [simp del] wildcopy_within.simps [simp del]

section \<open>What the copies do\<close>

text \<open>Memory at a signed position, and two memories that agree between two positions.\<close>

definition at :: "bytes \<Rightarrow> int \<Rightarrow> byte" where
  "at m i = m ! nat i"

definition agree :: "bytes \<Rightarrow> bytes \<Rightarrow> int \<Rightarrow> int \<Rightarrow> bool" where
  "agree m m' a b \<longleftrightarrow> (\<forall>i. a \<le> i \<and> i < b \<longrightarrow> at m' i = at m i)"

lemma agreeD: "agree m m' a b \<Longrightarrow> a \<le> i \<Longrightarrow> i < b \<Longrightarrow> at m' i = at m i"
  by (simp add: agree_def)

lemma agree_refl [simp]: "agree m m a b"
  by (simp add: agree_def)

lemma agree_trans: "agree m m1 a b \<Longrightarrow> agree m1 m2 a b \<Longrightarrow> agree m m2 a b"
  by (simp add: agree_def)

lemma agree_sub: "agree m m' a b \<Longrightarrow> a \<le> c \<Longrightarrow> d \<le> b \<Longrightarrow> agree m m' c d"
  by (simp add: agree_def)

lemma agree_take:
  assumes "agree m m' 0 b" and "b \<le> int (length m)" and "length m' = length m"
  shows "take (nat b) m' = take (nat b) m"
proof (rule nth_equalityI)
  fix i assume "i < length (take (nat b) m')"
  then have "int i < b" "i < nat b" by auto
  then show "take (nat b) m' ! i = take (nat b) m ! i" using agreeD [OF assms(1), of "int i"] by (simp add: at_def)
qed (use assms in simp)

lemma store_ok:
  assumes "0 \<le> d" and "d + int (length bs) \<le> int (length m)"
  obtains m' where "store m (Ptr d) bs = Inr m'" and "length m' = length m"
    and "\<And>i. d \<le> i \<Longrightarrow> i < d + int (length bs) \<Longrightarrow> at m' i = at bs (i - d)"
    and "agree m m' 0 d" and "agree m m' (d + int (length bs)) (int (length m))"
proof -
  let ?m = "take (nat d) m @ bs @ drop (nat d + length bs) m"
  have le: "nat d + length bs \<le> length m" using assms by linarith
  have s: "store m (Ptr d) bs = Inr ?m" using assms le by (simp add: store_def)
  show thesis
  proof (rule that [OF s])
    show "length ?m = length m" using le by simp
    show "at ?m i = at bs (i - d)" if "d \<le> i" "i < d + int (length bs)" for i
    proof -
      have "nat i - nat d < length bs" using that assms(1) by linarith
      then show ?thesis using that le assms(1) by (simp add: at_def nth_append nat_diff_distrib)
    qed
    show "agree m ?m 0 d" using le by (auto simp: agree_def at_def nth_append)
    show "agree m ?m (d + int (length bs)) (int (length m))"
    proof (unfold agree_def at_def, intro allI impI)
      fix i assume "d + int (length bs) \<le> i \<and> i < int (length m)"
      then have "nat d + length bs \<le> nat i" "nat i < length m" using assms(1) by linarith+
      then show "?m ! nat i = m ! nat i" using le by (auto simp: nth_append)
    qed
  qed
qed

lemma load_ok: "0 \<le> s \<Longrightarrow> s + int n \<le> int (length m) \<Longrightarrow> load m (Ptr s) n = Inr (take n (drop (nat s) m))"
  by (simp add: load_def nat_le_iff) linarith

lemma copy_ok:
  assumes "0 \<le> d" and "d + int n \<le> int (length dm)" and "0 \<le> s" and "s + int n \<le> int (length sm)"
  obtains m' where "copy_between dm (Ptr d) sm (Ptr s) n = Inr m'" and "length m' = length dm"
    and "\<And>i. d \<le> i \<Longrightarrow> i < d + int n \<Longrightarrow> at m' i = at sm (s + (i - d))"
    and "agree dm m' 0 d" and "agree dm m' (d + int n) (int (length dm))"
proof -
  let ?bs = "take n (drop (nat s) sm)"
  have l: "length ?bs = n" using assms by (simp add: nat_le_iff min_absorb2 le_diff_conv2)
  obtain m' where m: "store dm (Ptr d) ?bs = Inr m'" "length m' = length dm"
    "\<And>i. d \<le> i \<Longrightarrow> i < d + int n \<Longrightarrow> at m' i = at ?bs (i - d)" "agree dm m' 0 d" "agree dm m' (d + int n) (int (length dm))"
    using store_ok [of d ?bs dm] assms l by auto
  have b: "at ?bs (i - d) = at sm (s + (i - d))" if "d \<le> i" "i < d + int n" for i
    using that assms by (simp add: at_def nat_add_distrib nat_less_iff)
  show thesis using that [OF _ m(2) _ m(4,5)] m(1,3) b assms by (simp add: copy_between_def load_ok)
qed

lemma read_le_ok: "0 \<le> s \<Longrightarrow> s + int n \<le> int (length m) \<Longrightarrow> read_le n m s = Inr (le_dec (take n (drop (nat s) m)))"
  by (simp add: read_le_def load_ok)

lemma read_byte: "0 \<le> s \<Longrightarrow> s < int (length m) \<Longrightarrow> read_le 1 m s = Inr (unat (at m s))"
  by (simp add: read_le_ok at_def take_Suc hd_drop_conv_nth nat_less_iff)

lemmas read_byte_Suc = read_byte [unfolded One_nat_def]

text \<open>\<^verbatim>\<open>LZ4_WILDCOPY\<close> may write and read up to 7 bytes more than asked for, and 8 where nothing is.\<close>

lemma wildcopy_ok:
  assumes "0 \<le> d" and "d + int STEPSIZE \<le> int (length dm)" and "e + 7 \<le> int (length dm)"
    and "0 \<le> s" and "s + int STEPSIZE \<le> int (length sm)" and "s + (e - d) + 7 \<le> int (length sm)"
  shows "\<exists>m' k. LZ4_WILDCOPY dm d sm s e = Inr (m', d + k, s + k) \<and> e \<le> d + k \<and> 0 \<le> k \<and> length m' = length dm \<and>
           (\<forall>i. d \<le> i \<and> i < d + k \<longrightarrow> at m' i = at sm (s + (i - d))) \<and> agree dm m' 0 d"
  using assms
proof (induction dm d sm s e rule: LZ4_WILDCOPY.induct)
  case (1 dm d sm s e)
  obtain m1 where m1: "copy_between dm (Ptr d) sm (Ptr s) STEPSIZE = Inr m1" "length m1 = length dm"
    "\<And>i. d \<le> i \<Longrightarrow> i < d + int STEPSIZE \<Longrightarrow> at m1 i = at sm (s + (i - d))" "agree dm m1 0 d"
    using copy_ok [of d STEPSIZE dm s sm] 1(2-7) by blast
  show ?case
  proof (cases "d + int STEPSIZE < e")
    case False
    then show ?thesis
      using m1 by (subst LZ4_WILDCOPY.simps) (intro exI [of _ m1] exI [of _ "int STEPSIZE"], auto)
  next
    case True
    have "\<exists>m' k. LZ4_WILDCOPY m1 (d + int STEPSIZE) sm (s + int STEPSIZE) e = Inr (m', (d + int STEPSIZE) + k, (s + int STEPSIZE) + k)
        \<and> e \<le> d + int STEPSIZE + k \<and> 0 \<le> k \<and> length m' = length m1
        \<and> (\<forall>i. d + int STEPSIZE \<le> i \<and> i < d + int STEPSIZE + k \<longrightarrow> at m' i = at sm (s + int STEPSIZE + (i - (d + int STEPSIZE))))
        \<and> agree m1 m' 0 (d + int STEPSIZE)"
      by (rule 1(1) [OF m1(1) True]) (use 1(2-7) True m1(2) in auto)
    then obtain m' k where r: "LZ4_WILDCOPY m1 (d + int STEPSIZE) sm (s + int STEPSIZE) e = Inr (m', (d + int STEPSIZE) + k, (s + int STEPSIZE) + k)"
      "e \<le> d + int STEPSIZE + k" "0 \<le> k" "length m' = length m1"
      "\<And>i. d + int STEPSIZE \<le> i \<Longrightarrow> i < d + int STEPSIZE + k \<Longrightarrow> at m' i = at sm (s + int STEPSIZE + (i - (d + int STEPSIZE)))"
      "agree m1 m' 0 (d + int STEPSIZE)"
      by blast
    have "at m' i = at sm (s + (i - d))" if "d \<le> i" "i < d + (int STEPSIZE + k)" for i
      using that r(5) [of i] m1(3) [of i] agreeD [OF r(6), of i] 1(2) by (cases "i < d + int STEPSIZE") (auto simp: algebra_simps)
    moreover have "agree dm m' 0 d" using agree_trans [OF m1(4) agree_sub [OF r(6)]] by simp
    ultimately show ?thesis using True m1 r
      by (subst LZ4_WILDCOPY.simps) (intro exI [of _ m'] exI [of _ "int STEPSIZE + k"], auto simp: algebra_simps)
  qed
qed

text \<open>Between two places of one object, 8 bytes apart or more, the copy repeats what is \<open>d - s\<close> bytes back.\<close>

lemma wildcopy_within_ok:
  assumes "0 \<le> d" and "d + int STEPSIZE \<le> int (length m)" and "e + 7 \<le> int (length m)" and "0 \<le> s" and "s \<le> d"
  shows "\<exists>m' k. wildcopy_within m d s e = Inr (m', d + k, s + k) \<and> e \<le> d + k \<and> 0 \<le> k \<and> d + k \<le> int (length m) \<and> length m' = length m \<and>
           (s + int STEPSIZE \<le> d \<longrightarrow> (\<forall>i. d \<le> i \<and> i < d + k \<longrightarrow> at m' i = at m' (i - (d - s)))) \<and> agree m m' 0 d"
  using assms
proof (induction m d s e rule: wildcopy_within.induct)
  case (1 m d s e)
  obtain m1 where m1: "copy_between m (Ptr d) m (Ptr s) STEPSIZE = Inr m1" "length m1 = length m"
    "\<And>i. d \<le> i \<Longrightarrow> i < d + int STEPSIZE \<Longrightarrow> at m1 i = at m (s + (i - d))" "agree m m1 0 d"
    using copy_ok [of d STEPSIZE m s m] 1(2-6) by auto
  have step: "at m1 i = at m1 (i - (d - s))" if "s + int STEPSIZE \<le> d" "d \<le> i" "i < d + int STEPSIZE" for i
    using m1(3) [OF that(2,3)] agreeD [OF m1(4), of "i - (d - s)"] that 1(5) by (simp add: algebra_simps)
  show ?case
  proof (cases "d + int STEPSIZE < e")
    case False
    then show ?thesis
      using m1 step 1(3) by (subst wildcopy_within.simps) (intro exI [of _ m1] exI [of _ "int STEPSIZE"], auto)
  next
    case True
    have "\<exists>m' k. wildcopy_within m1 (d + int STEPSIZE) (s + int STEPSIZE) e = Inr (m', (d + int STEPSIZE) + k, (s + int STEPSIZE) + k)
        \<and> e \<le> d + int STEPSIZE + k \<and> 0 \<le> k \<and> d + int STEPSIZE + k \<le> int (length m1) \<and> length m' = length m1
        \<and> (s + int STEPSIZE + int STEPSIZE \<le> d + int STEPSIZE \<longrightarrow>
            (\<forall>i. d + int STEPSIZE \<le> i \<and> i < d + int STEPSIZE + k \<longrightarrow> at m' i = at m' (i - (d + int STEPSIZE - (s + int STEPSIZE)))))
        \<and> agree m1 m' 0 (d + int STEPSIZE)"
      by (rule 1(1) [OF m1(1) True]) (use 1(2-6) True m1(2) in auto)
    then obtain m' k where r: "wildcopy_within m1 (d + int STEPSIZE) (s + int STEPSIZE) e = Inr (m', (d + int STEPSIZE) + k, (s + int STEPSIZE) + k)"
      "e \<le> d + int STEPSIZE + k" "0 \<le> k" "length m' = length m1" "agree m1 m' 0 (d + int STEPSIZE)"
      "d + int STEPSIZE + k \<le> int (length m1)"
      "\<And>i. s + int STEPSIZE \<le> d \<Longrightarrow> d + int STEPSIZE \<le> i \<Longrightarrow> i < d + int STEPSIZE + k \<Longrightarrow> at m' i = at m' (i - (d - s))"
      by auto
    have "at m' i = at m' (i - (d - s))" if "s + int STEPSIZE \<le> d" "d \<le> i" "i < d + (int STEPSIZE + k)" for i
    proof (cases "i < d + int STEPSIZE")
      case True
      then show ?thesis using step [OF that(1,2)] agreeD [OF r(5), of i] agreeD [OF r(5), of "i - (d - s)"] that 1(2,5) by auto
    qed (use that r(7) [of i] in auto)
    moreover have "agree m m' 0 d" using agree_trans [OF m1(4) agree_sub [OF r(5)]] by simp
    ultimately show ?thesis using True m1 r
      by (subst wildcopy_within.simps) (intro exI [of _ m'] exI [of _ "int STEPSIZE + k"], auto simp: algebra_simps)
  qed
qed

lemma drop_behind: "0 \<le> ip \<Longrightarrow> drop (nat ip) src = xs @ ys \<Longrightarrow> drop (nat (ip + int (length xs))) src = ys"
proof -
  assume "0 \<le> ip" "drop (nat ip) src = xs @ ys"
  moreover have "drop (length xs) (drop (nat ip) src) = drop (nat (ip + int (length xs))) src"
    using \<open>0 \<le> ip\<close> by (simp add: nat_add_distrib add.commute)
  ultimately show ?thesis by simp
qed

lemma drop_length_le: "0 \<le> ip \<Longrightarrow> drop (nat ip) src = xs @ ys \<Longrightarrow> xs \<noteq> [] \<Longrightarrow> ip + int (length xs) \<le> int (length src)"
proof -
  assume a: "0 \<le> ip" "drop (nat ip) src = xs @ ys" "xs \<noteq> []"
  have "length src - nat ip = length xs + length ys" using arg_cong [OF a(2), of length] by simp
  moreover have "0 < length xs" using a(3) by simp
  ultimately show ?thesis using a(1) by linarith
qed

lemma take_copied:
  assumes "agree m m' 0 op" and "length m' = length m" and "0 \<le> op" and "op + int (length lits) \<le> int (length m)"
    and "\<And>i. op \<le> i \<Longrightarrow> i < op + int (length lits) \<Longrightarrow> at m' i = at src (s + (i - op))" and "0 \<le> s" and "drop (nat s) src = lits @ rest"
  shows "take (nat (op + int (length lits))) m' = take (nat op) m @ lits"
proof (rule nth_equalityI)
  have le: "nat op + length lits \<le> length m" using assms(3,4) by linarith
  show "length (take (nat (op + int (length lits))) m') = length (take (nat op) m @ lits)"
    using assms(2,3) le by (simp add: nat_add_distrib)
  fix i assume "i < length (take (nat (op + int (length lits))) m')"
  then have i: "int i < op + int (length lits)" by auto
  show "take (nat (op + int (length lits))) m' ! i = (take (nat op) m @ lits) ! i"
  proof (cases "int i < op")
    case True
    then show ?thesis using agreeD [OF assms(1), of "int i"] i le by (auto simp: at_def nth_append)
  next
    case False
    have "nat (s + (int i - op)) = nat s + (i - nat op)" using False assms(3,6) by linarith
    moreover have "src ! (nat s + (i - nat op)) = (lits @ rest) ! (i - nat op)"
    proof -
      have "lits \<noteq> []" using i False by auto
      then have "drop (nat s) src \<noteq> []" using assms(7) by simp
      then have "nat s \<le> length src" by simp
      then show ?thesis using assms(7) by (metis nth_drop)
    qed
    ultimately show ?thesis using assms(5) [of "int i"] i False le assms(3) by (auto simp: at_def nth_append)
  qed
qed

section \<open>What a block means\<close>

text \<open>
  A block is a list of sequences and the literals behind the last of them.  A sequence is literal
  bytes and a match: \<open>extra + 4\<close> bytes that repeat what lies \<open>offset\<close> bytes back.
\<close>

record sequence =
  literals :: bytes
  offset :: nat
  extra :: nat

text \<open>Lengths: up to 14 in a half of the token, the rest in bytes of which the first one below 255 is the last.\<close>

function length_bytes :: "nat \<Rightarrow> bytes" where
  "length_bytes n = (if n < 255 then [word_of_nat n] else 255 # length_bytes (n - 255))"
  by pat_completeness auto
termination by (relation "measure id") auto

declare length_bytes.simps [simp del]

definition more_length :: "nat \<Rightarrow> bytes" where
  "more_length n = (if n < 15 then [] else length_bytes (n - 15))"

definition token_byte :: "nat \<Rightarrow> nat \<Rightarrow> byte" where
  "token_byte l m = word_of_nat (16 * min l 15 + min m 15)"

definition run_bytes :: "bytes \<Rightarrow> nat \<Rightarrow> bytes" where
  "run_bytes lits m = token_byte (length lits) m # more_length (length lits) @ lits"

definition sequence_bytes :: "sequence \<Rightarrow> bytes" where
  "sequence_bytes q = run_bytes (literals q) (extra q) @ le_enc 2 (offset q) @ more_length (extra q)"

definition block_bytes :: "sequence list \<Rightarrow> bytes \<Rightarrow> bytes" where
  "block_bytes qs lits = concat (map sequence_bytes qs) @ run_bytes lits 0"

fun repeat_match :: "nat \<Rightarrow> nat \<Rightarrow> bytes \<Rightarrow> bytes" where
  "repeat_match off 0 out = out"
| "repeat_match off (Suc n) out = repeat_match off n (out @ [out ! (length out - off)])"

definition after_sequence :: "bytes \<Rightarrow> sequence \<Rightarrow> bytes" where
  "after_sequence out q = repeat_match (offset q) (extra q + 4) (out @ literals q)"

definition expand :: "bytes \<Rightarrow> sequence list \<Rightarrow> bytes" where
  "expand out qs = foldl after_sequence out qs"

text \<open>
  The rules of the format for a block that stands for \<open>n\<close> bytes, what came before it included: an
  offset points into what is known, no match starts in the last 12 bytes, none reaches into the
  last 5.
\<close>

fun block_ok :: "nat \<Rightarrow> bytes \<Rightarrow> sequence list \<Rightarrow> bool" where
  "block_ok n out [] \<longleftrightarrow> True"
| "block_ok n out (q # qs) \<longleftrightarrow>
     0 < offset q \<and> offset q < 2 ^ 16 \<and> offset q \<le> length out + length (literals q) \<and>
     length out + length (literals q) + 12 \<le> n \<and> length out + length (literals q) + extra q + 9 \<le> n \<and>
     block_ok n (after_sequence out q) qs"

lemma expand_Nil [simp]: "expand out [] = out"
  by (simp add: expand_def)

lemma expand_Cons [simp]: "expand out (q # qs) = expand (after_sequence out q) qs"
  by (simp add: expand_def)

lemma expand_snoc: "expand out (qs @ [q]) = after_sequence (expand out qs) q"
  by (simp add: expand_def)

lemma block_ok_snoc:
  "block_ok n out (qs @ [q]) \<longleftrightarrow> block_ok n out qs \<and> block_ok n (expand out qs) [q]"
  by (induction qs arbitrary: out) auto

lemma length_repeat_match [simp]: "length (repeat_match off k out) = length out + k"
  by (induction k arbitrary: out) auto

lemma length_after_sequence [simp]: "length (after_sequence out q) = length out + length (literals q) + extra q + 4"
  by (simp add: after_sequence_def)

lemma length_expand_le: "length out \<le> length (expand out qs)"
proof (induction qs arbitrary: out)
  case (Cons q qs)
  then show ?case using Cons.IH [of "after_sequence out q"] by simp
qed simp

lemma length_length_bytes: "length (length_bytes n) = n div 255 + 1"
proof (induction n rule: length_bytes.induct)
  case (1 n)
  then show ?case by (subst length_bytes.simps) (simp add: le_div_geq)
qed

lemma length_more_length: "length (more_length n) = (n + 240) div 255"
proof (cases "n < 15")
  case False
  then have "n + 240 = n - 15 + 255" by simp
  then show ?thesis using False by (simp add: more_length_def length_length_bytes)
qed (simp add: more_length_def)

section \<open>Repetition\<close>

text \<open>A memory repeats itself at distance \<open>off\<close> from \<open>a\<close> to \<open>b\<close>; it also does at every multiple.\<close>

definition periodic :: "bytes \<Rightarrow> int \<Rightarrow> int \<Rightarrow> int \<Rightarrow> bool" where
  "periodic m a b off \<longleftrightarrow> (\<forall>i. a \<le> i \<and> i < b \<longrightarrow> at m i = at m (i - off))"

lemma periodicD: "periodic m a b off \<Longrightarrow> a \<le> i \<Longrightarrow> i < b \<Longrightarrow> at m i = at m (i - off)"
  by (simp add: periodic_def)

lemma periodic_mult:
  assumes "periodic m a b off" and "0 \<le> off" and "i < b" and "a + int k * off - off \<le> i"
  shows "at m i = at m (i - int k * off)"
  using assms(3,4)
proof (induction k arbitrary: i)
  case (Suc k)
  have "at m (i - int k * off) = at m (i - int k * off - off)"
  proof (rule periodicD [OF assms(1)])
    have "0 \<le> int k * off" using assms(2) by simp
    then show "i - int k * off < b" using Suc.prems(1) by linarith
  qed (use Suc.prems(2) in \<open>simp add: algebra_simps\<close>)
  with Suc.IH [of i] Suc.prems assms(2) show ?case by (simp add: algebra_simps)
qed simp

lemma periodic_extend:
  assumes "periodic m a b off" and "0 \<le> off" and D: "D = int (Suc k) * off" and "a + D \<le> b + off"
    and step: "\<And>i. b \<le> i \<Longrightarrow> i < c \<Longrightarrow> at m i = at m (i - D)"
  shows "periodic m a c off"
proof -
  have "at m i = at m (i - off)" if "a \<le> i" "i < c" for i
    using that
  proof (induction "nat (i - a)" arbitrary: i rule: less_induct)
    case less
    show ?case
    proof (cases "i < b")
      case True
      then show ?thesis using periodicD [OF assms(1)] less(2) by simp
    next
      case False
      have p: "periodic m a i off" using less(1,3) by (auto simp: periodic_def)
      show ?thesis
      proof (cases "off = 0")
        case False
        have "at m (i - off) = at m (i - off - int k * off)"
          by (rule periodic_mult [OF p assms(2)]) (use False assms \<open>\<not> i < b\<close> in \<open>auto simp: algebra_simps\<close>)
        then show ?thesis using step [of i] less(3) \<open>\<not> i < b\<close> D by (simp add: algebra_simps)
      qed simp
    qed
  qed
  then show ?thesis by (simp add: periodic_def)
qed

lemma periodic_agree: "periodic m a b off \<Longrightarrow> agree m m' (a - off) b \<Longrightarrow> 0 \<le> off \<Longrightarrow> periodic m' a b off"
  by (auto simp: periodic_def agree_def)

lemma take_periodic:
  assumes "periodic m (int a) (int (a + k)) (int off)" and "0 < off" and "off \<le> a" and "a + k \<le> length m"
  shows "take (a + k) m = repeat_match off k (take a m)"
  using assms(1,3,4)
proof (induction k arbitrary: a)
  case (Suc k)
  have "m ! a = m ! (a - off)"
    using periodicD [OF Suc.prems(1), of "int a"] Suc.prems(2) by (simp add: at_def nat_diff_distrib flip: of_nat_diff)
  then have "take (Suc a) m = take a m @ [take a m ! (length (take a m) - off)]"
    using Suc.prems assms(2) by (simp add: take_Suc_conv_app_nth)
  moreover have "take (Suc a + k) m = repeat_match off k (take (Suc a) m)"
    by (rule Suc.IH) (use Suc.prems in \<open>auto simp: periodic_def\<close>)
  ultimately show ?case by simp
qed simp

end
