(* ===== verification/Lz4Decode.thy ===== *)
theory Lz4Decode
  imports Lz4
begin

text \<open>
  Decompression: \<^verbatim>\<open>LZ4_decompress_generic\<close> and the functions of \<^verbatim>\<open>lz4.h\<close> that call it.  The output
  starts at the beginning of its object, so a reference before it is a fault unless a dictionary
  is given; the functions that expect earlier output in front of \<^verbatim>\<open>dest\<close> (\<^verbatim>\<open>_withPrefix64k\<close>) and
  those that keep a dictionary between calls (\<^verbatim>\<open>_continue\<close>) are left out.
\<close>

section \<open>The decoder\<close>

datatype dict_directive = noDict | withPrefix64k | usingExtDict

text \<open>What stays the same while a block is decoded: the parameters and the constants computed from them.\<close>

record decoder =
  input :: bytes
  iend :: int
  oend :: int
  endOnInput :: bool
  partialDecoding :: bool
  oexit :: int
  dict :: dict_directive
  dictionary :: bytes
  dictSize :: int

text \<open>The bytes that continue a literal length: with \<^verbatim>\<open>endOnInput\<close> not in the last 15 bytes of the input.\<close>

function run_length_loop :: "decoder \<Rightarrow> int \<Rightarrow> nat \<Rightarrow> (int \<times> nat) res" where
  "run_length_loop c ip len =
     bindR (read_le 1 (input c) ip) (\<lambda>s.
       if (endOnInput c \<longrightarrow> ip + 1 < iend c - int RUN_MASK) \<and> s = 255 then run_length_loop c (ip + 1) (len + s)
       else Inr (ip + 1, len + s))"
  by pat_completeness auto
termination
  by (relation "measure (\<lambda>(c, ip, len). nat (int (length (input c)) - ip))")
    (auto simp: read_le_def load_def split: if_splits elim!: bindR_InrE)

text \<open>The bytes that continue a match length; no length where the input ends too early.\<close>

function match_length_loop :: "decoder \<Rightarrow> int \<Rightarrow> nat \<Rightarrow> (int \<times> nat option) res" where
  "match_length_loop c ip len =
     (if endOnInput c \<and> ip > iend c - LASTLITERALS then Inr (ip, None)
      else bindR (read_le 1 (input c) ip) (\<lambda>s.
        if s = 255 then match_length_loop c (ip + 1) (len + s) else Inr (ip + 1, Some (len + s))))"
  by pat_completeness auto
termination
  by (relation "measure (\<lambda>(c, ip, len). nat (int (length (input c)) - ip))")
    (auto simp: read_le_def load_def split: if_splits elim!: bindR_InrE)

declare run_length_loop.simps [simp del] match_length_loop.simps [simp del]

definition dec32table :: "nat \<Rightarrow> int" where
  "dec32table i = [4 - 0, 4 - 3, 4 - 2, 4 - 3, 4 - 0, 4 - 0, 4 - 0, 4 - 0] ! i"

definition dec64table :: "nat \<Rightarrow> int" where
  "dec64table i = [0, 0, 0, - 1, 0, 1, 2, 3] ! i"

text \<open>\<^verbatim>\<open>*op++ = *ref++\<close>, \<open>n\<close> times.\<close>

fun copy_bytes :: "nat \<Rightarrow> bytes \<Rightarrow> int \<Rightarrow> int \<Rightarrow> bytes res" where
  "copy_bytes 0 m op ref = Inr m"
| "copy_bytes (Suc n) m op ref =
     bindR (copy_between m (Ptr op) m (Ptr ref) 1) (\<lambda>m1. copy_bytes n m1 (op + 1) (ref + 1))"

text \<open>
  The first 8 bytes of a match.  Where it overlaps itself: 4 single bytes, then 4 more from a
  position that repeats the pattern, and on from one that is at least 8 bytes back.
\<close>

definition copy_first :: "bytes \<Rightarrow> int \<Rightarrow> int \<Rightarrow> (bytes \<times> int \<times> int) res" where
  "copy_first m op ref =
     (if op - ref < int STEPSIZE then
        bindR (copy_bytes 4 m op ref) (\<lambda>m1.
        let ref1 = ref + dec32table (nat (op - ref)) in
        bindR (copy_between m1 (Ptr (op + 4)) m1 (Ptr ref1) 4) (\<lambda>m2.
          Inr (m2, op + int STEPSIZE, ref1 - dec64table (nat (op - ref)))))
      else bindR (copy_between m (Ptr op) m (Ptr ref) STEPSIZE) (\<lambda>m1. Inr (m1, op + int STEPSIZE, ref + int STEPSIZE)))"

text \<open>A whole match of \<^verbatim>\<open>length + MINMATCH\<close> bytes, and where the output stands behind it; nothing where it would run into the last bytes.\<close>

definition copy_match :: "decoder \<Rightarrow> bytes \<Rightarrow> int \<Rightarrow> int \<Rightarrow> nat \<Rightarrow> (bytes \<times> int option) res" where
  "copy_match c m op ref len =
     bindR (copy_first m op ref) (\<lambda>(m1, op1, ref1).
     let cpy = op1 + int len - (int STEPSIZE - 4) in
     if cpy > oend c - COPYLENGTH - (int STEPSIZE - 4) then
       if cpy > oend c - LASTLITERALS then Inr (m1, None)
       else bindR (if op1 < oend c - COPYLENGTH then wildcopy_within m1 op1 ref1 (oend c - COPYLENGTH) else Inr (m1, op1, ref1))
         (\<lambda>(m2, op2, ref2).
         bindR (copy_bytes (nat (cpy - op2)) m2 op2 ref2) (\<lambda>m3. Inr (m3, Some cpy)))
     else bindR (wildcopy_within m1 op1 ref1 cpy) (\<lambda>(m2, op2, ref2). Inr (m2, Some cpy)))"

text \<open>A match that starts in the external dictionary and may run on into the output.\<close>

definition copy_from_dict :: "decoder \<Rightarrow> bytes \<Rightarrow> int \<Rightarrow> int \<Rightarrow> nat \<Rightarrow> (bytes \<times> int option) res" where
  "copy_from_dict c m op ref len =
     (if op + int len + MINMATCH > oend c - LASTLITERALS then Inr (m, None)
      else if int len + MINMATCH \<le> - ref then
        bindR (copy_between m (Ptr op) (dictionary c) (Ptr (dictSize c + ref)) (len + nat MINMATCH)) (\<lambda>m1.
          Inr (m1, Some (op + int len + MINMATCH)))
      else
        let copySize = nat (- ref); op1 = op + int copySize; rest = len + nat MINMATCH - copySize in
        bindR (copy_between m (Ptr op) (dictionary c) (Ptr (dictSize c - int copySize)) copySize) (\<lambda>m1.
        bindR (if int rest > op1 then copy_bytes rest m1 op1 0 else memcpy m1 (Ptr op1) (Ptr 0) rest) (\<lambda>m2.
          Inr (m2, Some (op1 + int rest)))))"

text \<open>The literals that end the decoding: of the whole input, or of as much as fits when decoding only a part.\<close>

definition last_run :: "decoder \<Rightarrow> int \<Rightarrow> int \<Rightarrow> nat \<Rightarrow> bytes \<Rightarrow> (int \<times> bytes) res" where
  "last_run c ip op len m =
     (let cpy = op + int len in
      if (if partialDecoding c then cpy > oend c \<or> endOnInput c \<and> ip + int len > iend c
          else \<not> endOnInput c \<and> cpy \<noteq> oend c \<or> endOnInput c \<and> (ip + int len \<noteq> iend c \<or> cpy > oend c))
      then Inr (- ip - 1, m)
      else bindR (copy_between m (Ptr op) (input c) (Ptr ip) len) (\<lambda>m1.
             Inr (if endOnInput c then op + int len else ip + int len, m1)))"

text \<open>
  One sequence after the other.  An error is reported by where in the input it was found.  Every
  sequence reads a token, so the length of the input bounds their number.
\<close>

definition get_runlength :: "decoder \<Rightarrow> nat \<Rightarrow> int \<Rightarrow> (int \<times> nat) res" where
  "get_runlength c token ip =
     (if token div 16 = RUN_MASK then run_length_loop c ip RUN_MASK else Inr (ip, token div 16))"

definition get_matchlength :: "decoder \<Rightarrow> nat \<Rightarrow> int \<Rightarrow> (int \<times> nat option) res" where
  "get_matchlength c token ip =
     (if token mod 16 = ML_MASK then match_length_loop c ip ML_MASK else Inr (ip, Some (token mod 16)))"

definition ends_here :: "decoder \<Rightarrow> int \<Rightarrow> int \<Rightarrow> nat \<Rightarrow> bool" where
  "ends_here c ip op len \<longleftrightarrow>
     endOnInput c \<and> (op + int len > (if partialDecoding c then oexit c else oend c - MFLIMIT) \<or> ip + int len > iend c - (2 + 1 + LASTLITERALS))
     \<or> \<not> endOnInput c \<and> op + int len > oend c - COPYLENGTH"

fun decode_loop :: "nat \<Rightarrow> decoder \<Rightarrow> int \<Rightarrow> int \<Rightarrow> bytes \<Rightarrow> (int \<times> bytes) res" where
  "decode_loop 0 c ip op m = Inl OutOfFuel"
| "decode_loop (Suc fuel) c ip op m =
     bindR (read_le 1 (input c) ip) (\<lambda>token.
     bindR (get_runlength c token (ip + 1)) (\<lambda>(ip1, len).
     let cpy = op + int len in
     if ends_here c ip1 op len then last_run c ip1 op len m
     else
       bindR (LZ4_WILDCOPY m op (input c) ip1 cpy) (\<lambda>(m1, op1, ip2).
       let ip3 = ip2 - (op1 - cpy) in
       bindR (read_le 2 (input c) ip3) (\<lambda>off.
       let ref = cpy - int off in
       if endOnInput c \<and> dictSize c < 64 * 1024 \<and> ref < - dictSize c then Inr (- (ip3 + 2) - 1, m1)
       else
         bindR (get_matchlength c token (ip3 + 2)) (\<lambda>(ip4, mlen).
         case mlen of
           None \<Rightarrow> Inr (- ip4 - 1, m1)
         | Some len2 \<Rightarrow>
             bindR (if dict c = usingExtDict \<and> ref < 0 then copy_from_dict c m1 cpy ref len2 else copy_match c m1 cpy ref len2)
               (\<lambda>(m2, op2).
               case op2 of
                 None \<Rightarrow> Inr (- ip4 - 1, m2)
               | Some op3 \<Rightarrow> decode_loop fuel c ip4 op3 m2))))))"

definition LZ4_decompress_generic ::
  "bytes \<Rightarrow> bytes \<Rightarrow> int \<Rightarrow> int \<Rightarrow> bool \<Rightarrow> bool \<Rightarrow> int \<Rightarrow> dict_directive \<Rightarrow> bytes \<Rightarrow> int \<Rightarrow> (int \<times> bytes) res" where
  "LZ4_decompress_generic source dest inputSize outputSize eoi part targetOutputSize dct dictStart dictSz =
     (let oexit = (if part \<and> targetOutputSize > outputSize - MFLIMIT then outputSize - MFLIMIT else targetOutputSize);
          c = \<lparr>input = source, iend = inputSize, oend = outputSize, endOnInput = eoi, partialDecoding = part, oexit = oexit,
               dict = dct, dictionary = dictStart, dictSize = dictSz\<rparr> in
      if eoi \<and> outputSize = 0 then
        if inputSize = 1 then bindR (read_le 1 source 0) (\<lambda>b. Inr (if b = 0 then 0 else - 1, dest)) else Inr (- 1, dest)
      else if \<not> eoi \<and> outputSize = 0 then bindR (read_le 1 source 0) (\<lambda>b. Inr (if b = 0 then 1 else - 1, dest))
      else decode_loop (Suc (length source)) c 0 0 dest)"

definition LZ4_decompress_safe :: "bytes \<Rightarrow> bytes \<Rightarrow> int \<Rightarrow> int \<Rightarrow> (int \<times> bytes) res" where
  "LZ4_decompress_safe source dest compressedSize maxOutputSize =
     LZ4_decompress_generic source dest compressedSize maxOutputSize True False 0 noDict [] 0"

definition LZ4_decompress_safe_partial :: "bytes \<Rightarrow> bytes \<Rightarrow> int \<Rightarrow> int \<Rightarrow> int \<Rightarrow> (int \<times> bytes) res" where
  "LZ4_decompress_safe_partial source dest compressedSize targetOutputSize maxOutputSize =
     LZ4_decompress_generic source dest compressedSize maxOutputSize True True targetOutputSize noDict [] 0"

definition LZ4_decompress_fast :: "bytes \<Rightarrow> bytes \<Rightarrow> int \<Rightarrow> (int \<times> bytes) res" where
  "LZ4_decompress_fast source dest originalSize =
     LZ4_decompress_generic source dest 0 originalSize False False 0 withPrefix64k [] 0"

definition LZ4_decompress_safe_usingDict :: "bytes \<Rightarrow> bytes \<Rightarrow> int \<Rightarrow> int \<Rightarrow> bytes \<Rightarrow> int \<Rightarrow> (int \<times> bytes) res" where
  "LZ4_decompress_safe_usingDict source dest compressedSize maxOutputSize dictStart dictSz =
     LZ4_decompress_generic source dest compressedSize maxOutputSize True False 0 usingExtDict dictStart dictSz"

definition LZ4_decompress_fast_usingDict :: "bytes \<Rightarrow> bytes \<Rightarrow> int \<Rightarrow> bytes \<Rightarrow> int \<Rightarrow> (int \<times> bytes) res" where
  "LZ4_decompress_fast_usingDict source dest originalSize dictStart dictSz =
     LZ4_decompress_generic source dest 0 originalSize False False 0 usingExtDict dictStart dictSz"

definition LZ4_uncompress :: "bytes \<Rightarrow> bytes \<Rightarrow> int \<Rightarrow> (int \<times> bytes) res" where
  "LZ4_uncompress source dest outputSize = LZ4_decompress_fast source dest outputSize"

definition LZ4_uncompress_unknownOutputSize :: "bytes \<Rightarrow> bytes \<Rightarrow> int \<Rightarrow> int \<Rightarrow> (int \<times> bytes) res" where
  "LZ4_uncompress_unknownOutputSize source dest isize maxOutputSize = LZ4_decompress_safe source dest isize maxOutputSize"

section \<open>Copying a match\<close>

lemma copy_bytes_ok:
  assumes "0 \<le> ref" and "ref \<le> op" and "op + int n \<le> int (length m)"
  shows "\<exists>m'. copy_bytes n m op ref = Inr m' \<and> length m' = length m \<and>
           (ref < op \<longrightarrow> periodic m' op (op + int n) (op - ref)) \<and> agree m m' 0 op"
  using assms
proof (induction n m op ref rule: copy_bytes.induct)
  case (2 n m op ref)
  obtain m1 where m1: "copy_between m (Ptr op) m (Ptr ref) 1 = Inr m1" "length m1 = length m"
    "\<And>i. op \<le> i \<Longrightarrow> i < op + int 1 \<Longrightarrow> at m1 i = at m (ref + (i - op))" "agree m m1 0 op"
    using copy_ok [of op 1 m ref m] 2(2-4) by auto
  obtain m' where m': "copy_bytes n m1 (op + 1) (ref + 1) = Inr m'" "length m' = length m1"
    "ref + 1 < op + 1 \<longrightarrow> periodic m' (op + 1) (op + 1 + int n) (op + 1 - (ref + 1))" "agree m1 m' 0 (op + 1)"
    using 2(1) [OF m1(1)] 2(2-4) m1(2) by auto
  have "periodic m' op (op + int (Suc n)) (op - ref)" if "ref < op"
  proof (unfold periodic_def, intro allI impI)
    fix i assume i: "op \<le> i \<and> i < op + int (Suc n)"
    show "at m' i = at m' (i - (op - ref))"
    proof (cases "i = op")
      case True
      then show ?thesis
        using m1(3) [of op] agreeD [OF m'(4), of op] agreeD [OF m'(4), of ref] agreeD [OF m1(4), of ref] that 2(2) by simp
    next
      case False
      then show ?thesis using periodicD [of m' "op + 1" "op + 1 + int n" "op - ref" i] m'(3) that i by auto
    qed
  qed
  moreover have "agree m m' 0 op" using agree_trans [OF m1(4) agree_sub [OF m'(4)]] by simp
  ultimately show ?case using m1(1,2) m'(1,2) by auto
qed (auto simp: periodic_def)

lemma int_cases_8:
  assumes "0 \<le> (d :: int)" and "d < 8"
  obtains "d = 0" | "d = 1" | "d = 2" | "d = 3" | "d = 4" | "d = 5" | "d = 6" | "d = 7"
  using assms by linarith

lemma dec_tables:
  assumes "0 \<le> d" and "d < 8"
  shows "0 \<le> dec32table (nat d)" "dec32table (nat d) \<le> d + 4" "dec64table (nat d) \<le> dec32table (nat d)"
    "dec32table (nat d) - dec64table (nat d) \<le> d + 8"
    "0 < d \<Longrightarrow> dec32table (nat d) \<le> d" "0 < d \<Longrightarrow> dec32table (nat d) - dec64table (nat d) \<le> d"
    "0 < d \<Longrightarrow> \<exists>k. d + 4 - dec32table (nat d) = int (Suc k) * d"
    "0 < d \<Longrightarrow> \<exists>k. d + 8 - dec32table (nat d) + dec64table (nat d) = int (Suc k) * d"
proof -
  have mult: "\<exists>k. D = int (Suc k) * d" if "0 < d" "d \<le> D" "D mod d = 0" for D
  proof (intro exI)
    have "D = D div d * d" using that by (simp add: dvd_eq_mod_eq_0)
    moreover have "1 \<le> D div d" using pos_imp_zdiv_pos_iff [of d D] that by linarith
    ultimately show "D = int (Suc (nat (D div d - 1))) * d" by simp
  qed
  show "0 \<le> dec32table (nat d)" "dec32table (nat d) \<le> d + 4" "dec64table (nat d) \<le> dec32table (nat d)"
    "dec32table (nat d) - dec64table (nat d) \<le> d + 8"
    using assms by (elim int_cases_8; simp add: dec32table_def dec64table_def)+
  show "dec32table (nat d) \<le> d" "dec32table (nat d) - dec64table (nat d) \<le> d" if "0 < d"
    using assms that by (elim int_cases_8; simp add: dec32table_def dec64table_def)+
  show "\<exists>k. d + 4 - dec32table (nat d) = int (Suc k) * d" if "0 < d"
    by (rule mult [OF that]) (use assms that in \<open>elim int_cases_8; simp add: dec32table_def\<close>)+
  show "\<exists>k. d + 8 - dec32table (nat d) + dec64table (nat d) = int (Suc k) * d" if "0 < d"
    by (rule mult [OF that]) (use assms that in \<open>elim int_cases_8; simp add: dec32table_def dec64table_def\<close>)+
qed

lemma copy_first_ok:
  assumes "0 \<le> ref" and "ref \<le> op" and "op + int STEPSIZE \<le> int (length m)"
  shows "\<exists>m' ref1. copy_first m op ref = Inr (m', op + int STEPSIZE, ref1) \<and> length m' = length m \<and> agree m m' 0 op \<and>
           ref \<le> ref1 \<and> ref1 \<le> op + int STEPSIZE \<and>
           (ref < op \<longrightarrow> periodic m' op (op + int STEPSIZE) (op - ref) \<and> ref1 \<le> op \<and>
              (\<exists>k. op + int STEPSIZE - ref1 = int (Suc k) * (op - ref)))"
proof (cases "op - ref < int STEPSIZE")
  case False
  obtain m' where m': "copy_between m (Ptr op) m (Ptr ref) STEPSIZE = Inr m'" "length m' = length m"
    "\<And>i. op \<le> i \<Longrightarrow> i < op + int STEPSIZE \<Longrightarrow> at m' i = at m (ref + (i - op))" "agree m m' 0 op"
    using copy_ok [of op STEPSIZE m ref m] assms by auto
  have "periodic m' op (op + int STEPSIZE) (op - ref)"
  proof (unfold periodic_def, intro allI impI)
    fix i assume "op \<le> i \<and> i < op + int STEPSIZE"
    then show "at m' i = at m' (i - (op - ref))"
      using m'(3) [of i] agreeD [OF m'(4), of "i - (op - ref)"] False assms by (simp add: algebra_simps)
  qed
  moreover have "\<exists>k. op + int STEPSIZE - (ref + int STEPSIZE) = int (Suc k) * (op - ref)" by (rule exI [of _ 0]) simp
  ultimately show ?thesis using m' False by (auto simp: copy_first_def)
next
  case True
  let ?d = "op - ref"
  have d: "0 \<le> ?d" "?d < 8" using True assms by auto
  note t = dec_tables [OF d]
  obtain m1 where m1: "copy_bytes 4 m op ref = Inr m1" "length m1 = length m"
    "ref < op \<longrightarrow> periodic m1 op (op + 4) ?d" "agree m m1 0 op"
    using copy_bytes_ok [of ref op 4 m] assms by auto
  let ?ref1 = "ref + dec32table (nat ?d)"
  obtain m2 where m2: "copy_between m1 (Ptr (op + 4)) m1 (Ptr ?ref1) 4 = Inr m2" "length m2 = length m1"
    "\<And>i. op + 4 \<le> i \<Longrightarrow> i < op + 4 + int 4 \<Longrightarrow> at m2 i = at m1 (?ref1 + (i - (op + 4)))" "agree m1 m2 0 (op + 4)"
    by (rule copy_ok [of "op + 4" 4 m1 ?ref1 m1]) (use assms m1(2) t(1-2) in auto)
  have per: "periodic m2 op (op + int STEPSIZE) ?d" if "ref < op"
  proof -
    obtain k where k: "?d + 4 - dec32table (nat ?d) = int (Suc k) * ?d" using t(7) \<open>ref < op\<close> by auto
    have p: "periodic m2 op (op + 4) ?d"
      by (rule periodic_agree [OF _ agree_sub [OF m2(4)]]) (use m1(3) that assms in auto)
    show ?thesis
    proof (rule periodic_extend [OF p d(1) k])
      show "op + (?d + 4 - dec32table (nat ?d)) \<le> op + 4 + ?d" using t(1) by simp
      fix i assume i: "op + 4 \<le> i" "i < op + int STEPSIZE"
      have "at m1 (i - (?d + 4 - dec32table (nat ?d))) = at m2 (i - (?d + 4 - dec32table (nat ?d)))"
        using agreeD [OF m2(4)] i t(1,5) that assms by simp
      then show "at m2 i = at m2 (i - (?d + 4 - dec32table (nat ?d)))" using m2(3) [of i] i by (simp add: algebra_simps)
    qed
  qed
  moreover have "agree m m2 0 op" using agree_trans [OF m1(4) agree_sub [OF m2(4)]] by simp
  moreover have "\<exists>k. op + int STEPSIZE - (?ref1 - dec64table (nat ?d)) = int (Suc k) * ?d" if "ref < op"
    using t(8) that by (simp add: algebra_simps)
  moreover have "copy_first m op ref = Inr (m2, op + int STEPSIZE, ?ref1 - dec64table (nat ?d))"
    using m1(1) m2(1) True by (simp add: copy_first_def Let_def)
  moreover have "ref \<le> ?ref1 - dec64table (nat ?d)" "?ref1 - dec64table (nat ?d) \<le> op + int STEPSIZE"
    "ref < op \<Longrightarrow> ?ref1 - dec64table (nat ?d) \<le> op"
    using t(3,4,6) by simp_all
  ultimately show ?thesis using m1(2) m2(2) by metis
qed

text \<open>Near the end of the output: in steps of 8 as far as they fit, then byte by byte.\<close>

lemma copy_tail_ok:
  fixes c :: decoder
  assumes "0 \<le> ref" and "ref \<le> op" and "op + 4 \<le> oend c" and "e \<le> oend c" and "oend c \<le> int (length m)"
  shows "\<exists>m'. bindR (if op < oend c - COPYLENGTH then wildcopy_within m op ref (oend c - COPYLENGTH) else Inr (m, op, ref))
           (\<lambda>(m2, op2, ref2). bindR (copy_bytes (nat (e - op2)) m2 op2 ref2) (\<lambda>m3. Inr (m3, Some e))) = Inr (m', Some e) \<and>
           length m' = length m \<and> agree m m' 0 op \<and>
           (ref + int STEPSIZE \<le> op \<longrightarrow> (\<forall>i. op \<le> i \<and> i < e \<longrightarrow> at m' i = at m' (i - (op - ref))))"
proof -
  obtain m2 k where m2: "(if op < oend c - COPYLENGTH then wildcopy_within m op ref (oend c - COPYLENGTH) else Inr (m, op, ref))
      = Inr (m2, op + k, ref + k)" "0 \<le> k" "op + k \<le> int (length m)" "length m2 = length m" "agree m m2 0 op"
    "ref + int STEPSIZE \<le> op \<longrightarrow> (\<forall>i. op \<le> i \<and> i < op + k \<longrightarrow> at m2 i = at m2 (i - (op - ref)))"
  proof (cases "op < oend c - COPYLENGTH")
    case True
    then show thesis using wildcopy_within_ok [of op m "oend c - COPYLENGTH" ref] assms that by auto
  next
    case False
    show thesis by (rule that [of m 0]) (use False assms in auto)
  qed
  let ?n = "nat (e - (op + k))"
  have "op + k + int ?n \<le> int (length m2)" using m2(3,4) assms(4,5) by simp
  then obtain m3 where m3: "copy_bytes ?n m2 (op + k) (ref + k) = Inr m3" "length m3 = length m2"
    "ref < op \<longrightarrow> periodic m3 (op + k) (op + k + int ?n) (op - ref)" "agree m2 m3 0 (op + k)"
    using copy_bytes_ok [of "ref + k" "op + k" ?n m2] m2(2) assms(1,2) by auto
  have "at m3 i = at m3 (i - (op - ref))" if "ref + int STEPSIZE \<le> op" "op \<le> i" "i < e" for i
  proof (cases "i < op + k")
    case True
    have "at m2 i = at m2 (i - (op - ref))" using m2(6) that True by simp
    then show ?thesis using agreeD [OF m3(4), of i] agreeD [OF m3(4), of "i - (op - ref)"] True that assms(1) by auto
  next
    case False
    then have e: "op + k + int ?n = e" using that by simp
    show ?thesis using m3(3) periodicD [of m3 "op + k" e "op - ref" i] False that unfolding e by simp
  qed
  moreover have "agree m m3 0 op" using agree_trans [OF m2(5) agree_sub [OF m3(4)]] m2(2) by simp
  ultimately show ?thesis using m2(1,4) m3(1,2) by (intro exI [of _ m3]) (simp only: bindR_Inr prod.case, simp)
qed

lemma copy_match_ok:
  assumes "0 \<le> ref" and "ref \<le> op" and "op + 12 \<le> oend c" and "oend c \<le> int (length m)"
  shows "\<exists>m' r. copy_match c m op ref len = Inr (m', r) \<and> length m' = length m \<and> agree m m' 0 op \<and>
           (if op + int len + 9 \<le> oend c
            then r = Some (op + int len + 4) \<and> (ref < op \<longrightarrow> periodic m' op (op + int len + 4) (op - ref))
            else r = None)"
proof -
  let ?op = "op + int STEPSIZE" and ?e = "op + int len + 4"
  obtain m1 ref1 where m1: "copy_first m op ref = Inr (m1, ?op, ref1)" "length m1 = length m" "agree m m1 0 op"
    "ref \<le> ref1" "ref1 \<le> ?op" "ref < op \<longrightarrow> periodic m1 op ?op (op - ref)"
    "ref < op \<longrightarrow> ref1 \<le> op \<and> (\<exists>k. ?op - ref1 = int (Suc k) * (op - ref))"
    using copy_first_ok [of ref op m] assms by auto
  have finish: ?thesis
    if f: "copy_match c m op ref len = Inr (m', Some ?e)" "?e \<le> oend c - 5" "length m' = length m1" "agree m1 m' 0 ?op"
      "ref1 + int STEPSIZE \<le> ?op \<longrightarrow> (\<forall>i. ?op \<le> i \<and> i < ?e \<longrightarrow> at m' i = at m' (i - (?op - ref1)))" for m'
  proof -
    have "periodic m' op ?e (op - ref)" if r: "ref < op"
    proof -
      obtain k where k: "?op - ref1 = int (Suc k) * (op - ref)" using m1(7) r by auto
      have "periodic m' op ?op (op - ref)"
        by (rule periodic_agree [OF _ agree_sub [OF f(4)]]) (use m1(6) r assms(1) in auto)
      then show ?thesis by (rule periodic_extend [OF _ _ k]) (use f(5) m1(4,7) r in auto)
    qed
    then show ?thesis using f(1-3) m1(2) agree_trans [OF m1(3) agree_sub [OF f(4), of 0 op]] by (intro exI [of _ m']) simp
  qed
  have cpy: "?op + int len - (int STEPSIZE - 4) = ?e" by simp
  consider (fail) "oend c - 5 < ?e" | (far) "?e \<le> oend c - 12" | (near) "?e \<le> oend c - 5" "oend c - 12 < ?e" by linarith
  then show ?thesis
  proof cases
    case fail
    then show ?thesis using m1 by (auto simp: copy_match_def Let_def)
  next
    case far
    obtain m2 k where m2: "wildcopy_within m1 ?op ref1 ?e = Inr (m2, ?op + k, ref1 + k)" "?e \<le> ?op + k" "length m2 = length m1"
      "ref1 + int STEPSIZE \<le> ?op \<longrightarrow> (\<forall>i. ?op \<le> i \<and> i < ?op + k \<longrightarrow> at m2 i = at m2 (i - (?op - ref1)))" "agree m1 m2 0 ?op"
      using wildcopy_within_ok [of ?op m1 ?e ref1] far m1 assms by auto
    have "copy_match c m op ref len = Inr (m2, Some ?e)"
      using far m1(1) m2(1) by (simp add: copy_match_def Let_def algebra_simps)
    then show ?thesis using finish [OF _ _ m2(3,5)] far m2(2,4) by auto
  next
    case near
    obtain m2 where m2: "bindR (if ?op < oend c - COPYLENGTH then wildcopy_within m1 ?op ref1 (oend c - COPYLENGTH) else Inr (m1, ?op, ref1))
        (\<lambda>(m2, op2, ref2). bindR (copy_bytes (nat (?e - op2)) m2 op2 ref2) (\<lambda>m3. Inr (m3, Some ?e))) = Inr (m2, Some ?e)"
      "length m2 = length m1" "agree m1 m2 0 ?op"
      "ref1 + int STEPSIZE \<le> ?op \<longrightarrow> (\<forall>i. ?op \<le> i \<and> i < ?e \<longrightarrow> at m2 i = at m2 (i - (?op - ref1)))"
      using copy_tail_ok [of ref1 ?op c ?e m1] near m1(2,4,5) assms by auto
    have "oend c - COPYLENGTH - (int STEPSIZE - 4) < ?e" "\<not> oend c - LASTLITERALS < ?e" using near by simp_all
    then have "copy_match c m op ref len = Inr (m2, Some ?e)"
      using m1(1) m2(1) by (simp only: copy_match_def Let_def bindR_Inr prod.case cpy if_True if_False)
    then show ?thesis using finish m2(2-4) near(1) by blast
  qed
qed

text \<open>With a dictionary the history is the dictionary and the output behind it.\<close>

lemma at_append: "0 \<le> i \<Longrightarrow> at (xs @ ys) i = (if i < int (length xs) then at xs i else at ys (i - int (length xs)))"
  by (auto simp: at_def nth_append nat_diff_distrib nat_less_iff)

lemma copy_from_dict_ok:
  assumes "- int (length (dictionary c)) \<le> ref" and "ref < 0" and "0 \<le> op" and "op + 12 \<le> oend c" and "oend c \<le> int (length m)"
    and "dictSize c = int (length (dictionary c))"
  shows "\<exists>m' r. copy_from_dict c m op ref len = Inr (m', r) \<and> length m' = length m \<and> agree m m' 0 op \<and>
           (if op + int len + 9 \<le> oend c
            then r = Some (op + int len + 4) \<and>
              periodic (dictionary c @ m') (dictSize c + op) (dictSize c + (op + int len + 4)) (op - ref)
            else r = None)"
proof -
  let ?d = "dictionary c" and ?n = "dictSize c" and ?e = "op + int len + 4"
  consider (fail) "oend c - 5 < ?e" | (inside) "?e \<le> oend c - 5" "int len + 4 \<le> - ref" | (across) "?e \<le> oend c - 5" "- ref < int len + 4"
    by linarith
  then show ?thesis
  proof cases
    case inside
    obtain m' where m': "copy_between m (Ptr op) ?d (Ptr (?n + ref)) (len + 4) = Inr m'" "length m' = length m" "agree m m' 0 op"
      "\<And>i. op \<le> i \<Longrightarrow> i < op + int (len + 4) \<Longrightarrow> at m' i = at ?d (?n + ref + (i - op))"
      using copy_ok [of op "len + 4" m "?n + ref" ?d] assms inside by auto
    have "periodic (?d @ m') (?n + op) (?n + ?e) (op - ref)"
      unfolding periodic_def using assms inside m'(4) by (auto simp: at_append algebra_simps)
    then show ?thesis using m' inside by (auto simp: copy_from_dict_def)
  next
    case across
    let ?k = "nat (- ref)" and ?r = "len + 4 - nat (- ref)"
    obtain m1 where m1: "copy_between m (Ptr op) ?d (Ptr (?n - int ?k)) ?k = Inr m1" "length m1 = length m" "agree m m1 0 op"
      "\<And>i. op \<le> i \<Longrightarrow> i < op + int ?k \<Longrightarrow> at m1 i = at ?d (?n - int ?k + (i - op))"
      using copy_ok [of op ?k m "?n - int ?k" ?d] assms across by auto
    obtain m2 where m2: "(if int ?r > op + int ?k then copy_bytes ?r m1 (op + int ?k) 0 else memcpy m1 (Ptr (op + int ?k)) (Ptr 0) ?r) = Inr m2"
      "length m2 = length m1" "agree m1 m2 0 (op + int ?k)" "periodic m2 (op + int ?k) ?e (op + int ?k)"
    proof (cases "int ?r > op + int ?k")
      case True
      then show thesis using copy_bytes_ok [of 0 "op + int ?k" ?r m1] that assms m1(2) across by (auto simp: algebra_simps)
    next
      case False
      obtain m2 where c: "copy_between m1 (Ptr (op + int ?k)) m1 (Ptr 0) ?r = Inr m2" "length m2 = length m1" "agree m1 m2 0 (op + int ?k)"
        "\<And>i. op + int ?k \<le> i \<Longrightarrow> i < op + int ?k + int ?r \<Longrightarrow> at m2 i = at m1 (0 + (i - (op + int ?k)))"
        using copy_ok [of "op + int ?k" ?r m1 0 m1] assms m1(2) across False by auto
      have "periodic m2 (op + int ?k) ?e (op + int ?k)"
        unfolding periodic_def using c(4) agreeD [OF c(3)] across False assms(2,3) by auto
      then show thesis using that c False assms by (auto simp: memcpy_def memmove_def copy_between_def)
    qed
    have "periodic (?d @ m2) (?n + op) (?n + ?e) (op - ref)"
    proof (unfold periodic_def, intro allI impI)
      fix i assume i: "?n + op \<le> i \<and> i < ?n + ?e"
      show "at (?d @ m2) i = at (?d @ m2) (i - (op - ref))"
      proof (cases "i - ?n < op - ref")
        case True
        then show ?thesis using m1(4) [of "i - ?n"] agreeD [OF m2(3), of "i - ?n"] i assms by (auto simp: at_append algebra_simps)
      next
        case False
        then show ?thesis using periodicD [OF m2(4), of "i - ?n"] i assms by (auto simp: at_append algebra_simps)
      qed
    qed
    moreover have "agree m m2 0 op" using agree_trans [OF m1(3) agree_sub [OF m2(3)]] by simp
    moreover have "copy_from_dict c m op ref len = Inr (m2, Some ?e)"
      using m1(1) m2(1) across assms(2) by (simp add: copy_from_dict_def Let_def)
    ultimately show ?thesis using m1(2) m2(2) across by (intro exI [of _ m2]) simp
  qed (use assms in \<open>auto simp: copy_from_dict_def\<close>)
qed

section \<open>Reading lengths\<close>

text \<open>For any input of at least 2 bytes with the position in front of its last 3: the loops stay inside it.\<close>

lemma run_length_loop_bound:
  assumes "0 \<le> ip" and "ip < iend c" and "iend c \<le> int (length (input c))" and "endOnInput c"
  shows "\<exists>ip' len'. run_length_loop c ip len = Inr (ip', len') \<and> ip < ip' \<and> ip' \<le> iend c"
  using assms
proof (induction c ip len rule: run_length_loop.induct)
  case (1 c ip len)
  let ?s = "unat (at (input c) ip)"
  have r: "read_le 1 (input c) ip = Inr ?s" using 1 by (intro read_byte) auto
  show ?case
  proof (cases "ip + 1 < iend c - int RUN_MASK \<and> ?s = 255")
    case True
    have "\<exists>ip' len'. run_length_loop c (ip + 1) (len + ?s) = Inr (ip', len') \<and> ip + 1 < ip' \<and> ip' \<le> iend c"
      by (rule 1(1) [OF r]) (use True 1 in auto)
    then show ?thesis using r True 1(5) by (subst run_length_loop.simps) auto
  next
    case False
    then show ?thesis using r 1 by (subst run_length_loop.simps) auto
  qed
qed

lemma match_length_loop_bound:
  assumes "0 \<le> ip" and "ip \<le> iend c - 4" and "iend c \<le> int (length (input c))" and "endOnInput c"
  shows "\<exists>ip' r. match_length_loop c ip len = Inr (ip', r) \<and> ip \<le> ip' \<and> ip' \<le> iend c - 4"
  using assms
proof (induction c ip len rule: match_length_loop.induct)
  case (1 c ip len)
  let ?s = "unat (at (input c) ip)"
  have r: "read_le 1 (input c) ip = Inr ?s" using 1 by (intro read_byte) auto
  show ?case
  proof (cases "ip > iend c - LASTLITERALS")
    case False
    show ?thesis
    proof (cases "?s = 255")
      case True
      have "\<exists>ip' r. match_length_loop c (ip + 1) (len + ?s) = Inr (ip', r) \<and> ip + 1 \<le> ip' \<and> ip' \<le> iend c - 4"
        by (rule 1(1) [OF _ r]) (use True False 1 in auto)
      then obtain ip' x where "match_length_loop c (ip + 1) (len + ?s) = Inr (ip', x)" "ip + 1 \<le> ip'" "ip' \<le> iend c - 4" by blast
      then show ?thesis using r True False by (subst match_length_loop.simps) auto
    next
      case z: False
      then show ?thesis using r False by (subst match_length_loop.simps) auto
    qed
  qed (use 1 in \<open>subst match_length_loop.simps, auto\<close>)
qed

text \<open>On a length that was written by \<open>length_bytes\<close> they read what was written.\<close>

lemma at_split: "0 \<le> ip \<Longrightarrow> drop (nat ip) src = x # xs \<Longrightarrow> at src ip = x \<and> ip < int (length src) \<and> drop (nat (ip + 1)) src = xs"
proof -
  assume a: "0 \<le> ip" "drop (nat ip) src = x # xs"
  then have l: "nat ip < length src" by (metis drop_all leI list.distinct(1))
  have "src ! nat ip # drop (Suc (nat ip)) src = x # xs" using Cons_nth_drop_Suc [OF l] a(2) by simp
  moreover have "nat (ip + 1) = Suc (nat ip)" using a(1) by simp
  ultimately show ?thesis using l by (simp add: at_def)
qed

lemma run_length_loop_reads:
  assumes "0 \<le> ip" and "drop (nat ip) (input c) = length_bytes n @ rest"
    and "endOnInput c \<longrightarrow> ip + int (length (length_bytes n)) + int n + 14 \<le> iend c"
  shows "run_length_loop c ip len = Inr (ip + int (length (length_bytes n)), len + n)"
  using assms
proof (induction n arbitrary: ip len rule: length_bytes.induct)
  case (1 n)
  show ?case
  proof (cases "n < 255")
    case True
    then have "length_bytes n = [word_of_nat n]" by (subst length_bytes.simps) simp
    with 1 at_split [OF 1(2), of "input c"] True show ?thesis
      by (subst run_length_loop.simps) (simp add: read_byte_Suc unat_of_nat)
  next
    case False
    then have b: "length_bytes n = 255 # length_bytes (n - 255)" by (subst length_bytes.simps) simp
    note sp = at_split [OF 1(2), of "input c" 255 "length_bytes (n - 255) @ rest"]
    have "run_length_loop c (ip + 1) (len + 255) = Inr (ip + 1 + int (length (length_bytes (n - 255))), len + 255 + (n - 255))"
      by (rule 1(1)) (use False sp 1 b in auto)
    then show ?thesis using False sp 1 b by (subst run_length_loop.simps) (auto simp: read_byte_Suc)
  qed
qed

lemma match_length_loop_reads:
  assumes "0 \<le> ip" and "drop (nat ip) (input c) = length_bytes n @ rest"
    and "endOnInput c \<longrightarrow> ip + int (length (length_bytes n)) + 4 \<le> iend c"
  shows "match_length_loop c ip len = Inr (ip + int (length (length_bytes n)), Some (len + n))"
  using assms
proof (induction n arbitrary: ip len rule: length_bytes.induct)
  case (1 n)
  show ?case
  proof (cases "n < 255")
    case True
    then have "length_bytes n = [word_of_nat n]" by (subst length_bytes.simps) simp
    with 1 at_split [OF 1(2), of "input c"] True show ?thesis
      by (subst match_length_loop.simps) (auto simp: read_byte_Suc unat_of_nat)
  next
    case False
    then have b: "length_bytes n = 255 # length_bytes (n - 255)" by (subst length_bytes.simps) simp
    note sp = at_split [OF 1(2), of "input c" 255 "length_bytes (n - 255) @ rest"]
    have "match_length_loop c (ip + 1) (len + 255) = Inr (ip + 1 + int (length (length_bytes (n - 255))), Some (len + 255 + (n - 255)))"
      by (rule 1(1)) (use False sp 1 b in auto)
    then show ?thesis using False sp 1 b by (subst match_length_loop.simps) (auto simp: read_byte_Suc)
  qed
qed

section \<open>Any input\<close>

text \<open>A decoder that ends with its input, with sizes that are those of its buffers.\<close>

definition decoder_ok :: "decoder \<Rightarrow> bool" where
  "decoder_ok c \<longleftrightarrow>
     endOnInput c \<and> iend c \<le> int (length (input c)) \<and> dictSize c = int (length (dictionary c)) \<and>
     (dict c = usingExtDict \<or> dictionary c = []) \<and> (partialDecoding c \<longrightarrow> oexit c \<le> oend c - 12)"

lemma get_runlength_bound:
  assumes "decoder_ok c" and "0 \<le> ip" and "ip < iend c"
  shows "\<exists>ip' len. get_runlength c token ip = Inr (ip', len) \<and> ip \<le> ip' \<and> ip' \<le> iend c"
  using run_length_loop_bound [of ip c RUN_MASK] assms by (auto simp: get_runlength_def decoder_ok_def)

lemma get_matchlength_bound:
  assumes "decoder_ok c" and "0 \<le> ip" and "ip \<le> iend c - 4"
  shows "\<exists>ip' r. get_matchlength c token ip = Inr (ip', r) \<and> ip \<le> ip' \<and> ip' \<le> iend c - 4"
  using match_length_loop_bound [of ip c ML_MASK] assms by (auto simp: get_matchlength_def decoder_ok_def)

lemma last_run_bound:
  assumes "decoder_ok c" and "0 \<le> ip" and "ip \<le> iend c" and "0 \<le> op" and "op \<le> oend c" and "oend c \<le> int (length m)"
  shows "\<exists>r m'. last_run c ip op len m = Inr (r, m') \<and> length m' = length m \<and> - iend c - 1 \<le> r \<and> r \<le> oend c"
proof (cases "op + int len > oend c \<or> ip + int len > iend c \<or> \<not> partialDecoding c \<and> ip + int len \<noteq> iend c")
  case True
  then show ?thesis using assms by (auto simp: last_run_def decoder_ok_def Let_def)
next
  case False
  obtain m' where "copy_between m (Ptr op) (input c) (Ptr ip) len = Inr m'" "length m' = length m"
    using copy_ok [of op len m ip "input c"] False assms by (auto simp: decoder_ok_def)
  then show ?thesis using False assms by (auto simp: last_run_def decoder_ok_def Let_def)
qed

lemma ends_here_False:
  assumes "decoder_ok c" and "\<not> ends_here c ip op len"
  shows "op + int len + 12 \<le> oend c" and "ip + int len + 8 \<le> iend c"
  using assms by (auto simp: ends_here_def decoder_ok_def split: if_splits)

lemma copy_any_ok:
  assumes "decoder_ok c" and "0 \<le> op" and "op + 12 \<le> oend c" and "oend c \<le> int (length m)" and "off < 2 ^ 16"
    and "\<not> (dictSize c < 64 * 1024 \<and> op - int off < - dictSize c)"
  shows "\<exists>m' r. (if dict c = usingExtDict \<and> op - int off < 0 then copy_from_dict c m op (op - int off) len
                 else copy_match c m op (op - int off) len) = Inr (m', r) \<and> length m' = length m \<and>
           (case r of None \<Rightarrow> True | Some op' \<Rightarrow> op \<le> op' \<and> op' \<le> oend c)"
proof (cases "op - int off < 0")
  case True
  have "dict c = usingExtDict" "- int (length (dictionary c)) \<le> op - int off"
    using assms True by (auto simp: decoder_ok_def)
  then show ?thesis
    using copy_from_dict_ok [of c "op - int off" op m len] True assms by (auto simp: decoder_ok_def split: if_splits)
next
  case False
  then show ?thesis using copy_match_ok [of "op - int off" op c m len] assms by (auto split: if_splits)
qed

text \<open>One round that goes on to the next sequence.\<close>

lemma decode_loop_step:
  assumes "read_le 1 (input c) ip = Inr token" and "get_runlength c token (ip + 1) = Inr (ip1, len)" and "\<not> ends_here c ip1 op len"
    and "LZ4_WILDCOPY m op (input c) ip1 (op + int len) = Inr (m1, op + k, ip1 + k)" and "read_le 2 (input c) (ip1 + int len) = Inr off"
    and "\<not> (endOnInput c \<and> dictSize c < 64 * 1024 \<and> op + int len - int off < - dictSize c)"
    and "get_matchlength c token (ip1 + int len + 2) = Inr (ip4, Some len2)"
    and "(if dict c = usingExtDict \<and> op + int len - int off < 0 then copy_from_dict c m1 (op + int len) (op + int len - int off) len2
      else copy_match c m1 (op + int len) (op + int len - int off) len2) = Inr (m2, Some op3)"
  shows "decode_loop (Suc fuel) c ip op m = decode_loop fuel c ip4 op3 m2"
proof -
  have "ip1 + k - (op + k - (op + int len)) = ip1 + int len" by simp
  with assms show ?thesis by (simp only: decode_loop.simps bindR_Inr prod.case Let_def if_False option.case)
qed

lemma decode_loop_safe:
  assumes "decoder_ok c" and "0 \<le> ip" and "ip + 2 \<le> iend c" and "0 \<le> op" and "op \<le> oend c" and "oend c \<le> int (length m)"
    and "iend c - ip < int fuel"
  shows "\<exists>r m'. decode_loop fuel c ip op m = Inr (r, m') \<and> length m' = length m \<and> - iend c - 1 \<le> r \<and> r \<le> oend c"
  using assms(2-)
proof (induction fuel arbitrary: ip op m)
  case (Suc fuel)
  note ok = assms(1)
  have inp: "endOnInput c" "iend c \<le> int (length (input c))" using ok by (auto simp: decoder_ok_def)
  obtain token where token: "read_le 1 (input c) ip = Inr token" using read_byte [of ip "input c"] Suc.prems inp(2) by auto
  obtain ip1 len where run: "get_runlength c token (ip + 1) = Inr (ip1, len)" "ip + 1 \<le> ip1" "ip1 \<le> iend c"
    using get_runlength_bound [OF ok, of "ip + 1" token] Suc.prems by auto
  show ?case
  proof (cases "ends_here c ip1 op len")
    case True
    then show ?thesis using last_run_bound [OF ok, of ip1 op m len] token run Suc.prems by (auto simp: Let_def)
  next
    case False
    note e = ends_here_False [OF ok False]
    let ?cpy = "op + int len" and ?ip3 = "ip1 + int len"
    obtain m1 k where m1: "LZ4_WILDCOPY m op (input c) ip1 ?cpy = Inr (m1, op + k, ip1 + k)" "length m1 = length m"
      using wildcopy_ok [of op m ?cpy ip1 "input c"] e Suc.prems run inp(2) by auto
    obtain off where off: "read_le 2 (input c) ?ip3 = Inr off" "off < 2 ^ 16"
      using read_le_ok [of ?ip3 2 "input c"] le_dec_less [of "take 2 (drop (nat ?ip3) (input c))"] e(2) run inp(2) Suc.prems(1)
      by (auto simp: min_def split: if_splits)
    show ?thesis
    proof (cases "dictSize c < 64 * 1024 \<and> ?cpy - int off < - dictSize c")
      case True
      then show ?thesis using token run(1) m1 off \<open>\<not> ends_here c ip1 op len\<close> inp(1) e Suc.prems run(2) by (auto simp: Let_def)
    next
      case ref: False
      obtain ip4 mlen where ml: "get_matchlength c token (?ip3 + 2) = Inr (ip4, mlen)" "?ip3 + 2 \<le> ip4" "ip4 \<le> iend c - 4"
        using get_matchlength_bound [OF ok, of "?ip3 + 2" token] e(2) Suc.prems(1) run(2) by auto
      show ?thesis
      proof (cases mlen)
        case None
        then show ?thesis using token run(1) m1 off False ref ml e Suc.prems run(2) by (auto simp: Let_def)
      next
        case (Some len2)
        obtain m2 r where m2: "(if dict c = usingExtDict \<and> ?cpy - int off < 0 then copy_from_dict c m1 ?cpy (?cpy - int off) len2
            else copy_match c m1 ?cpy (?cpy - int off) len2) = Inr (m2, r)" "length m2 = length m1"
          "case r of None \<Rightarrow> True | Some op' \<Rightarrow> ?cpy \<le> op' \<and> op' \<le> oend c"
          using copy_any_ok [OF ok _ e(1) _ off(2) ref, of m1 len2] Suc.prems m1(2) by auto
        show ?thesis
        proof (cases r)
          case None
          then show ?thesis using token run(1) m1 off False ref ml Some m2(1,2) e Suc.prems run(2) by (auto simp: Let_def)
        next
          case op3: (Some op3)
          have "\<exists>r m'. decode_loop fuel c ip4 op3 m2 = Inr (r, m') \<and> length m' = length m2 \<and> - iend c - 1 \<le> r \<and> r \<le> oend c"
            by (rule Suc.IH) (use op3 m2(2,3) m1(2) ml run(2) Suc.prems in auto)
          then show ?thesis
            using decode_loop_step [OF token run(1) False m1(1) off(1) _ ml(1) [unfolded Some] m2(1) [unfolded op3]] ref m1(2) m2(2) by auto
        qed
      qed
    qed
  qed
qed simp

section \<open>A block as the format has it\<close>

lemma token_div: "unat (token_byte l m) div 16 = min l 15" and token_mod: "unat (token_byte l m) mod 16 = min m 15"
proof -
  have "16 * min l 15 + min m 15 < 256" by auto
  then have "unat (token_byte l m) = 16 * min l 15 + min m 15"
    unfolding token_byte_def unsigned_of_nat by (simp add: take_bit_nat_eq_self)
  moreover have "min m 15 < 16" by simp
  ultimately show "unat (token_byte l m) div 16 = min l 15" "unat (token_byte l m) mod 16 = min m 15" by simp_all
qed

lemma get_runlength_reads:
  assumes "0 \<le> ip" and "drop (nat ip) (input c) = more_length l @ rest"
    and "endOnInput c \<longrightarrow> ip + int (length (more_length l)) + int l \<le> iend c"
  shows "get_runlength c (unat (token_byte l m)) ip = Inr (ip + int (length (more_length l)), l)"
  using run_length_loop_reads [of ip c "l - 15" rest 15] assms
  by (auto simp: get_runlength_def token_div more_length_def split: if_splits)

lemma get_matchlength_reads:
  assumes "0 \<le> ip" and "drop (nat ip) (input c) = more_length m @ rest"
    and "endOnInput c \<longrightarrow> ip + int (length (more_length m)) + 4 \<le> iend c"
  shows "get_matchlength c (unat (token_byte l m)) ip = Inr (ip + int (length (more_length m)), Some m)"
  using match_length_loop_reads [of ip c "m - 15" rest 15] assms
  by (auto simp: get_matchlength_def token_mod more_length_def split: if_splits)

lemma copy_history_ok:
  assumes "dictSize c = int (length (dictionary c))" and "dict c = usingExtDict \<or> dictionary c = []"
    and "0 \<le> op" and "op + 12 \<le> oend c" and "oend c \<le> int (length m)" and "op + int len + 9 \<le> oend c"
    and "0 < off" and "int off \<le> dictSize c + op"
  shows "\<exists>m'. (if dict c = usingExtDict \<and> op - int off < 0 then copy_from_dict c m op (op - int off) len
                 else copy_match c m op (op - int off) len) = Inr (m', Some (op + int len + 4)) \<and> length m' = length m \<and>
           dictionary c @ take (nat (op + int len + 4)) m' = repeat_match off (len + 4) (dictionary c @ take (nat op) m)"
proof -
  let ?d = "dictionary c" and ?n = "dictSize c" and ?e = "op + int len + 4"
  obtain m' where m': "(if dict c = usingExtDict \<and> op - int off < 0 then copy_from_dict c m op (op - int off) len
      else copy_match c m op (op - int off) len) = Inr (m', Some ?e)" "length m' = length m" "agree m m' 0 op"
    "periodic (?d @ m') (?n + op) (?n + ?e) (int off)"
  proof (cases "op - int off < 0")
    case True
    then have "dict c = usingExtDict" using assms by auto
    then show thesis using copy_from_dict_ok [of c "op - int off" op m len] that True assms by auto
  next
    case False
    then obtain m' where c: "copy_match c m op (op - int off) len = Inr (m', Some ?e)" "length m' = length m" "agree m m' 0 op"
      "periodic m' op ?e (int off)"
      using copy_match_ok [of "op - int off" op c m len] assms by auto
    have "periodic (?d @ m') (?n + op) (?n + ?e) (int off)"
      unfolding periodic_def using periodicD [OF c(4)] False assms by (auto simp: at_append algebra_simps)
    then show thesis using that c False by simp
  qed
  have "take (length ?d + nat op + (len + 4)) (?d @ m') = repeat_match off (len + 4) (take (length ?d + nat op) (?d @ m'))"
    by (rule take_periodic) (use m'(2,4) assms in \<open>auto simp: algebra_simps\<close>)
  moreover have "nat ?e = nat op + (len + 4)" using assms(3) by simp
  moreover have "take (nat op) m' = take (nat op) m" by (rule agree_take [OF m'(3)]) (use m'(2) assms in auto)
  ultimately show ?thesis using m'(1,2) by (intro exI [of _ m']) (simp add: add.assoc)
qed

text \<open>What decoding a block needs: room for its bytes, or for the functions without an input size the exact number of them.\<close>

definition room_for :: "decoder \<Rightarrow> nat \<Rightarrow> bool" where
  "room_for c n \<longleftrightarrow>
     \<not> partialDecoding c \<and> dictSize c = int (length (dictionary c)) \<and> (dict c = usingExtDict \<or> dictionary c = []) \<and>
     (if endOnInput c then int n \<le> dictSize c + oend c else int n = dictSize c + oend c)"

lemma decode_last:
  assumes "room_for c n" and "0 \<le> ip" and "drop (nat ip) (input c) = run_bytes lits 0 @ rest"
    and "endOnInput c \<longrightarrow> ip + int (length (run_bytes lits 0)) = iend c"
    and "0 \<le> op" and "oend c \<le> int (length m)" and "length (dictionary c) + nat op + length lits = n"
  shows "\<exists>m'. decode_loop (Suc fuel) c ip op m
             = Inr (if endOnInput c then int n - dictSize c else ip + int (length (run_bytes lits 0)), m') \<and>
           length m' = length m \<and> take (n - length (dictionary c)) m' = take (nat op) m @ lits"
proof -
  let ?l = "length lits" and ?ip = "ip + 1 + int (length (more_length (length lits)))"
  have n: "op + int ?l = int n - dictSize c" "op + int ?l \<le> oend c" "n - length (dictionary c) = nat (op + int ?l)"
    using assms(1,5,7) by (auto simp: room_for_def split: if_splits)
  note sp = at_split [OF assms(2) assms(3) [unfolded run_bytes_def append_Cons]]
  have d1: "drop (nat (ip + 1)) (input c) = more_length ?l @ lits @ rest" using sp by simp
  have d2: "drop (nat ?ip) (input c) = lits @ rest" using drop_behind [OF _ d1] assms(2) by simp
  have len: "int (length (run_bytes lits 0)) = ?ip - ip + int ?l" by (simp add: run_bytes_def)
  have run: "get_runlength c (unat (at (input c) ip)) (ip + 1) = Inr (?ip, ?l)"
    unfolding conjunct1 [OF sp] by (rule get_runlength_reads [OF _ d1]) (use assms(2,4) len in auto)
  have ends: "ends_here c ?ip op ?l" using assms(1,4) n len by (cases "endOnInput c") (auto simp: ends_here_def room_for_def)
  have src: "?ip + int ?l \<le> int (length (input c))"
    using drop_length_le [OF assms(2,3)] len by (simp add: run_bytes_def)
  obtain m' where m': "copy_between m (Ptr op) (input c) (Ptr ?ip) ?l = Inr m'" "length m' = length m" "agree m m' 0 op"
    "\<And>i. op \<le> i \<Longrightarrow> i < op + int ?l \<Longrightarrow> at m' i = at (input c) (?ip + (i - op))"
    by (rule copy_ok [of op ?l m ?ip "input c"]) (use src assms(2,5,6) n(2) in auto)
  have "take (nat (op + int ?l)) m' = take (nat op) m @ lits"
    by (rule take_copied [OF m'(3,2) assms(5) _ m'(4) _ d2]) (use assms(2,6) n(2) in auto)
  moreover have "last_run c ?ip op ?l m = Inr (if endOnInput c then op + int ?l else ?ip + int ?l, m')"
    using m'(1) assms(1,4) n len by (auto simp: last_run_def room_for_def Let_def)
  moreover have "?ip + int ?l = ip + int (length (run_bytes lits 0))" using len by simp
  ultimately show ?thesis
    using m'(2) n run ends sp assms(2) by (intro exI [of _ m']) (simp add: read_byte_Suc)
qed

lemma decode_sequence:
  assumes "room_for c n" and "0 \<le> ip" and "drop (nat ip) (input c) = sequence_bytes q @ rest" and "6 \<le> length rest"
    and "endOnInput c \<longrightarrow> ip + int (length (sequence_bytes q)) + 6 \<le> iend c"
    and "0 \<le> op" and "op \<le> int (length m)" and "oend c \<le> int (length m)" and "block_ok n (dictionary c @ take (nat op) m) [q]"
  shows "\<exists>m' op'. decode_loop (Suc fuel) c ip op m = decode_loop fuel c (ip + int (length (sequence_bytes q))) op' m' \<and>
           0 \<le> op' \<and> op' \<le> int (length m') \<and> length m' = length m \<and>
           dictionary c @ take (nat op') m' = after_sequence (dictionary c @ take (nat op) m) q"
proof -
  let ?l = "length (literals q)" and ?cpy = "op + int (length (literals q))"
  let ?ip1 = "ip + 1 + int (length (more_length (length (literals q))))"
  let ?ip3 = "?ip1 + int ?l" and ?ip4 = "ip + int (length (sequence_bytes q))"
  have d: "dictSize c = int (length (dictionary c))" "dict c = usingExtDict \<or> dictionary c = []" "int n \<le> dictSize c + oend c"
    using assms(1) by (auto simp: room_for_def split: if_splits)
  have ok: "?cpy + 12 \<le> oend c" "?cpy + int (extra q) + 9 \<le> oend c" "0 < offset q" "offset q < 2 ^ 16" "int (offset q) \<le> dictSize c + ?cpy"
    using assms(6,7,9) d by (auto simp: min_def split: if_splits)
  have ip4: "?ip4 = ?ip3 + 2 + int (length (more_length (extra q)))" by (simp add: sequence_bytes_def run_bytes_def)
  have d0: "drop (nat ip) (input c) = token_byte ?l (extra q) # more_length ?l @ literals q @ le_enc 2 (offset q) @ more_length (extra q) @ rest"
    using assms(3) by (simp add: sequence_bytes_def run_bytes_def)
  note sp = at_split [OF assms(2) d0]
  have d1: "drop (nat (ip + 1)) (input c) = more_length ?l @ literals q @ le_enc 2 (offset q) @ more_length (extra q) @ rest" using sp by simp
  have d2: "drop (nat ?ip1) (input c) = literals q @ le_enc 2 (offset q) @ more_length (extra q) @ rest"
    using drop_behind [OF _ d1] assms(2) by simp
  have d3: "drop (nat ?ip3) (input c) = le_enc 2 (offset q) @ more_length (extra q) @ rest" using drop_behind [OF _ d2] assms(2) by simp
  have d4: "drop (nat (?ip3 + 2)) (input c) = more_length (extra q) @ rest" using drop_behind [OF _ d3] assms(2) by simp
  have src: "?ip3 + 8 \<le> int (length (input c))"
    using drop_length_le [of ?ip3 "input c" "le_enc 2 (offset q) @ more_length (extra q) @ rest" "[]"] d3 assms(2,4) by (cases "rest = []") auto
  have run: "get_runlength c (unat (at (input c) ip)) (ip + 1) = Inr (?ip1, ?l)"
    unfolding conjunct1 [OF sp] by (rule get_runlength_reads [OF _ d1]) (use assms(2,5) ip4 in auto)
  have ml: "get_matchlength c (unat (at (input c) ip)) (?ip3 + 2) = Inr (?ip4, Some (extra q))"
    unfolding conjunct1 [OF sp] ip4 by (rule get_matchlength_reads [OF _ d4]) (use assms(2,5) ip4 in auto)
  have ends: "\<not> ends_here c ?ip1 op ?l" using assms(1,5) ok(1) ip4 by (auto simp: ends_here_def room_for_def)
  have off: "read_le 2 (input c) ?ip3 = Inr (offset q)"
    using read_le_ok [of ?ip3 2 "input c"] d3 src assms(2) ok(4) by (simp add: le_dec_enc)
  obtain m1 k where m1: "LZ4_WILDCOPY m op (input c) ?ip1 ?cpy = Inr (m1, op + k, ?ip1 + k)" "length m1 = length m" "agree m m1 0 op"
    "\<And>i. op \<le> i \<Longrightarrow> i < op + k \<Longrightarrow> at m1 i = at (input c) (?ip1 + (i - op))" "?cpy \<le> op + k"
    using wildcopy_ok [of op m ?cpy ?ip1 "input c"] src assms(2,6,8) ok(1) by auto
  have t1: "take (nat ?cpy) m1 = take (nat op) m @ literals q"
    by (rule take_copied [OF m1(3,2) assms(6) _ m1(4) _ d2]) (use assms(2,8) ok(1) m1(5) in auto)
  obtain m2 where m2: "(if dict c = usingExtDict \<and> ?cpy - int (offset q) < 0 then copy_from_dict c m1 ?cpy (?cpy - int (offset q)) (extra q)
      else copy_match c m1 ?cpy (?cpy - int (offset q)) (extra q)) = Inr (m2, Some (?cpy + int (extra q) + 4))" "length m2 = length m1"
    "dictionary c @ take (nat (?cpy + int (extra q) + 4)) m2 = repeat_match (offset q) (extra q + 4) (dictionary c @ take (nat ?cpy) m1)"
    using copy_history_ok [OF d(1,2) _ ok(1) _ ok(2,3,5), of m1] assms(6,8) m1(2) by auto
  have "decode_loop (Suc fuel) c ip op m = decode_loop fuel c ?ip4 (?cpy + int (extra q) + 4) m2"
    by (rule decode_loop_step [OF _ run ends m1(1) off _ ml m2(1)]) (use sp assms(2) ok(5) in \<open>simp_all add: read_byte_Suc\<close>)
  then show ?thesis
    using m2(2,3) m1(2) t1 assms(6,8) ok(2)
    by (intro exI [of _ m2] exI [of _ "?cpy + int (extra q) + 4"]) (simp add: after_sequence_def)
qed

declare decode_loop.simps [simp del]

lemma length_run_bytes: "length lits < length (run_bytes lits m)"
  by (simp add: run_bytes_def)

lemma block_bytes_Cons: "block_bytes (q # qs) lits = sequence_bytes q @ block_bytes qs lits"
  by (simp add: block_bytes_def)

lemma length_block_bytes: "length lits < length (block_bytes qs lits)" "length qs < length (block_bytes qs lits)"
proof -
  have "length qs \<le> length (concat (map sequence_bytes qs))"
    by (induction qs) (auto simp: sequence_bytes_def)
  moreover have "length lits < length (run_bytes lits 0)" by (rule length_run_bytes)
  ultimately show "length lits < length (block_bytes qs lits)" "length qs < length (block_bytes qs lits)"
    by (auto simp: block_bytes_def)
qed

text \<open>Behind a sequence at least 5 bytes follow as literals or a sequence with its own: 6 bytes of the block in any case.\<close>

lemma rest_of_block:
  assumes "block_ok n out (q # qs)" and "length (expand out (q # qs)) + length lits = n"
  shows "6 \<le> length (block_bytes qs lits)"
proof (cases "qs = []")
  case True
  then have "5 \<le> length lits" using assms by simp
  then show ?thesis using length_block_bytes(1) [of lits qs] by simp
next
  case False
  have "block_ok n out qs' \<Longrightarrow> qs' \<noteq> [] \<Longrightarrow> length (expand out qs') + length lits = n \<Longrightarrow> 5 \<le> length lits" for qs' out
  proof (induction qs' arbitrary: out)
    case (Cons q qs')
    then show ?case by (cases "qs' = []") auto
  qed simp
  then have "5 \<le> length lits" using assms by blast
  then show ?thesis using length_block_bytes(1) [of lits qs] by simp
qed

lemma decode_block:
  assumes "room_for c n" and "0 \<le> ip" and "drop (nat ip) (input c) = block_bytes qs lits @ rest"
    and "endOnInput c \<longrightarrow> ip + int (length (block_bytes qs lits)) = iend c"
    and "0 \<le> op" and "op \<le> int (length m)" and "oend c \<le> int (length m)"
    and "block_ok n (dictionary c @ take (nat op) m) qs" and "length (expand (dictionary c @ take (nat op) m) qs) + length lits = n"
    and "length qs < fuel"
  shows "\<exists>m'. decode_loop fuel c ip op m
             = Inr (if endOnInput c then int n - dictSize c else ip + int (length (block_bytes qs lits)), m') \<and>
           length m' = length m \<and>
           dictionary c @ take (n - length (dictionary c)) m' = expand (dictionary c @ take (nat op) m) qs @ lits"
  using assms(2-)
proof (induction qs arbitrary: fuel ip op m)
  case Nil
  then obtain f where f: "fuel = Suc f" by (cases fuel) auto
  have "nat op \<le> length m" using Nil.prems by linarith
  then show ?case using decode_last [OF assms(1), of ip lits rest op m f] Nil.prems f by (auto simp: block_bytes_def)
next
  case (Cons q qs)
  then obtain f where f: "fuel = Suc f" by (cases fuel) auto
  note six = rest_of_block [OF Cons.prems(7,8)]
  let ?ip = "ip + int (length (sequence_bytes q))"
  have dr: "drop (nat ip) (input c) = sequence_bytes q @ block_bytes qs lits @ rest" using Cons.prems(2) by (simp add: block_bytes_Cons)
  obtain m1 op1 where m1: "decode_loop fuel c ip op m = decode_loop f c ?ip op1 m1" "0 \<le> op1" "op1 \<le> int (length m1)" "length m1 = length m"
    "dictionary c @ take (nat op1) m1 = after_sequence (dictionary c @ take (nat op) m) q"
    using decode_sequence [OF assms(1) Cons.prems(1) dr, of op m f] Cons.prems six f by (auto simp: block_bytes_Cons)
  have "\<exists>m'. decode_loop f c ?ip op1 m1
      = Inr (if endOnInput c then int n - dictSize c else ?ip + int (length (block_bytes qs lits)), m') \<and> length m' = length m1 \<and>
      dictionary c @ take (n - length (dictionary c)) m' = expand (dictionary c @ take (nat op1) m1) qs @ lits"
    by (rule Cons.IH) (use Cons.prems f m1(2-5) drop_behind [OF _ dr] in \<open>auto simp: block_bytes_Cons\<close>)
  then show ?case using m1(1,4,5) by (auto simp: block_bytes_Cons algebra_simps)
qed

text \<open>The whole call: a block is decoded, by the functions that end with the input and by those that end with the output.\<close>

lemma decompress_block:
  assumes "block_ok n dic qs" and "length (expand dic qs) + length lits = n" and "dct = usingExtDict \<or> dic = []"
    and "if eoi then int n \<le> int (length dic) + outputSize \<and> inputSize = int (length (block_bytes qs lits))
         else int n = int (length dic) + outputSize"
    and "outputSize \<le> int (length dest)"
  shows "\<exists>m'. LZ4_decompress_generic (block_bytes qs lits @ rest) dest inputSize outputSize eoi False target dct dic (int (length dic))
             = Inr (if eoi then int n - int (length dic) else int (length (block_bytes qs lits)), m') \<and>
           length m' = length dest \<and> dic @ take (n - length dic) m' = expand dic qs @ lits"
proof (cases "outputSize = 0")
  case False
  let ?src = "block_bytes qs lits @ rest"
  let ?c = "\<lparr>input = ?src, iend = inputSize, oend = outputSize, endOnInput = eoi, partialDecoding = False, oexit = target,
    dict = dct, dictionary = dic, dictSize = int (length dic)\<rparr>"
  have "room_for ?c n" using assms(3,4) by (auto simp: room_for_def)
  then have "\<exists>m'. decode_loop (Suc (length ?src)) ?c 0 0 dest
      = Inr (if eoi then int n - int (length dic) else 0 + int (length (block_bytes qs lits)), m') \<and> length m' = length dest \<and>
      dic @ take (n - length dic) m' = expand (dic @ take (nat 0) dest) qs @ lits"
    using decode_block [of ?c n 0 qs lits rest 0 dest "Suc (length ?src)"] assms length_block_bytes(2) [of qs lits] by (cases eoi) auto
  then show ?thesis using False by (cases eoi) (simp_all add: LZ4_decompress_generic_def Let_def)
next
  case True
  have "length dic \<le> length (expand dic qs)" by (rule length_expand_le)
  moreover have "length (expand dic qs) + length lits \<le> length dic" using assms(2,4) True by (auto split: if_splits)
  ultimately have n: "lits = []" "length (expand dic qs) = length dic" by (cases lits; simp)+
  have "qs = []"
  proof (cases qs)
    case (Cons q ps)
    then show ?thesis using n length_expand_le [of "after_sequence dic q" ps] by simp
  qed
  moreover have "unat (token_byte 0 0) = 0" by (simp add: token_byte_def)
  ultimately show ?thesis
    using True n assms(2,4)
    by (auto simp: LZ4_decompress_generic_def block_bytes_def run_bytes_def more_length_def read_byte_Suc at_def token_byte_def)
qed

section \<open>The functions of the interface\<close>

text \<open>
  C4: Whatever 2 or more bytes the decoder is given, it terminates without an access outside the
  input, the output buffer and the dictionary, and returns a number of bytes that fit the output
  or, negated, where it found the input to be malformed.  This holds for every function that knows
  the size of its input: \<^verbatim>\<open>LZ4_decompress_safe\<close>, \<^verbatim>\<open>_partial\<close> and \<^verbatim>\<open>_usingDict\<close>.
\<close>

theorem decompress_never_overruns:
  assumes "2 \<le> inputSize" and "inputSize \<le> int (length source)" and "0 \<le> outputSize" and "outputSize \<le> int (length dest)"
    and "dct = usingExtDict \<or> dic = []"
  shows "\<exists>r dest'. LZ4_decompress_generic source dest inputSize outputSize True part target dct dic (int (length dic)) = Inr (r, dest') \<and>
           length dest' = length dest \<and> - inputSize - 1 \<le> r \<and> r \<le> outputSize"
proof (cases "outputSize = 0")
  case False
  let ?oexit = "if part \<and> outputSize - MFLIMIT < target then outputSize - MFLIMIT else target"
  let ?c = "\<lparr>input = source, iend = inputSize, oend = outputSize, endOnInput = True, partialDecoding = part, oexit = ?oexit,
    dict = dct, dictionary = dic, dictSize = int (length dic)\<rparr>"
  have "decoder_ok ?c" using assms by (auto simp: decoder_ok_def)
  then show ?thesis
    using decode_loop_safe [of ?c 0 0 dest "Suc (length source)"] assms False by (simp add: LZ4_decompress_generic_def Let_def)
qed (use assms in \<open>simp add: LZ4_decompress_generic_def\<close>)

theorem decompress_never_overruns_witness:
  "\<exists>r dest'. LZ4_decompress_generic [0x10, 7, 9, 0] [0, 0, 0] 4 3 True False 0 noDict [] (int (length ([] :: bytes))) = Inr (r, dest') \<and>
     length dest' = length [0, 0, 0 :: byte] \<and> - 4 - 1 \<le> r \<and> r \<le> 3"
  by (rule decompress_never_overruns) simp_all

text \<open>
  C34: A single byte whose upper half is 15 announces that the length of the literals goes on in the
  next byte, which is read without a look at the size of the input.
\<close>

theorem one_byte_input_overread:
  assumes "240 \<le> unat b" and "outputSize \<noteq> 0"
  shows "LZ4_decompress_safe [b] dest 1 outputSize = Inl OutOfBounds"
proof -
  have "unat b div 16 = 15" using assms(1) unat_byte_less [of b] by linarith
  moreover have "read_le (Suc 0) [b] 0 = Inr (unat b)" by (simp add: read_byte_Suc at_def)
  moreover have "read_le (Suc 0) [b] 1 = Inl OutOfBounds" by (simp add: read_le_def load_def)
  ultimately show ?thesis
    using assms(2) by (simp add: LZ4_decompress_safe_def LZ4_decompress_generic_def Let_def decode_loop.simps get_runlength_def run_length_loop.simps)
qed

theorem one_byte_input_overread_witness: "LZ4_decompress_safe [0xF0] (replicate 20 0) 1 20 = Inl OutOfBounds"
  by (rule one_byte_input_overread) simp_all

end
