(* ===== verification/Lz4Encode.thy ===== *)
theory Lz4Encode
  imports Lz4
begin

text \<open>
  Compression: \<^verbatim>\<open>LZ4_compress_generic\<close> for a block without a dictionary (\<^verbatim>\<open>noDict\<close>, \<^verbatim>\<open>noDictIssue\<close>), and
  the functions of \<^verbatim>\<open>lz4.h\<close> that call it so.  The branches those parameters rule out, and the
  streaming functions, are left out.  \<^verbatim>\<open>unsigned\<close> counters that stay below the size of the input are
  \<open>nat\<close>; the two casts that can lose something, of the input size and of the output limit, are
  written out.
\<close>

unbundle bit_operations_syntax

section \<open>The compressor\<close>

datatype tableType = byPtr | byU32 | byU16

text \<open>
  The hash table: a function, with the number of entries its memory has room for, so that an
  index beyond it is a fault.  Entries are positions, cut to the width of the table.
\<close>

type_synonym table = "nat \<Rightarrow> nat"

fun table_entries :: "tableType \<Rightarrow> nat" where
  "table_entries byPtr = 2 ^ LZ4_MEMORY_USAGE div 8"
| "table_entries byU32 = 2 ^ LZ4_MEMORY_USAGE div 4"
| "table_entries byU16 = 2 ^ LZ4_MEMORY_USAGE div 2"

definition LZ4_hashSequence :: "nat \<Rightarrow> tableType \<Rightarrow> nat" where
  "LZ4_hashSequence sequence ty =
     u32 (sequence * 2654435761) div 2 ^ (32 - (if ty = byU16 then LZ4_HASHLOG + 1 else LZ4_HASHLOG))"

definition LZ4_hashPosition :: "bytes \<Rightarrow> int \<Rightarrow> tableType \<Rightarrow> nat res" where
  "LZ4_hashPosition src p ty = bindR (read_le 4 src p) (\<lambda>v. Inr (LZ4_hashSequence v ty))"

definition LZ4_putPositionOnHash :: "int \<Rightarrow> nat \<Rightarrow> table \<Rightarrow> tableType \<Rightarrow> table res" where
  "LZ4_putPositionOnHash p h tab ty =
     (if h < table_entries ty
      then Inr (tab(h := (case ty of byPtr \<Rightarrow> nat p | byU32 \<Rightarrow> nat (p mod 2 ^ 32) | byU16 \<Rightarrow> nat (p mod 2 ^ 16))))
      else Inl OutOfBounds)"

definition LZ4_putPosition :: "bytes \<Rightarrow> int \<Rightarrow> table \<Rightarrow> tableType \<Rightarrow> table res" where
  "LZ4_putPosition src p tab ty = bindR (LZ4_hashPosition src p ty) (\<lambda>h. LZ4_putPositionOnHash p h tab ty)"

definition LZ4_getPositionOnHash :: "nat \<Rightarrow> table \<Rightarrow> tableType \<Rightarrow> int res" where
  "LZ4_getPositionOnHash h tab ty = (if h < table_entries ty then Inr (int (tab h)) else Inl OutOfBounds)"

definition LZ4_getPosition :: "bytes \<Rightarrow> int \<Rightarrow> table \<Rightarrow> tableType \<Rightarrow> int res" where
  "LZ4_getPosition src p tab ty = bindR (LZ4_hashPosition src p ty) (\<lambda>h. LZ4_getPositionOnHash h tab ty)"

text \<open>\<^verbatim>\<open>__builtin_ctzll(val) >> 3\<close>: the number of low bytes that are 0.\<close>

definition LZ4_NbCommonBytes :: "nat \<Rightarrow> nat" where
  "LZ4_NbCommonBytes val = length (takeWhile (\<lambda>i. \<not> bit val i) [0..<64]) div 8"

text \<open>\<^verbatim>\<open>LZ4_count\<close>: 8 bytes at a time, and where fewer are left 4, 2 and 1.\<close>

function count_loop :: "bytes \<Rightarrow> int \<Rightarrow> int \<Rightarrow> int \<Rightarrow> (int \<times> int \<times> bool) res" where
  "count_loop src pIn pRef pInLimit =
     (if pIn < pInLimit - (int STEPSIZE - 1) then
        bindR (read_le STEPSIZE src pRef) (\<lambda>r.
        bindR (read_le STEPSIZE src pIn) (\<lambda>v.
          if r XOR v = 0 then count_loop src (pIn + int STEPSIZE) (pRef + int STEPSIZE) pInLimit
          else Inr (pIn + int (LZ4_NbCommonBytes (r XOR v)), pRef, True)))
      else Inr (pIn, pRef, False))"
  by pat_completeness auto
termination by (relation "measure (\<lambda>(src, pIn, pRef, pInLimit). nat (pInLimit - pIn))") auto

declare count_loop.simps [simp del]

definition count_tail :: "nat \<Rightarrow> bytes \<Rightarrow> int \<Rightarrow> int \<times> int \<Rightarrow> (int \<times> int) res" where
  "count_tail n src pInLimit p =
     (if fst p < pInLimit - (int n - 1) then
        bindR (read_le n src (snd p)) (\<lambda>r.
        bindR (read_le n src (fst p)) (\<lambda>v. Inr (if r = v then (fst p + int n, snd p + int n) else p)))
      else Inr p)"

definition LZ4_count :: "bytes \<Rightarrow> int \<Rightarrow> int \<Rightarrow> int \<Rightarrow> nat res" where
  "LZ4_count src pStart pRef pInLimit =
     bindR (count_loop src pStart pRef pInLimit) (\<lambda>(pIn, pRef, found).
       if found then Inr (nat (pIn - pStart))
       else bindR (count_tail 4 src pInLimit (pIn, pRef)) (\<lambda>p1.
            bindR (count_tail 2 src pInLimit p1) (\<lambda>p2.
            bindR (count_tail 1 src pInLimit p2) (\<lambda>p3. Inr (nat (fst p3 - pStart))))))"

text \<open>
  The search for a match.  It gives up where it would look behind \<^verbatim>\<open>mflimit\<close>; otherwise it returns
  the position, the reference, and the table.
\<close>

fun find_match :: "nat \<Rightarrow> bytes \<Rightarrow> tableType \<Rightarrow> int \<Rightarrow> int \<Rightarrow> nat \<Rightarrow> nat \<Rightarrow> nat \<Rightarrow> table \<Rightarrow> (int \<times> int \<times> table) option res" where
  "find_match 0 src ty mflimit forwardIp step searchMatchNb forwardH tab = Inl OutOfFuel"
| "find_match (Suc fuel) src ty mflimit forwardIp step searchMatchNb forwardH tab =
     (let ip = forwardIp; forwardIp1 = forwardIp + int step in
      if forwardIp1 > mflimit then Inr None
      else
        bindR (LZ4_getPositionOnHash forwardH tab ty) (\<lambda>ref.
        bindR (LZ4_hashPosition src forwardIp1 ty) (\<lambda>forwardH1.
        bindR (LZ4_putPositionOnHash ip forwardH tab ty) (\<lambda>tab1.
        bindR (if ty \<noteq> byU16 \<and> ref + MAX_DISTANCE < ip then Inr True
               else bindR (read_le 4 src ref) (\<lambda>r. bindR (read_le 4 src ip) (\<lambda>v. Inr (r \<noteq> v)))) (\<lambda>again.
          if again then find_match fuel src ty mflimit forwardIp1 (searchMatchNb div 2 ^ SKIPSTRENGTH) (Suc searchMatchNb) forwardH1 tab1
          else Inr (Some (ip, ref, tab1)))))))"

text \<open>Catching up: the match is extended backwards while the bytes before it agree.\<close>

function catch_up :: "bytes \<Rightarrow> int \<Rightarrow> int \<Rightarrow> int \<Rightarrow> (int \<times> int) res" where
  "catch_up src anchor ip ref =
     (if ip > anchor \<and> ref > 0 then
        bindR (read_le 1 src (ip - 1)) (\<lambda>v.
        bindR (read_le 1 src (ref - 1)) (\<lambda>r.
          if v = r then catch_up src anchor (ip - 1) (ref - 1) else Inr (ip, ref)))
      else Inr (ip, ref))"
  by pat_completeness auto
termination by (relation "measure (\<lambda>(src, anchor, ip, ref). nat (ip - anchor))") auto

declare catch_up.simps [simp del]

text \<open>The bytes that continue a length, one by one behind the literals' token and in pairs behind the match's.\<close>

function put_length :: "bytes \<Rightarrow> int \<Rightarrow> nat \<Rightarrow> (bytes \<times> int) res" where
  "put_length dst op len =
     (if len \<ge> 255 then bindR (put_byte dst op 255) (\<lambda>dst1. put_length dst1 (op + 1) (len - 255))
      else bindR (put_byte dst op len) (\<lambda>dst1. Inr (dst1, op + 1)))"
  by pat_completeness auto
termination by (relation "measure (\<lambda>(dst, op, len). len)") auto

function put_match_length :: "bytes \<Rightarrow> int \<Rightarrow> nat \<Rightarrow> (bytes \<times> int) res" where
  "put_match_length dst op len =
     (if len \<ge> 510 then
        bindR (put_byte dst op 255) (\<lambda>dst1. bindR (put_byte dst1 (op + 1) 255) (\<lambda>dst2.
          put_match_length dst2 (op + 2) (len - 510)))
      else if len \<ge> 255 then
        bindR (put_byte dst op 255) (\<lambda>dst1. bindR (put_byte dst1 (op + 1) (len - 255)) (\<lambda>dst2. Inr (dst2, op + 2)))
      else bindR (put_byte dst op len) (\<lambda>dst1. Inr (dst1, op + 1)))"
  by pat_completeness auto
termination by (relation "measure (\<lambda>(dst, op, len). len)") auto

declare put_length.simps [simp del] put_match_length.simps [simp del]

text \<open>The literals before a match: token, length and bytes; nothing where the output is limited and too short.\<close>

definition encode_literals :: "bytes \<Rightarrow> int \<Rightarrow> int \<Rightarrow> bool \<Rightarrow> int \<Rightarrow> bytes \<Rightarrow> int \<Rightarrow> (bytes \<times> int \<times> int) option res" where
  "encode_literals src anchor ip outputLimited olimit dst token =
     (let litLength = nat (ip - anchor); op = token + 1 in
      if outputLimited \<and> op + int litLength + (2 + 1 + LASTLITERALS) + int (litLength div 255) > olimit then Inr None
      else
        bindR (if litLength \<ge> RUN_MASK
               then bindR (put_byte dst token (RUN_MASK * 16)) (\<lambda>dst1. put_length dst1 op (litLength - RUN_MASK))
               else bindR (put_byte dst token (litLength * 16)) (\<lambda>dst1. Inr (dst1, op))) (\<lambda>(dst2, op2).
        bindR (LZ4_WILDCOPY dst2 op2 src anchor (op2 + int litLength)) (\<lambda>(dst3, d, s).
          Inr (Some (dst3, token, op2 + int litLength)))))"

text \<open>From \<^verbatim>\<open>_next_match\<close> on: offset and match length, added to the token; the position behind the match.\<close>

definition encode_match :: "bytes \<Rightarrow> int \<Rightarrow> int \<Rightarrow> int \<Rightarrow> bool \<Rightarrow> int \<Rightarrow> bytes \<Rightarrow> int \<Rightarrow> int \<Rightarrow> (bytes \<times> (int \<times> int) option) res" where
  "encode_match src matchlimit ip ref outputLimited olimit dst token op =
     bindR (store dst (Ptr op) (le_enc 2 (nat ((ip - ref) mod 2 ^ 16)))) (\<lambda>dst1.
     let op1 = op + 2 in
     bindR (LZ4_count src (ip + MINMATCH) (ref + MINMATCH) matchlimit) (\<lambda>matchLength.
     let ip1 = ip + MINMATCH + int matchLength in
     bindR (read_le 1 dst1 token) (\<lambda>t.
     if matchLength \<ge> ML_MASK then
       if outputLimited \<and> op1 + (1 + LASTLITERALS) + int (matchLength div 2 ^ 8) > olimit then Inr (dst1, None)
       else bindR (put_byte dst1 token (t + ML_MASK)) (\<lambda>dst2.
            bindR (put_match_length dst2 op1 (matchLength - ML_MASK)) (\<lambda>(dst3, op2). Inr (dst3, Some (op2, ip1))))
     else bindR (put_byte dst1 token (t + matchLength)) (\<lambda>dst2. Inr (dst2, Some (op1, ip1))))))"

definition last_literals :: "bytes \<Rightarrow> int \<Rightarrow> int \<Rightarrow> bool \<Rightarrow> int \<Rightarrow> bytes \<Rightarrow> int \<Rightarrow> (int \<times> bytes) res" where
  "last_literals src iend anchor outputLimited maxOutputSize dst op =
     (let lastRun = nat (iend - anchor) in
      if outputLimited \<and> op + int lastRun + 1 + int ((lastRun + 255 - RUN_MASK) div 255) > maxOutputSize mod 2 ^ 32 then Inr (0, dst)
      else
        bindR (if lastRun \<ge> RUN_MASK
               then bindR (put_byte dst op (RUN_MASK * 16)) (\<lambda>dst1. put_length dst1 (op + 1) (lastRun - RUN_MASK))
               else bindR (put_byte dst op (lastRun * 16)) (\<lambda>dst1. Inr (dst1, op + 1))) (\<lambda>(dst2, op2).
        bindR (copy_between dst2 (Ptr op2) src (Ptr anchor) lastRun) (\<lambda>dst3. Inr (op2 + int lastRun, dst3))))"

text \<open>
  The program points of the main loop: its head, \<^verbatim>\<open>_next_match\<close>, and the end with the value to
  return, which is 0 for output that did not fit.
\<close>

datatype point =
    Head int int nat table bytes int
  | NextMatch int int table bytes int int
  | Return int bytes

definition from_head :: "bytes \<Rightarrow> tableType \<Rightarrow> int \<Rightarrow> bool \<Rightarrow> int \<Rightarrow> int \<Rightarrow> int \<Rightarrow> nat \<Rightarrow> table \<Rightarrow> bytes \<Rightarrow> int \<Rightarrow> point res" where
  "from_head src ty iend outputLimited olimit anchor ip forwardH tab dst op =
     bindR (find_match (Suc (length src)) src ty (iend - MFLIMIT) ip 1 (2 ^ SKIPSTRENGTH) forwardH tab) (\<lambda>found.
     case found of
       None \<Rightarrow> bindR (last_literals src iend anchor outputLimited olimit dst op) (\<lambda>(r, dst1). Inr (Return r dst1))
     | Some (ip1, ref1, tab1) \<Rightarrow>
         bindR (catch_up src anchor ip1 ref1) (\<lambda>(ip2, ref2).
         bindR (encode_literals src anchor ip2 outputLimited olimit dst op) (\<lambda>r.
         case r of
           None \<Rightarrow> Inr (Return 0 dst)
         | Some (dst1, token, op1) \<Rightarrow> Inr (NextMatch ip2 ref2 tab1 dst1 token op1))))"

text \<open>Behind a match: the end of the block, another match right there, or on with the search.\<close>

definition next_position :: "bytes \<Rightarrow> tableType \<Rightarrow> int \<Rightarrow> bool \<Rightarrow> int \<Rightarrow> int \<Rightarrow> table \<Rightarrow> bytes \<Rightarrow> int \<Rightarrow> point res" where
  "next_position src ty iend outputLimited olimit ip tab dst op =
     (if ip > iend - MFLIMIT then
        bindR (last_literals src iend ip outputLimited olimit dst op) (\<lambda>(r, dst1). Inr (Return r dst1))
      else
        bindR (LZ4_putPosition src (ip - 2) tab ty) (\<lambda>tab1.
        bindR (LZ4_getPosition src ip tab1 ty) (\<lambda>ref.
        bindR (LZ4_putPosition src ip tab1 ty) (\<lambda>tab2.
        bindR (if ref + MAX_DISTANCE \<ge> ip
               then bindR (read_le 4 src ref) (\<lambda>r. bindR (read_le 4 src ip) (\<lambda>v. Inr (r = v)))
               else Inr False) (\<lambda>match.
          if match then bindR (put_byte dst op 0) (\<lambda>dst1. Inr (NextMatch ip ref tab2 dst1 op (op + 1)))
          else bindR (LZ4_hashPosition src (ip + 1) ty) (\<lambda>forwardH. Inr (Head ip (ip + 1) forwardH tab2 dst op)))))))"

definition from_match :: "bytes \<Rightarrow> tableType \<Rightarrow> int \<Rightarrow> bool \<Rightarrow> int \<Rightarrow> int \<Rightarrow> int \<Rightarrow> table \<Rightarrow> bytes \<Rightarrow> int \<Rightarrow> int \<Rightarrow> point res" where
  "from_match src ty iend outputLimited olimit ip ref tab dst token op =
     bindR (encode_match src (iend - LASTLITERALS) ip ref outputLimited olimit dst token op) (\<lambda>(dst1, r).
     case r of
       None \<Rightarrow> Inr (Return 0 dst1)
     | Some (op1, ip1) \<Rightarrow> next_position src ty iend outputLimited olimit ip1 tab dst1 op1)"

text \<open>Every match moves \<^verbatim>\<open>anchor\<close> forward, so the length of the input bounds the number of rounds.\<close>

fun main_loop :: "nat \<Rightarrow> bytes \<Rightarrow> tableType \<Rightarrow> int \<Rightarrow> bool \<Rightarrow> int \<Rightarrow> point \<Rightarrow> (int \<times> bytes) res" where
  "main_loop fuel src ty iend outputLimited olimit (Return r dst) = Inr (r, dst)"
| "main_loop 0 src ty iend outputLimited olimit p = Inl OutOfFuel"
| "main_loop (Suc fuel) src ty iend outputLimited olimit (Head anchor ip forwardH tab dst op) =
     bindR (from_head src ty iend outputLimited olimit anchor ip forwardH tab dst op) (main_loop fuel src ty iend outputLimited olimit)"
| "main_loop (Suc fuel) src ty iend outputLimited olimit (NextMatch ip ref tab dst token op) =
     bindR (from_match src ty iend outputLimited olimit ip ref tab dst token op) (main_loop fuel src ty iend outputLimited olimit)"

definition LZ4_compress_generic :: "bytes \<Rightarrow> bytes \<Rightarrow> int \<Rightarrow> int \<Rightarrow> bool \<Rightarrow> tableType \<Rightarrow> (int \<times> bytes) res" where
  "LZ4_compress_generic src dst inputSize maxOutputSize outputLimited ty =
     (if inputSize mod 2 ^ 32 > int LZ4_MAX_INPUT_SIZE then Inr (0, dst)
      else if ty = byU16 \<and> inputSize \<ge> LZ4_64KLIMIT then Inr (0, dst)
      else if inputSize < LZ4_minLength then last_literals src inputSize 0 outputLimited maxOutputSize dst 0
      else
        bindR (LZ4_putPosition src 0 (\<lambda>_. 0) ty) (\<lambda>tab.
        bindR (LZ4_hashPosition src 1 ty) (\<lambda>forwardH.
          main_loop (2 * length src) src ty inputSize outputLimited maxOutputSize (Head 0 1 forwardH tab dst 0))))"

definition LZ4_compress :: "bytes \<Rightarrow> bytes \<Rightarrow> int \<Rightarrow> (int \<times> bytes) res" where
  "LZ4_compress src dst inputSize =
     (if inputSize < LZ4_64KLIMIT then LZ4_compress_generic src dst inputSize 0 False byU16
      else LZ4_compress_generic src dst inputSize 0 False byU32)"

definition LZ4_compress_limitedOutput :: "bytes \<Rightarrow> bytes \<Rightarrow> int \<Rightarrow> int \<Rightarrow> (int \<times> bytes) res" where
  "LZ4_compress_limitedOutput src dst inputSize maxOutputSize =
     (if inputSize < LZ4_64KLIMIT then LZ4_compress_generic src dst inputSize maxOutputSize True byU16
      else LZ4_compress_generic src dst inputSize maxOutputSize True byU32)"

text \<open>The functions that are given the address of the table's memory, which they clear first.\<close>

definition LZ4_compress_withState :: "nat \<Rightarrow> bytes \<Rightarrow> bytes \<Rightarrow> int \<Rightarrow> (int \<times> bytes) res" where
  "LZ4_compress_withState state src dst inputSize =
     (if state AND 3 \<noteq> 0 then Inr (0, dst)
      else if inputSize < LZ4_64KLIMIT then LZ4_compress_generic src dst inputSize 0 False byU16
      else LZ4_compress_generic src dst inputSize 0 False byU32)"

definition LZ4_compress_limitedOutput_withState :: "nat \<Rightarrow> bytes \<Rightarrow> bytes \<Rightarrow> int \<Rightarrow> int \<Rightarrow> (int \<times> bytes) res" where
  "LZ4_compress_limitedOutput_withState state src dst inputSize maxOutputSize =
     (if state AND 3 \<noteq> 0 then Inr (0, dst)
      else if inputSize < LZ4_64KLIMIT then LZ4_compress_generic src dst inputSize maxOutputSize True byU16
      else LZ4_compress_generic src dst inputSize maxOutputSize True byU32)"

lemma compress_withState_aligned:
  assumes "4 dvd state"
  shows "LZ4_compress_withState state src dst n = LZ4_compress src dst n"
    and "LZ4_compress_limitedOutput_withState state src dst n m = LZ4_compress_limitedOutput src dst n m"
proof -
  have "take_bit 2 state = 0" using assms by (simp add: take_bit_eq_mod)
  then have "state AND 3 = 0" by (simp add: take_bit_eq_mask mask_eq_exp_minus_1)
  then show "LZ4_compress_withState state src dst n = LZ4_compress src dst n"
    and "LZ4_compress_limitedOutput_withState state src dst n m = LZ4_compress_limitedOutput src dst n m"
    by (simp_all add: LZ4_compress_withState_def LZ4_compress_limitedOutput_withState_def LZ4_compress_def
        LZ4_compress_limitedOutput_def)
qed

section \<open>How far two places agree\<close>

lemma bit_le_dec: "bit (le_dec bs) i \<longleftrightarrow> i < 8 * length bs \<and> bit (bs ! (i div 8)) (i mod 8)"
proof (induction bs arbitrary: i)
  case (Cons b bs)
  have b: "unat b < 256" by (rule unat_byte_less)
  show ?case
  proof (cases "i < 8")
    case True
    have "(unat b + 256 * le_dec bs) div 2 ^ i = unat b div 2 ^ i + 2 ^ (8 - i) * le_dec bs"
    proof -
      have "256 = (2 :: nat) ^ i * 2 ^ (8 - i)" using True by (simp flip: power_add)
      then have "unat b + 256 * le_dec bs = unat b + 2 ^ i * (2 ^ (8 - i) * le_dec bs)" by (simp only: mult.assoc)
      moreover have "(unat b + 2 ^ i * (2 ^ (8 - i) * le_dec bs)) div 2 ^ i = 2 ^ (8 - i) * le_dec bs + unat b div 2 ^ i"
        by (rule div_mult_self2) simp
      ultimately show ?thesis by (simp only: add.commute)
    qed
    moreover have "even ((2 :: nat) ^ (8 - i) * le_dec bs)" using True by simp
    ultimately have "bit (unat b + 256 * le_dec bs) i \<longleftrightarrow> bit (unat b) i" by (simp add: bit_iff_odd)
    then show ?thesis using True by (simp add: bit_unsigned_iff)
  next
    case False
    then obtain j where j: "i = j + 8" by (metis add.commute le_Suc_ex not_less)
    have "(unat b + 256 * le_dec bs) div 2 ^ i = le_dec bs div 2 ^ j"
      using b by (simp add: j power_add div_mult2_eq mult.commute [of "2 ^ j"])
    then have "bit (unat b + 256 * le_dec bs) i \<longleftrightarrow> bit (le_dec bs) j" by (simp add: bit_iff_odd)
    moreover have "i div 8 = Suc (j div 8)" "i mod 8 = j mod 8" using j by simp_all
    ultimately show ?thesis using Cons.IH [of j] j by simp
  qed
qed (simp add: bit_iff_odd)

lemma xor_eq_0: "a XOR b = 0 \<longleftrightarrow> a = (b :: nat)"
  by (auto simp: bit_eq_iff bit_xor_iff)

lemma length_takeWhile_upt:
  assumes "P k" and "k < n"
  shows "\<not> (\<exists>i < length (takeWhile (\<lambda>i. \<not> P i) [0..<n]). P i)" and "P (length (takeWhile (\<lambda>i. \<not> P i) [0..<n]))"
    and "length (takeWhile (\<lambda>i. \<not> P i) [0..<n]) \<le> k"
proof -
  let ?l = "length (takeWhile (\<lambda>i. \<not> P i) [0..<n])"
  have below: "\<not> P i" if "i < ?l" for i
  proof -
    have "takeWhile (\<lambda>i. \<not> P i) [0..<n] ! i = [0..<n] ! i" using that by (rule takeWhile_nth)
    moreover have "?l \<le> n" using length_takeWhile_le [of "\<lambda>i. \<not> P i" "[0..<n]"] by simp
    ultimately have "i \<in> set (takeWhile (\<lambda>i. \<not> P i) [0..<n])" using nth_mem [OF that] that by simp
    then show ?thesis by (rule set_takeWhileD [THEN conjunct2])
  qed
  then show "\<not> (\<exists>i < ?l. P i)" by blast
  show le: "?l \<le> k" using below assms(1) by (meson not_less)
  then show "P ?l" using nth_length_takeWhile [of "\<lambda>i. \<not> P i" "[0..<n]"] assms(2) by simp
qed

text \<open>\<^verbatim>\<open>LZ4_NbCommonBytes\<close> of the difference of two 8-byte numbers is the position of the first byte that differs.\<close>

lemma NbCommonBytes_differ:
  assumes "length xs = 8" and "length ys = 8" and "le_dec xs XOR le_dec ys \<noteq> 0"
  defines "k \<equiv> LZ4_NbCommonBytes (le_dec xs XOR le_dec ys)"
  shows "k < 8" and "xs ! k \<noteq> ys ! k" and "\<And>j. j < k \<Longrightarrow> xs ! j = ys ! j"
proof -
  let ?P = "bit (le_dec xs XOR le_dec ys)" and ?l = "length (takeWhile (\<lambda>i. \<not> bit (le_dec xs XOR le_dec ys) i) [0..<64])"
  have P: "?P i \<longleftrightarrow> i < 64 \<and> (bit (xs ! (i div 8)) (i mod 8) \<noteq> bit (ys ! (i div 8)) (i mod 8))" for i
    using assms(1,2) by (auto simp: bit_xor_iff bit_le_dec)
  obtain i where i: "?P i" using assms(3) by (metis bit_eq_iff bit_0_eq bot_apply bot_bool_def)
  have k: "k = ?l div 8" by (simp add: k_def LZ4_NbCommonBytes_def)
  note l = length_takeWhile_upt [of ?P i 64, OF i]
  have "i < 64" using i P by blast
  then show "k < 8" using l(3) k by simp
  show "xs ! k \<noteq> ys ! k" using l(2) [OF \<open>i < 64\<close>] unfolding P k by auto
  fix j assume j: "j < k"
  show "xs ! j = ys ! j"
  proof (rule bit_word_eqI)
    fix t :: nat assume t: "t < LENGTH(8)"
    then have "8 * j + t < ?l" "8 * j + t < 64" using j k \<open>k < 8\<close> by auto
    then have "\<not> ?P (8 * j + t)" using l(1) [OF \<open>i < 64\<close>] by blast
    moreover have "(8 * j + t) div 8 = j" "(8 * j + t) mod 8 = t" using t by auto
    ultimately show "bit (xs ! j) t = bit (ys ! j) t" using \<open>8 * j + t < 64\<close> unfolding P by simp
  qed
qed

text \<open>How many bytes from \<open>p\<close> and \<open>r\<close> on agree, up to \<open>lim\<close>.\<close>

definition common :: "bytes \<Rightarrow> int \<Rightarrow> int \<Rightarrow> int \<Rightarrow> int \<Rightarrow> bool" where
  "common src p r lim k \<longleftrightarrow> 0 \<le> k \<and> p + k \<le> lim \<and> (\<forall>i. 0 \<le> i \<and> i < k \<longrightarrow> at src (p + i) = at src (r + i))"

text \<open>Fewer than \<open>n\<close> bytes are left, or one of them differs.\<close>

definition short :: "bytes \<Rightarrow> int \<Rightarrow> int \<Rightarrow> int \<Rightarrow> nat \<Rightarrow> bool" where
  "short src p r lim n \<longleftrightarrow> lim < p + int n \<or> (\<exists>i. 0 \<le> i \<and> i < int n \<and> at src (p + i) \<noteq> at src (r + i))"

lemma common_0: "common src p r lim 0 \<longleftrightarrow> p \<le> lim"
  by (auto simp: common_def)

lemma common_add: "common src p r lim j \<Longrightarrow> common src (p + j) (r + j) lim k \<Longrightarrow> common src p r lim (j + k)"
  unfolding common_def
proof (intro conjI allI impI)
  fix i
  assume a: "0 \<le> j \<and> p + j \<le> lim \<and> (\<forall>i. 0 \<le> i \<and> i < j \<longrightarrow> at src (p + i) = at src (r + i))"
    "0 \<le> k \<and> p + j + k \<le> lim \<and> (\<forall>i. 0 \<le> i \<and> i < k \<longrightarrow> at src (p + j + i) = at src (r + j + i))" "0 \<le> i \<and> i < j + k"
  show "at src (p + i) = at src (r + i)"
  proof (cases "i < j")
    case False
    have "\<forall>i. 0 \<le> i \<and> i < k \<longrightarrow> at src (p + j + i) = at src (r + j + i)" using a(2) by blast
    from spec [OF this, of "i - j"] show ?thesis using False a(3) by simp
  qed (use a in auto)
qed auto

lemma nth_take_drop_at: "0 \<le> p \<Longrightarrow> p + int n \<le> int (length src) \<Longrightarrow> j < n \<Longrightarrow> take n (drop (nat p) src) ! j = at src (p + int j)"
  by (simp add: at_def nat_add_distrib)

lemma le_dec_inject: "length xs = length ys \<Longrightarrow> le_dec xs = le_dec ys \<longleftrightarrow> xs = ys"
  by (metis le_enc_dec)

lemma length_take_drop: "0 \<le> p \<Longrightarrow> p + int n \<le> int (length src) \<Longrightarrow> length (take n (drop (nat p) src)) = n"
  by simp

lemma read_equal:
  assumes "0 \<le> p" and "p + int n \<le> int (length src)" and "0 \<le> r" and "r + int n \<le> int (length src)"
  shows "le_dec (take n (drop (nat r) src)) = le_dec (take n (drop (nat p) src)) \<longleftrightarrow>
    (\<forall>i. 0 \<le> i \<and> i < int n \<longrightarrow> at src (p + i) = at src (r + i))"
proof -
  have "take n (drop (nat r) src) = take n (drop (nat p) src) \<longleftrightarrow> (\<forall>j < n. at src (r + int j) = at src (p + int j))"
    using nth_take_drop_at [OF assms(1,2)] nth_take_drop_at [OF assms(3,4)] length_take_drop [OF assms(1,2)] length_take_drop [OF assms(3,4)]
    by (auto simp: list_eq_iff_nth_eq)
  moreover have "(\<forall>j < n. at src (r + int j) = at src (p + int j)) \<longleftrightarrow> (\<forall>i. 0 \<le> i \<and> i < int n \<longrightarrow> at src (p + i) = at src (r + i))"
    by (metis nonneg_int_cases of_nat_0_le_iff of_nat_less_iff)
  ultimately show ?thesis using length_take_drop [OF assms(1,2)] length_take_drop [OF assms(3,4)] by (simp add: le_dec_inject)
qed

lemma count_loop_ok:
  assumes "0 \<le> r" and "r \<le> p" and "p \<le> lim" and "lim \<le> int (length src)"
  shows "\<exists>k r' found. count_loop src p r lim = Inr (p + k, r', found) \<and> common src p r lim k \<and>
           (if found then p + k < lim \<and> at src (p + k) \<noteq> at src (r + k) else r' = r + k \<and> short src (p + k) (r + k) lim 8)"
  using assms
proof (induction src p r lim rule: count_loop.induct)
  case (1 src p r lim)
  show ?case
  proof (cases "p < lim - (int STEPSIZE - 1)")
    case False
    then have "count_loop src p r lim = Inr (p + 0, r, False)" "common src p r lim 0" "short src (p + 0) (r + 0) lim 8"
      using 1(4) by (simp_all add: count_loop.simps common_0 short_def)
    then show ?thesis by force
  next
    case True
    let ?x = "take 8 (drop (nat r) src)" and ?y = "take 8 (drop (nat p) src)"
    have b: "p + int 8 \<le> int (length src)" "r + int 8 \<le> int (length src)" "0 \<le> p" "p + 8 \<le> lim" using True 1(2-5) by auto
    have rd: "read_le STEPSIZE src r = Inr (le_dec ?x)" "read_le STEPSIZE src p = Inr (le_dec ?y)"
      using read_le_ok [of r 8 src] read_le_ok [of p 8 src] b 1(2) by simp_all
    note len = length_take_drop [OF b(3,1)] length_take_drop [OF 1(2) b(2)]
    show ?thesis
    proof (cases "le_dec ?x XOR le_dec ?y = 0")
      case eq: True
      then have "le_dec ?x = le_dec ?y" by (simp add: xor_eq_0)
      then have c8: "common src p r lim 8" using read_equal [OF b(3,1) 1(2) b(2)] b(4) by (simp add: common_def)
      have "\<exists>k r' found. count_loop src (p + int STEPSIZE) (r + int STEPSIZE) lim = Inr (p + int STEPSIZE + k, r', found) \<and>
          common src (p + int STEPSIZE) (r + int STEPSIZE) lim k \<and>
          (if found then p + int STEPSIZE + k < lim \<and> at src (p + int STEPSIZE + k) \<noteq> at src (r + int STEPSIZE + k)
           else r' = r + int STEPSIZE + k \<and> short src (p + int STEPSIZE + k) (r + int STEPSIZE + k) lim 8)"
        by (rule 1(1) [OF True rd eq]) (use 1(2-5) b(4) in auto)
      moreover have "int STEPSIZE = 8" by simp
      ultimately obtain k r' found where k: "count_loop src (p + 8) (r + 8) lim = Inr (p + 8 + k, r', found)" "common src (p + 8) (r + 8) lim k"
        "if found then p + 8 + k < lim \<and> at src (p + 8 + k) \<noteq> at src (r + 8 + k) else r' = r + 8 + k \<and> short src (p + 8 + k) (r + 8 + k) lim 8"
        by metis
      have "count_loop src p r lim = Inr (p + (8 + k), r', found)"
        using rd eq True k(1) by (subst count_loop.simps) (simp add: algebra_simps)
      then show ?thesis using common_add [OF c8 k(2)] k(3) [unfolded add.assoc] by blast
    next
      case neq: False
      let ?k = "LZ4_NbCommonBytes (le_dec ?x XOR le_dec ?y)"
      note d = NbCommonBytes_differ [OF len(2,1) neq]
      have eq: "at src (p + i) = at src (r + i)" if "0 \<le> i" "i < int ?k" for i
        using d(1) d(3) [of "nat i"] that nth_take_drop_at [OF b(3,1), of "nat i"] nth_take_drop_at [OF 1(2) b(2), of "nat i"] by simp
      have "at src (p + int ?k) \<noteq> at src (r + int ?k)"
        using d(1,2) nth_take_drop_at [OF b(3,1) d(1)] nth_take_drop_at [OF 1(2) b(2) d(1)] by simp
      moreover have "count_loop src p r lim = Inr (p + int ?k, r, True)" using rd neq True by (subst count_loop.simps) simp
      ultimately show ?thesis using eq d(1) b(4)
        by (intro exI [of _ "int ?k"] exI [of _ r] exI [of _ True]) (simp add: common_def)
    qed
  qed
qed

text \<open>The tail: 4, 2 and 1 bytes are enough, because fewer than 8 are left.\<close>

lemma count_tail_ok:
  assumes "0 \<le> r" and "r \<le> p" and "p \<le> lim" and "lim \<le> int (length src)" and "short src p r lim (2 * n)"
  shows "\<exists>k. count_tail n src lim (p, r) = Inr (p + k, r + k) \<and> common src p r lim k \<and> short src (p + k) (r + k) lim n"
proof (cases "p < lim - (int n - 1)")
  case True
  have b: "0 \<le> p" "p + int n \<le> int (length src)" "r + int n \<le> int (length src)" using True assms by auto
  note eq = read_equal [OF b(1,2) assms(1) b(3)]
  have rd: "read_le n src r = Inr (le_dec (take n (drop (nat r) src)))" "read_le n src p = Inr (le_dec (take n (drop (nat p) src)))"
    using read_le_ok [of r n src] read_le_ok [of p n src] b assms(1) by simp_all
  show ?thesis
  proof (cases "\<forall>i. 0 \<le> i \<and> i < int n \<longrightarrow> at src (p + i) = at src (r + i)")
    case same: True
    have "short src (p + int n) (r + int n) lim n"
    proof (cases "lim < p + int (2 * n)")
      case False
      then obtain i where i: "0 \<le> i" "i < int (2 * n)" "at src (p + i) \<noteq> at src (r + i)" using assms(5) by (auto simp: short_def)
      then have "int n \<le> i" using same by (meson not_less)
      then have "0 \<le> i - int n \<and> i - int n < int n \<and> at src (p + int n + (i - int n)) \<noteq> at src (r + int n + (i - int n))" using i by simp
      then show ?thesis unfolding short_def by blast
    qed (simp add: short_def)
    moreover have "common src p r lim (int n)" using same True by (auto simp: common_def)
    ultimately show ?thesis using True rd same eq by (intro exI [of _ "int n"]) (simp add: count_tail_def)
  next
    case False
    then have "short src p r lim n" by (auto simp: short_def)
    moreover have "count_tail n src lim (p, r) = Inr (p, r)" using True rd eq False by (simp only: count_tail_def fst_conv snd_conv) simp
    ultimately show ?thesis using assms(3) by (intro exI [of _ 0]) (simp add: common_0)
  qed
next
  case False
  then show ?thesis using assms(3) by (intro exI [of _ 0]) (simp add: count_tail_def common_0 short_def)
qed

lemma LZ4_count_ok:
  assumes "0 \<le> r" and "r \<le> p" and "p \<le> lim" and "lim \<le> int (length src)"
  obtains k where "LZ4_count src p r lim = Inr k" and "common src p r lim (int k)"
    and "p + int k < lim \<Longrightarrow> at src (p + int k) \<noteq> at src (r + int k)"
proof -
  obtain k r' found where k: "count_loop src p r lim = Inr (p + k, r', found)" "common src p r lim k"
    "if found then p + k < lim \<and> at src (p + k) \<noteq> at src (r + k) else r' = r + k \<and> short src (p + k) (r + k) lim 8"
    using count_loop_ok [OF assms] by blast
  have k0: "0 \<le> k" "p + k \<le> lim" using k(2) by (auto simp: common_def)
  show thesis
  proof (cases found)
    case True
    then show thesis using that [of "nat k"] k k0(1) by (simp add: LZ4_count_def)
  next
    case False
    then have r': "r' = r + k" "short src (p + k) (r + k) lim (2 * 4)" using k(3) by simp_all
    obtain a where a: "count_tail 4 src lim (p + k, r + k) = Inr (p + k + a, r + k + a)" "common src (p + k) (r + k) lim a"
      "short src (p + k + a) (r + k + a) lim (2 * 2)"
      using count_tail_ok [OF _ _ k0(2) assms(4) r'(2)] assms(1,2) k0(1) by auto
    have a0: "0 \<le> a" "p + k + a \<le> lim" using a(2) by (auto simp: common_def)
    obtain b where b: "count_tail 2 src lim (p + k + a, r + k + a) = Inr (p + k + a + b, r + k + a + b)"
      "common src (p + k + a) (r + k + a) lim b" "short src (p + k + a + b) (r + k + a + b) lim (2 * 1)"
      using count_tail_ok [OF _ _ a0(2) assms(4) a(3)] assms(1,2) k0(1) a0(1) by auto
    have b0: "0 \<le> b" "p + k + a + b \<le> lim" using b(2) by (auto simp: common_def)
    obtain d where d: "count_tail 1 src lim (p + k + a + b, r + k + a + b) = Inr (p + k + a + b + d, r + k + a + b + d)"
      "common src (p + k + a + b) (r + k + a + b) lim d" "short src (p + k + a + b + d) (r + k + a + b + d) lim 1"
      using count_tail_ok [OF _ _ b0(2) assms(4) b(3)] assms(1,2) k0(1) a0(1) b0(1) by auto
    have d0: "0 \<le> d" using d(2) by (simp add: common_def)
    let ?k = "k + a + b + d"
    have "common src p r lim ?k"
      using common_add [OF common_add [OF common_add [OF k(2) a(2)]], of b d] b(2) d(2) by (simp add: add.assoc)
    moreover have "LZ4_count src p r lim = Inr (nat ?k)"
      using k(1) False r'(1) a(1) b(1) d(1) by (simp add: LZ4_count_def algebra_simps)
    moreover have "at src (p + ?k) \<noteq> at src (r + ?k)" if "p + ?k < lim"
    proof -
      from d(3) that obtain i where "0 \<le> i" "i < 1" "at src (p + k + a + b + d + i) \<noteq> at src (r + k + a + b + d + i)"
        by (auto simp: short_def)
      moreover have "i = 0" using \<open>0 \<le> i\<close> \<open>i < 1\<close> by simp
      ultimately show ?thesis by (simp add: add.assoc)
    qed
    ultimately show thesis using that [of "nat ?k"] k0(1) a0(1) b0(1) d0 by simp
  qed
qed

section \<open>The search\<close>

text \<open>All positions in the table are before \<open>p\<close>.\<close>

definition table_ok :: "table \<Rightarrow> int \<Rightarrow> bool" where
  "table_ok tab p \<longleftrightarrow> (\<forall>h. int (tab h) < p)"

lemma table_okD: "table_ok tab p \<Longrightarrow> int (tab h) < p"
  by (simp add: table_ok_def)

lemma table_ok_mono: "table_ok tab p \<Longrightarrow> p \<le> q \<Longrightarrow> table_ok tab q"
  by (auto simp: table_ok_def intro: order_less_le_trans)

lemma hash_less: "ty \<noteq> byPtr \<Longrightarrow> LZ4_hashSequence v ty < table_entries ty"
proof -
  assume "ty \<noteq> byPtr"
  have "u32 (v * 2654435761) < 2 ^ 19 * 2 ^ 13" "u32 (v * 2654435761) < 2 ^ 20 * 2 ^ 12" by (simp_all add: u32_def)
  then have "u32 (v * 2654435761) div 2 ^ 19 < 2 ^ 13" "u32 (v * 2654435761) div 2 ^ 20 < 2 ^ 12"
    by (simp_all only: less_mult_imp_div_less mult.commute)
  with \<open>ty \<noteq> byPtr\<close> show ?thesis by (cases ty) (simp_all add: LZ4_hashSequence_def)
qed

lemma hashPosition_ok:
  assumes "ty \<noteq> byPtr" and "0 \<le> p" and "p + 4 \<le> int (length src)"
  obtains h where "LZ4_hashPosition src p ty = Inr h" and "h < table_entries ty"
  using that hash_less [OF assms(1)] read_le_ok [of p 4 src] assms by (simp add: LZ4_hashPosition_def)

lemma putPositionOnHash_ok:
  assumes "h < table_entries ty" and "0 \<le> p" and "table_ok tab q" and "p < q"
  obtains tab' where "LZ4_putPositionOnHash p h tab ty = Inr tab'" and "table_ok tab' q"
proof -
  have "p mod k \<le> p" for k using assms(2) by (rule zmod_le_nonneg_dividend)
  then have "p mod k < q" for k using assms(4) by (rule order_le_less_trans)
  then have "int (nat (p mod 2 ^ 32)) < q" "int (nat (p mod 2 ^ 16)) < q" "int (nat p) < q"
    using assms(2,4) by auto
  note below = this
  let ?t = "tab(h := (case ty of byPtr \<Rightarrow> nat p | byU32 \<Rightarrow> nat (p mod 2 ^ 32) | byU16 \<Rightarrow> nat (p mod 2 ^ 16)))"
  show thesis
  proof (rule that)
    show "LZ4_putPositionOnHash p h tab ty = Inr ?t" using assms(1) by (simp add: LZ4_putPositionOnHash_def)
    show "table_ok ?t q" using below assms(3) by (cases ty) (auto simp: table_ok_def)
  qed
qed

lemma putPosition_ok:
  assumes "ty \<noteq> byPtr" and "0 \<le> p" and "p + 4 \<le> int (length src)" and "table_ok tab q" and "p < q"
  obtains tab' where "LZ4_putPosition src p tab ty = Inr tab'" and "table_ok tab' q"
proof -
  obtain h where "LZ4_hashPosition src p ty = Inr h" "h < table_entries ty" using hashPosition_ok [OF assms(1-3)] .
  then show thesis using putPositionOnHash_ok [OF _ assms(2,4,5)] that by (metis LZ4_putPosition_def bindR_Inr)
qed

lemma getPosition_ok:
  assumes "ty \<noteq> byPtr" and "0 \<le> p" and "p + 4 \<le> int (length src)" and "table_ok tab q"
  obtains r where "LZ4_getPosition src p tab ty = Inr r" and "0 \<le> r" and "r < q"
proof -
  obtain h where "LZ4_hashPosition src p ty = Inr h" "h < table_entries ty" using hashPosition_ok [OF assms(1-3)] .
  then show thesis using that [of "int (tab h)"] table_okD [OF assms(4)] by (simp add: LZ4_getPosition_def LZ4_getPositionOnHash_def)
qed

text \<open>A match at \<open>ip\<close>: 4 bytes that occur before it, not further back than an offset reaches.\<close>

definition match_at :: "bytes \<Rightarrow> int \<Rightarrow> int \<Rightarrow> bool" where
  "match_at src ip ref \<longleftrightarrow> 0 \<le> ref \<and> ref < ip \<and> ip - ref < 2 ^ 16 \<and> (\<forall>i. 0 \<le> i \<and> i < 4 \<longrightarrow> at src (ip + i) = at src (ref + i))"

lemma match_periodic:
  assumes "match_at src ip ref"
  shows "periodic src ip (ip + 4) (ip - ref)"
proof (unfold periodic_def, intro allI impI)
  fix i assume "ip \<le> i \<and> i < ip + 4"
  moreover have "\<forall>i. 0 \<le> i \<and> i < 4 \<longrightarrow> at src (ip + i) = at src (ref + i)" using assms by (simp add: match_at_def)
  then have "0 \<le> i - ip \<and> i - ip < 4 \<longrightarrow> at src (ip + (i - ip)) = at src (ref + (i - ip))" by (rule spec)
  ultimately show "at src i = at src (i - (ip - ref))" by (simp add: algebra_simps)
qed

lemma read_match:
  assumes "0 \<le> ref" and "ref < ip" and "ip + 4 \<le> int (length src)" and "ip - ref < 2 ^ 16"
  obtains r v where "read_le 4 src ref = Inr r" and "read_le 4 src ip = Inr v" and "r = v \<longleftrightarrow> match_at src ip ref"
  using that read_le_ok [of ref 4 src] read_le_ok [of ip 4 src] read_equal [of ip 4 src ref] assms by (simp add: match_at_def)

lemma find_match_ok:
  assumes "ty \<noteq> byPtr" and "ty = byU16 \<longrightarrow> mflimit < 2 ^ 16" and "mflimit + 4 \<le> int (length src)"
    and "0 \<le> fip" and "0 < step" and "64 \<le> nb" and "h < table_entries ty" and "table_ok tab fip" and "mflimit - fip < int fuel" and "0 < fuel"
  shows "\<exists>r. find_match fuel src ty mflimit fip step nb h tab = Inr r \<and>
           (case r of None \<Rightarrow> True
            | Some (ip, ref, tab') \<Rightarrow> fip \<le> ip \<and> ip \<le> mflimit \<and> match_at src ip ref \<and> table_ok tab' (ip + 1))"
  using assms(4-)
proof (induction fuel arbitrary: fip step nb h tab)
  case (Suc fuel)
  let ?next = "fip + int step"
  show ?case
  proof (cases "?next > mflimit")
    case False
    let ?ref = "int (tab h)"
    have ref: "?ref < fip" using table_okD [OF Suc.prems(5)] .
    obtain h1 where h1: "LZ4_hashPosition src ?next ty = Inr h1" "h1 < table_entries ty"
      using hashPosition_ok [OF assms(1), of ?next src] Suc.prems(1) False assms(3) by auto
    obtain tab1 where t1: "LZ4_putPositionOnHash fip h tab ty = Inr tab1" "table_ok tab1 (fip + 1)"
      using putPositionOnHash_ok [OF Suc.prems(4,1) table_ok_mono [OF Suc.prems(5)], of "fip + 1"] by auto
    have again: "\<exists>r. find_match fuel src ty mflimit ?next (nb div 2 ^ SKIPSTRENGTH) (Suc nb) h1 tab1 = Inr r \<and>
        (case r of None \<Rightarrow> True
         | Some (ip, ref, tab') \<Rightarrow> ?next \<le> ip \<and> ip \<le> mflimit \<and> match_at src ip ref \<and> table_ok tab' (ip + 1))"
      by (rule Suc.IH) (use Suc.prems False h1(2) table_ok_mono [OF t1(2)] in \<open>auto simp: div_greater_zero_iff\<close>)
    then obtain r where r: "find_match fuel src ty mflimit ?next (nb div 2 ^ SKIPSTRENGTH) (Suc nb) h1 tab1 = Inr r"
      "case r of None \<Rightarrow> True | Some (ip, ref, tab') \<Rightarrow> ?next \<le> ip \<and> ip \<le> mflimit \<and> match_at src ip ref \<and> table_ok tab' (ip + 1)"
      by blast
    have r2: "case r of None \<Rightarrow> True | Some (ip, ref, tab') \<Rightarrow> fip \<le> ip \<and> ip \<le> mflimit \<and> match_at src ip ref \<and> table_ok tab' (ip + 1)"
      using r(2) by (auto split: option.splits)
    note step = Suc.prems(4) h1(1) t1(1) r(1) False
    show ?thesis
    proof (cases "ty \<noteq> byU16 \<and> ?ref + MAX_DISTANCE < fip")
      case True
      then show ?thesis using step r2 by (simp add: Let_def LZ4_getPositionOnHash_def)
    next
      case near: False
      have "fip - ?ref < 2 ^ 16" using near assms(2) False Suc.prems(2) by auto
      then obtain x v where x: "read_le 4 src ?ref = Inr x" "read_le 4 src fip = Inr v" "x = v \<longleftrightarrow> match_at src fip ?ref"
        using read_match [of ?ref fip src] ref False assms(3) Suc.prems(2) by auto
      show ?thesis
        using step r2 near x t1(2) Suc.prems(2) by (cases "x = v") (auto simp: Let_def LZ4_getPositionOnHash_def)
    qed
  qed (simp add: Let_def)
qed simp

lemma catch_up_ok:
  assumes "0 \<le> anchor" and "anchor \<le> ip" and "0 \<le> ref" and "ref < ip" and "e \<le> int (length src)" and "ip \<le> e"
    and "periodic src ip e (ip - ref)"
  shows "\<exists>ip' ref'. catch_up src anchor ip ref = Inr (ip', ref') \<and> anchor \<le> ip' \<and> ip' \<le> ip \<and> 0 \<le> ref' \<and> ip' - ref' = ip - ref \<and>
           periodic src ip' e (ip - ref)"
  using assms
proof (induction src anchor ip ref rule: catch_up.induct)
  case (1 src anchor ip ref)
  show ?case
  proof (cases "ip > anchor \<and> ref > 0")
    case True
    have rd: "read_le 1 src (ip - 1) = Inr (unat (at src (ip - 1)))" "read_le 1 src (ref - 1) = Inr (unat (at src (ref - 1)))"
      using True 1(2-7) by (intro read_byte; simp)+
    show ?thesis
    proof (cases "unat (at src (ip - 1)) = unat (at src (ref - 1))")
      case eq: True
      have per: "periodic src (ip - 1) e (ip - 1 - (ref - 1))"
      proof (unfold periodic_def, intro allI impI)
        fix i assume "ip - 1 \<le> i \<and> i < e"
        then show "at src i = at src (i - (ip - 1 - (ref - 1)))"
          using periodicD [OF 1(8), of i] eq by (cases "i = ip - 1") (auto simp: word_unat_eq_iff)
      qed
      have "\<exists>ip' ref'. catch_up src anchor (ip - 1) (ref - 1) = Inr (ip', ref') \<and> anchor \<le> ip' \<and> ip' \<le> ip - 1 \<and> 0 \<le> ref' \<and>
          ip' - ref' = ip - 1 - (ref - 1) \<and> periodic src ip' e (ip - 1 - (ref - 1))"
        by (rule 1(1) [OF True rd]) (use True eq per 1(2-7) in auto)
      then obtain ip' ref' where "catch_up src anchor (ip - 1) (ref - 1) = Inr (ip', ref')" "anchor \<le> ip'" "ip' \<le> ip - 1" "0 \<le> ref'"
        "ip' - ref' = ip - ref" "periodic src ip' e (ip - ref)" by auto
      then show ?thesis using True rd eq by (subst catch_up.simps) auto
    next
      case False
      then show ?thesis using True rd 1(2-8) by (subst catch_up.simps) auto
    qed
  qed (use 1(2-8) in \<open>subst catch_up.simps, auto\<close>)
qed

section \<open>The output\<close>

text \<open>The output up to \<open>op\<close> is \<open>bs\<close>.\<close>

definition holds :: "bytes \<Rightarrow> int \<Rightarrow> bytes \<Rightarrow> bool" where
  "holds dst op bs \<longleftrightarrow> op = int (length bs) \<and> take (length bs) dst = bs"

lemma holds_Nil: "holds dst 0 []"
  by (simp add: holds_def)

lemma holds_length: "holds dst op bs \<Longrightarrow> op = int (length bs) \<and> length bs \<le> length dst"
  by (metis holds_def length_take min.cobounded1)

lemma holds_store:
  assumes "holds dst op bs" and "op + int (length xs) \<le> int (length dst)"
  obtains dst' where "store dst (Ptr op) xs = Inr dst'" and "length dst' = length dst" and "holds dst' (op + int (length xs)) (bs @ xs)"
proof -
  have op: "op = int (length bs)" "take (length bs) dst = bs" using assms(1) by (simp_all add: holds_def)
  have "store dst (Ptr op) xs = Inr (bs @ xs @ drop (length bs + length xs) dst)"
    using assms(2) op by (cases "xs = []") (auto simp: store_def intro: append_take_drop_id [of "length bs" dst, symmetric, unfolded op(2)])
  then show thesis using that assms(2) op by (auto simp: holds_def)
qed

lemma holds_put:
  assumes "holds dst op bs" and "op + 1 \<le> int (length dst)"
  obtains dst' where "put_byte dst op v = Inr dst'" and "length dst' = length dst" and "holds dst' (op + 1) (bs @ [word_of_nat v])"
  using holds_store [OF assms(1), of "[word_of_nat v]"] assms(2) that by (auto simp: put_byte_def)

lemma put_length_ok:
  assumes "holds dst op bs" and "op + int (length (length_bytes n)) \<le> int (length dst)"
  shows "\<exists>dst'. put_length dst op n = Inr (dst', op + int (length (length_bytes n))) \<and> length dst' = length dst \<and>
           holds dst' (op + int (length (length_bytes n))) (bs @ length_bytes n)"
  using assms
proof (induction dst op n arbitrary: bs rule: put_length.induct)
  case (1 dst op n)
  show ?case
  proof (cases "n < 255")
    case True
    then have b: "length_bytes n = [word_of_nat n]" by (subst length_bytes.simps) simp
    obtain d where "put_byte dst op n = Inr d" "length d = length dst" "holds d (op + 1) (bs @ [word_of_nat n])"
      using holds_put [OF 1(2), of n] 1(3) b by auto
    then show ?thesis using True b by (subst put_length.simps) simp
  next
    case False
    then have b: "length_bytes n = 255 # length_bytes (n - 255)" by (subst length_bytes.simps) simp
    obtain d where d: "put_byte dst op 255 = Inr d" "length d = length dst" "holds d (op + 1) (bs @ [255])"
      using holds_put [OF 1(2), of 255] 1(3) b by auto
    have "\<exists>dst'. put_length d (op + 1) (n - 255) = Inr (dst', op + 1 + int (length (length_bytes (n - 255)))) \<and> length dst' = length d \<and>
        holds dst' (op + 1 + int (length (length_bytes (n - 255)))) ((bs @ [255]) @ length_bytes (n - 255))"
      by (rule 1(1) [OF _ d(1,3)]) (use False 1(3) b d(2) in auto)
    then show ?thesis using False b d by (subst put_length.simps) (auto simp: algebra_simps)
  qed
qed

lemma put_match_length_ok:
  assumes "holds dst op bs" and "op + int (length (length_bytes n)) \<le> int (length dst)"
  shows "\<exists>dst'. put_match_length dst op n = Inr (dst', op + int (length (length_bytes n))) \<and> length dst' = length dst \<and>
           holds dst' (op + int (length (length_bytes n))) (bs @ length_bytes n)"
  using assms
proof (induction dst op n arbitrary: bs rule: put_match_length.induct)
  case (1 dst op n)
  show ?case
  proof (cases "n < 255")
    case True
    then have b: "length_bytes n = [word_of_nat n]" by (subst length_bytes.simps) simp
    obtain d where "put_byte dst op n = Inr d" "length d = length dst" "holds d (op + 1) (bs @ [word_of_nat n])"
      using holds_put [OF 1(2), of n] 1(3) b by auto
    then show ?thesis using True b by (subst put_match_length.simps) simp
  next
    case False
    then have b: "length_bytes n = 255 # length_bytes (n - 255)" by (subst length_bytes.simps) simp
    obtain d where d: "put_byte dst op 255 = Inr d" "length d = length dst" "holds d (op + 1) (bs @ [255])"
      using holds_put [OF 1(2), of 255] 1(3) b by auto
    show ?thesis
    proof (cases "n < 510")
      case True
      then have b2: "length_bytes (n - 255) = [word_of_nat (n - 255)]" by (subst length_bytes.simps) simp
      obtain d2 where "put_byte d (op + 1) (n - 255) = Inr d2" "length d2 = length d" "holds d2 (op + 1 + 1) ((bs @ [255]) @ [word_of_nat (n - 255)])"
        using holds_put [OF d(3), of "n - 255"] 1(3) b b2 d(2) by auto
      then show ?thesis using True False b b2 d(1,2) by (subst put_match_length.simps) (simp add: add.assoc)
    next
      case F: False
      then have b2: "length_bytes (n - 255) = 255 # length_bytes (n - 510)" by (subst length_bytes.simps) simp
      obtain d2 where d2: "put_byte d (op + 1) 255 = Inr d2" "length d2 = length d" "holds d2 (op + 2) (bs @ [255, 255])"
        using holds_put [OF d(3), of 255] 1(3) b b2 d(2) by (auto simp: add.assoc)
      have "\<exists>dst'. put_match_length d2 (op + 2) (n - 510) = Inr (dst', op + 2 + int (length (length_bytes (n - 510)))) \<and>
          length dst' = length d2 \<and>
          holds dst' (op + 2 + int (length (length_bytes (n - 510)))) ((bs @ [255, 255]) @ length_bytes (n - 510))"
        by (rule 1(1) [OF _ d(1) d2(1,3)]) (use F 1(3) b b2 d(2) d2(2) in auto)
      then show ?thesis using F b b2 d d2 by (subst put_match_length.simps) (auto simp: algebra_simps)
    qed
  qed
qed

text \<open>The token of a run of literals and the bytes that continue its length.\<close>

lemma put_run_ok:
  assumes "holds dst op bs" and "op + 1 + int (length (more_length l)) \<le> int (length dst)"
  obtains dst' where "(if l \<ge> RUN_MASK then bindR (put_byte dst op (RUN_MASK * 16)) (\<lambda>dst1. put_length dst1 (op + 1) (l - RUN_MASK))
      else bindR (put_byte dst op (l * 16)) (\<lambda>dst1. Inr (dst1, op + 1))) = Inr (dst', op + 1 + int (length (more_length l)))"
    and "length dst' = length dst"
    and "holds dst' (op + 1 + int (length (more_length l))) (bs @ token_byte l 0 # more_length l)"
proof (cases "l \<ge> RUN_MASK")
  case True
  obtain d where d: "put_byte dst op (RUN_MASK * 16) = Inr d" "length d = length dst" "holds d (op + 1) (bs @ [word_of_nat (RUN_MASK * 16)])"
    using holds_put [OF assms(1), of "RUN_MASK * 16"] assms(2) by auto
  have m: "more_length l = length_bytes (l - RUN_MASK)" using True by (simp add: more_length_def)
  obtain d2 where "put_length d (op + 1) (l - RUN_MASK) = Inr (d2, op + 1 + int (length (more_length l)))" "length d2 = length d"
    "holds d2 (op + 1 + int (length (more_length l))) ((bs @ [word_of_nat (RUN_MASK * 16)]) @ more_length l)"
    using put_length_ok [OF d(3), of "l - RUN_MASK"] assms(2) d(2) m by auto
  then show thesis using that True d by (simp add: token_byte_def)
next
  case False
  obtain d where "put_byte dst op (l * 16) = Inr d" "length d = length dst" "holds d (op + 1) (bs @ [word_of_nat (l * 16)])"
    using holds_put [OF assms(1), of "l * 16"] assms(2) by auto
  then show thesis using that False by (simp add: token_byte_def more_length_def mult.commute)
qed

lemma holds_copied:
  assumes "holds dst op bs" and "agree dst dst' 0 op" and "length dst' = length dst" and "op + int (length lits) \<le> int (length dst)"
    and "\<And>i. op \<le> i \<Longrightarrow> i < op + int (length lits) \<Longrightarrow> at dst' i = at src (s + (i - op))" and "0 \<le> s" and "drop (nat s) src = lits @ rest"
  shows "holds dst' (op + int (length lits)) (bs @ lits)"
proof -
  have "0 \<le> op" "nat op = length bs" "take (length bs) dst = bs" using assms(1) by (auto simp: holds_def)
  then show ?thesis using take_copied [OF assms(2,3) _ assms(4-7)] assms(1) by (simp add: holds_def nat_add_distrib)
qed

lemma encode_literals_ok:
  fixes src anchor ip
  defines "lits \<equiv> take (nat (ip - anchor)) (drop (nat anchor) src)"
  assumes "holds dst token bs" and "0 \<le> anchor" and "anchor \<le> ip" and "ip + 8 \<le> int (length src)"
    and "token + int (length (run_bytes lits 0)) + 8 \<le> int (length dst)"
  shows "\<exists>r. encode_literals src anchor ip lim olimit dst token = Inr r \<and>
           (case r of None \<Rightarrow> lim
            | Some (dst', t, op) \<Rightarrow> t = token \<and> length dst' = length dst \<and> holds dst' op (bs @ run_bytes lits 0))"
proof -
  let ?l = "nat (ip - anchor)"
  let ?op = "token + 1 + int (length (more_length ?l))"
  have l: "length lits = ?l" using assms(3-5) by (simp add: lits_def)
  have len: "int (length (run_bytes lits 0)) = 1 + int (length (more_length ?l)) + int ?l" by (simp add: run_bytes_def l)
  obtain d2 where d2: "(if ?l \<ge> RUN_MASK then bindR (put_byte dst token (RUN_MASK * 16)) (\<lambda>dst1. put_length dst1 (token + 1) (?l - RUN_MASK))
      else bindR (put_byte dst token (?l * 16)) (\<lambda>dst1. Inr (dst1, token + 1))) = Inr (d2, ?op)" "length d2 = length dst"
    "holds d2 ?op (bs @ token_byte ?l 0 # more_length ?l)"
    using put_run_ok [OF assms(2), of ?l] assms(6) len by auto
  have "0 \<le> token" using holds_length [OF assms(2)] by simp
  then obtain d3 k where d3: "LZ4_WILDCOPY d2 ?op src anchor (?op + int ?l) = Inr (d3, ?op + k, anchor + k)" "?op + int ?l \<le> ?op + k"
    "length d3 = length d2" "\<forall>i. ?op \<le> i \<and> i < ?op + k \<longrightarrow> at d3 i = at src (anchor + (i - ?op))" "agree d2 d3 0 ?op"
    using wildcopy_ok [of ?op d2 "?op + int ?l" anchor src] assms(3-6) len d2(2) by auto
  have "drop (nat anchor) src = lits @ drop ?l (drop (nat anchor) src)" by (simp only: lits_def append_take_drop_id)
  then have "holds d3 (?op + int ?l) ((bs @ token_byte ?l 0 # more_length ?l) @ lits)"
    using holds_copied [OF d2(3) d3(5,3), of lits src anchor] d2(2) d3(2,4) assms(3,6) len l by auto
  then show ?thesis
    using d2(1,2) d3(1,3) by (auto simp: encode_literals_def Let_def run_bytes_def l)
qed

lemma last_literals_ok:
  fixes src anchor iend
  defines "lits \<equiv> take (nat (iend - anchor)) (drop (nat anchor) src)"
  assumes "holds dst op bs" and "0 \<le> anchor" and "anchor \<le> iend" and "iend \<le> int (length src)"
    and "op + int (length (run_bytes lits 0)) \<le> int (length dst)"
  shows "\<exists>r dst'. last_literals src iend anchor lim maxout dst op = Inr (r, dst') \<and> length dst' = length dst \<and>
           (lim \<and> r = 0 \<or> holds dst' r (bs @ run_bytes lits 0))"
proof -
  let ?l = "nat (iend - anchor)"
  let ?op = "op + 1 + int (length (more_length ?l))"
  have l: "length lits = ?l" using assms(3-5) by (simp add: lits_def)
  have len: "int (length (run_bytes lits 0)) = 1 + int (length (more_length ?l)) + int ?l" by (simp add: run_bytes_def l)
  obtain d2 where d2: "(if ?l \<ge> RUN_MASK then bindR (put_byte dst op (RUN_MASK * 16)) (\<lambda>dst1. put_length dst1 (op + 1) (?l - RUN_MASK))
      else bindR (put_byte dst op (?l * 16)) (\<lambda>dst1. Inr (dst1, op + 1))) = Inr (d2, ?op)" "length d2 = length dst"
    "holds d2 ?op (bs @ token_byte ?l 0 # more_length ?l)"
    using put_run_ok [OF assms(2), of ?l] assms(6) len by auto
  have "0 \<le> op" using holds_length [OF assms(2)] by simp
  then obtain d3 where d3: "copy_between d2 (Ptr ?op) src (Ptr anchor) ?l = Inr d3" "length d3 = length d2" "agree d2 d3 0 ?op"
    "\<And>i. ?op \<le> i \<Longrightarrow> i < ?op + int ?l \<Longrightarrow> at d3 i = at src (anchor + (i - ?op))"
    using copy_ok [of ?op ?l d2 anchor src] assms(3-6) len d2(2) by auto
  have "drop (nat anchor) src = lits @ drop ?l (drop (nat anchor) src)" by (simp only: lits_def append_take_drop_id)
  then have "holds d3 (?op + int ?l) ((bs @ token_byte ?l 0 # more_length ?l) @ lits)"
    using holds_copied [OF d2(3) d3(3,2), of lits src anchor] d2(2) d3(4) assms(3,6) len l by auto
  then show ?thesis
    using d2(1,2) d3(1,2) by (auto simp: last_literals_def Let_def run_bytes_def l)
qed

lemma holds_token:
  assumes "holds dst op (pre @ t # post)"
  shows "read_le 1 dst (int (length pre)) = Inr (unat t)"
    and "\<exists>dst'. put_byte dst (int (length pre)) v = Inr dst' \<and> length dst' = length dst \<and> holds dst' op (pre @ word_of_nat v # post)"
proof -
  have le: "length pre + Suc (length post) \<le> length dst" and tk: "take (length pre + Suc (length post)) dst = pre @ t # post"
    using holds_length [OF assms] assms by (auto simp: holds_def)
  have d: "dst = pre @ t # post @ drop (length pre + Suc (length post)) dst"
    using append_take_drop_id [of "length pre + Suc (length post)" dst, symmetric] unfolding tk by (simp only: append_assoc append_Cons)
  have "dst ! length pre = t" by (subst d) simp
  then show "read_le 1 dst (int (length pre)) = Inr (unat t)" using read_byte [of "int (length pre)" dst] le by (simp add: at_def)
  let ?d = "pre @ word_of_nat v # post @ drop (length pre + Suc (length post)) dst"
  have "take (length pre) dst = pre" "drop (Suc (length pre)) dst = post @ drop (length pre + Suc (length post)) dst" by (subst d, simp)+
  then have "put_byte dst (int (length pre)) v = Inr ?d" using le by (simp add: put_byte_def store_def)
  moreover have "length ?d = length dst" using le by simp
  moreover have "holds ?d op (pre @ word_of_nat v # post)" using assms by (simp add: holds_def)
  ultimately show "\<exists>dst'. put_byte dst (int (length pre)) v = Inr dst' \<and> length dst' = length dst \<and> holds dst' op (pre @ word_of_nat v # post)"
    by blast
qed

lemma token_byte_add: "word_of_nat (unat (token_byte l 0) + min m 15) = token_byte l m"
proof -
  have "16 * min l 15 < 256" by auto
  then have "unat (token_byte l 0) = 16 * min l 15" unfolding token_byte_def unsigned_of_nat by (simp add: take_bit_nat_eq_self)
  then show ?thesis by (simp add: token_byte_def)
qed

lemma encode_match_ok:
  assumes "holds dst op (pre @ run_bytes lits 0)" and "match_at src ip ref" and "ip + 4 \<le> mlimit" and "mlimit \<le> int (length src)"
    and "\<And>m. ip + 4 + int m \<le> mlimit \<Longrightarrow> op + 2 + int (length (more_length m)) \<le> int (length dst)"
  shows "\<exists>dst' r. encode_match src mlimit ip ref lim olimit dst (int (length pre)) op = Inr (dst', r) \<and> length dst' = length dst \<and>
           (case r of None \<Rightarrow> lim
            | Some (op', ip') \<Rightarrow> \<exists>m. ip' = ip + 4 + int m \<and> ip' \<le> mlimit \<and>
                periodic src ip ip' (ip - ref) \<and> (ip' < mlimit \<longrightarrow> at src ip' \<noteq> at src (ip' - (ip - ref))) \<and>
                holds dst' op' (pre @ sequence_bytes \<lparr>literals = lits, offset = nat (ip - ref), extra = m\<rparr>))"
proof -
  have m0: "0 \<le> ref" "ref < ip" "ip - ref < 2 ^ 16" "\<And>i. 0 \<le> i \<Longrightarrow> i < 4 \<Longrightarrow> at src (ip + i) = at src (ref + i)"
    using assms(2) by (auto simp: match_at_def)
  let ?o = "le_enc 2 (nat (ip - ref))"
  have off: "le_enc 2 (nat ((ip - ref) mod 2 ^ 16)) = ?o" using m0(2,3) by simp
  obtain k where k: "LZ4_count src (ip + MINMATCH) (ref + MINMATCH) mlimit = Inr k" "common src (ip + MINMATCH) (ref + MINMATCH) mlimit (int k)"
    "ip + MINMATCH + int k < mlimit \<Longrightarrow> at src (ip + MINMATCH + int k) \<noteq> at src (ref + MINMATCH + int k)"
    by (rule LZ4_count_ok [of "ref + MINMATCH" "ip + MINMATCH" mlimit src]) (use m0 assms(3,4) in auto)
  have ip': "ip + 4 + int k \<le> mlimit" using k(2) by (simp add: common_def)
  note room = assms(5) [OF ip']
  have mx: "at src (ip + 4 + int k) \<noteq> at src (ip + 4 + int k - (ip - ref))" if "ip + 4 + int k < mlimit"
    using k(3) that by (simp add: algebra_simps)
  have per: "periodic src ip (ip + 4 + int k) (ip - ref)"
  proof (unfold periodic_def, intro allI impI)
    fix i assume i: "ip \<le> i \<and> i < ip + 4 + int k"
    show "at src i = at src (i - (ip - ref))"
    proof (cases "i < ip + 4")
      case True
      then show ?thesis using m0(4) [of "i - ip"] i by (simp add: algebra_simps)
    next
      case False
      have "\<forall>i. 0 \<le> i \<and> i < int k \<longrightarrow> at src (ip + 4 + i) = at src (ref + 4 + i)" using k(2) by (simp add: common_def)
      from spec [OF this, of "i - ip - 4"] show ?thesis using False i by (simp add: algebra_simps)
    qed
  qed
  obtain d1 where d1: "store dst (Ptr op) ?o = Inr d1" "length d1 = length dst" "holds d1 (op + 2) ((pre @ run_bytes lits 0) @ ?o)"
    using holds_store [OF assms(1), of ?o] room by auto
  let ?t = "token_byte (length lits) 0" and ?post = "more_length (length lits) @ lits @ ?o"
  have h1: "holds d1 (op + 2) (pre @ ?t # ?post)" using d1(3) by (simp add: run_bytes_def)
  obtain d2 where d2: "put_byte d1 (int (length pre)) (unat ?t + min k 15) = Inr d2" "length d2 = length d1"
    "holds d2 (op + 2) (pre @ token_byte (length lits) k # ?post)"
    using holds_token(2) [OF h1, of "unat ?t + min k 15"] unfolding token_byte_add by blast
  let ?q = "\<lparr>literals = lits, offset = nat (ip - ref), extra = k\<rparr>"
  have seq: "pre @ sequence_bytes ?q = (pre @ token_byte (length lits) k # ?post) @ more_length k" by (simp add: sequence_bytes_def run_bytes_def)
  show ?thesis
  proof (cases "k \<ge> ML_MASK")
    case False
    then have "holds d2 (op + 2) (pre @ sequence_bytes ?q)" using d2(3) seq by (simp add: more_length_def)
    then show ?thesis using False d1 d2 k(1) off holds_token(1) [OF h1] per ip' mx by (simp add: encode_match_def Let_def min_def)
  next
    case True
    then have m: "more_length k = length_bytes (k - ML_MASK)" by (simp add: more_length_def)
    obtain d3 where d3: "put_match_length d2 (op + 2) (k - ML_MASK) = Inr (d3, op + 2 + int (length (length_bytes (k - ML_MASK))))" "length d3 = length d2"
      "holds d3 (op + 2 + int (length (length_bytes (k - ML_MASK)))) (pre @ sequence_bytes ?q)"
      using put_match_length_ok [OF d2(3), of "k - ML_MASK"] room m d1(2) d2(2) seq by auto
    have "min k 15 = ML_MASK" using True by simp
    then show ?thesis using True d1 d2 d3 k(1) off holds_token(1) [OF h1] per ip' mx by (simp add: encode_match_def Let_def)
  qed
qed

lemma length_block_bytes_pos: "0 < length (block_bytes qs lits)"
  by (simp add: block_bytes_def run_bytes_def)

section \<open>The main loop\<close>

lemma div_add_le: "a div k + b div k \<le> (a + b) div (k :: nat)"
  by (subst div_add1_eq) simp

lemma more_length_le: "length (more_length l) \<le> 1 + l div 255"
proof -
  have "(l + 240) div 255 \<le> (l + 255) div 255" by (rule div_le_mono) simp
  then show ?thesis by (simp add: length_more_length)
qed

text \<open>A sequence is never more than 1 byte for every 255 longer than what it stands for.\<close>

lemma sequence_size:
  assumes "o1 \<le> a + a div 255"
  shows "o1 + (1 + length (more_length l) + l + 2 + length (more_length m)) \<le> a + l + m + 4 + (a + l + m + 4) div 255"
proof -
  have "length (more_length m) \<le> m + m div 255"
    using more_length_le [of m] by (cases "m < 15") (simp_all add: more_length_def)
  moreover have "a div 255 + (l div 255 + m div 255) \<le> (a + l + m + 4) div 255"
    using div_add_le [of a 255 "l + m"] div_add_le [of l 255 m] div_le_mono [of "a + (l + m)" "a + l + m + 4" 255] by simp
  ultimately show ?thesis using more_length_le [of l] assms by linarith
qed

lemma run_size:
  assumes "o1 \<le> a + a div 255"
  shows "o1 + (1 + length (more_length l) + l) \<le> a + l + 2 + (a + l) div 255"
  using more_length_le [of l] div_add_le [of a 255 l] assms by linarith

text \<open>The output so far stands for the first \<open>a\<close> bytes of the input.\<close>

definition coded :: "bytes \<Rightarrow> nat \<Rightarrow> nat \<Rightarrow> bytes \<Rightarrow> sequence list \<Rightarrow> bool" where
  "coded src n a bs qs \<longleftrightarrow>
     bs = concat (map sequence_bytes qs) \<and> expand [] qs = take a src \<and> block_ok n [] qs \<and> a \<le> n \<and> length bs \<le> a + a div 255"

lemma coded_Nil: "coded src n 0 [] []"
  by (simp add: coded_def)

lemma coded_snoc:
  assumes c: "coded src n a bs qs" and q: "q = \<lparr>literals = take l (drop a src), offset = off, extra = m\<rparr>" and "n \<le> length src"
    and "0 < off" and "off < 2 ^ 16" and "off \<le> a + l" and "a + l + 12 \<le> n" and "a + l + m + 9 \<le> n"
    and per: "periodic src (int (a + l)) (int (a + l + (m + 4))) (int off)"
  shows "coded src n (a + l + m + 4) (bs @ sequence_bytes q) (qs @ [q])"
proof -
  have e: "expand [] qs = take a src" "bs = concat (map sequence_bytes qs)" "length bs \<le> a + a div 255" "block_ok n [] qs"
    using c unfolding coded_def by blast+
  have l: "length (take a src) = a" "length (take l (drop a src)) = l" using assms(3,7) by simp_all
  have t: "take a src @ take l (drop a src) = take (a + l) src" by (simp add: take_add)
  have "take (a + l + (m + 4)) src = repeat_match off (m + 4) (take (a + l) src)"
    by (rule take_periodic [OF per assms(4,6)]) (use assms(3,8) in simp)
  then have "expand [] (qs @ [q]) = take (a + l + m + 4) src" using e(1) q t by (simp add: expand_snoc after_sequence_def add.assoc)
  moreover have "block_ok n (expand [] qs) [q]" unfolding e(1) using assms(4-8) q l by simp
  moreover have "length (sequence_bytes q) = 1 + length (more_length l) + l + 2 + length (more_length m)"
    using q l(2) by (simp add: sequence_bytes_def run_bytes_def)
  moreover note sequence_size [OF e(3), of l m]
  ultimately show ?thesis using e(2,4) assms(8) by (simp add: coded_def block_ok_snoc)
qed

fun point_ok :: "bytes \<Rightarrow> nat \<Rightarrow> nat \<Rightarrow> bool \<Rightarrow> tableType \<Rightarrow> point \<Rightarrow> bool" where
  "point_ok src n cap lim ty (Head anchor ip h tab dst op) \<longleftrightarrow>
     length dst = cap \<and> h < table_entries ty \<and> table_ok tab ip \<and> anchor < ip \<and>
     (\<exists>a bs qs. anchor = int a \<and> holds dst op bs \<and> coded src n a bs qs)"
| "point_ok src n cap lim ty (NextMatch ip ref tab dst token op) \<longleftrightarrow>
     length dst = cap \<and> match_at src ip ref \<and> ip + 12 \<le> int n \<and>
     (\<exists>seen. ip \<le> seen \<and> seen + 12 \<le> int n \<and> table_ok tab (seen + 1) \<and> periodic src ip (seen + 4) (ip - ref)) \<and>
     (\<exists>a l bs qs. ip = int (a + l) \<and> token = int (length bs) \<and>
        holds dst op (bs @ run_bytes (take l (drop a src)) 0) \<and> coded src n a bs qs)"
| "point_ok src n cap lim ty (Return r dst) \<longleftrightarrow>
     length dst = cap \<and>
     (lim \<and> r = 0 \<or>
      (\<exists>qs lits. holds dst r (block_bytes qs lits) \<and> expand [] qs @ lits = take n src \<and> block_ok n [] qs \<and>
         r \<le> int (n + n div 255 + 2)))"

lemma NextMatchI:
  assumes "length dst = cap" and "match_at src ip ref" and "ip \<le> seen" and "seen + 12 \<le> int n" and "table_ok tab (seen + 1)"
    and "periodic src ip (seen + 4) (ip - ref)" and "ip = int (a + l)" and "token = int (length bs)"
    and "holds dst op (bs @ run_bytes (take l (drop a src)) 0)" and "coded src n a bs qs"
  shows "point_ok src n cap lim ty (NextMatch ip ref tab dst token op)"
proof -
  have "ip + 12 \<le> int n" using assms(3,4) by simp
  moreover have "\<exists>seen. ip \<le> seen \<and> seen + 12 \<le> int n \<and> table_ok tab (seen + 1) \<and> periodic src ip (seen + 4) (ip - ref)"
    using assms(3-6) by blast
  moreover have "\<exists>a l bs qs. ip = int (a + l) \<and> token = int (length bs) \<and>
      holds dst op (bs @ run_bytes (take l (drop a src)) 0) \<and> coded src n a bs qs"
    using assms(7-10) by blast
  ultimately show ?thesis using assms(1,2) by simp
qed

lemma finish_ok:
  assumes "holds dst op bs" and "coded src n a bs qs" and "n \<le> length src" and "n + n div 255 + 16 \<le> length dst"
  shows "\<exists>r dst'. last_literals src (int n) (int a) lim maxout dst op = Inr (r, dst') \<and> point_ok src n (length dst) lim ty (Return r dst')"
proof -
  let ?l = "take (n - a) (drop a src)"
  have c: "bs = concat (map sequence_bytes qs)" "expand [] qs = take a src" "block_ok n [] qs" "a \<le> n" "length bs \<le> a + a div 255"
    using assms(2) unfolding coded_def by blast+
  have l: "length ?l = n - a" using assms(3) by simp
  have len: "length (run_bytes ?l 0) = 1 + length (more_length (n - a)) + (n - a)"
    by (simp only: run_bytes_def list.size length_append l)
  have sz: "length bs + length (run_bytes ?l 0) \<le> n + 2 + n div 255" using run_size [OF c(5), of "n - a"] c(4) len by simp
  have op: "op = int (length bs)" using assms(1) by (simp add: holds_def)
  have n: "nat (int n - int a) = n - a" using c(4) by simp
  obtain r dst' where r: "last_literals src (int n) (int a) lim maxout dst op = Inr (r, dst')" "length dst' = length dst"
    "lim \<and> r = 0 \<or> holds dst' r (bs @ run_bytes ?l 0)"
    using last_literals_ok [OF assms(1), of "int a" "int n" src lim maxout] assms(3,4) c(4) sz op n by auto
  have "bs @ run_bytes ?l 0 = block_bytes qs ?l" by (simp add: block_bytes_def c(1))
  moreover have "expand [] qs @ ?l = take n src" using c(2,4) take_add [of a "n - a" src] by simp
  moreover have "r \<le> int (n + n div 255 + 2)" if "holds dst' r (bs @ run_bytes ?l 0)"
    using that sz by (auto simp: holds_def)
  ultimately show ?thesis using r c(3) by (intro exI [of _ r] exI [of _ dst']) auto
qed

text \<open>Sizes that are those of the buffers, for one of the two tables a 64-bit machine uses.\<close>

definition sizes_ok :: "bytes \<Rightarrow> nat \<Rightarrow> nat \<Rightarrow> tableType \<Rightarrow> bool" where
  "sizes_ok src n cap ty \<longleftrightarrow> ty \<noteq> byPtr \<and> (ty = byU16 \<longrightarrow> int n < LZ4_64KLIMIT) \<and> n \<le> length src \<and> n + n div 255 + 16 \<le> cap"

lemma from_head_ok:
  assumes "sizes_ok src n cap ty" and "point_ok src n cap lim ty (Head anchor ip h tab dst op)"
  shows "\<exists>p. from_head src ty (int n) lim maxout anchor ip h tab dst op = Inr p \<and> point_ok src n cap lim ty p \<and>
           (case p of Head _ _ _ _ _ _ \<Rightarrow> False | NextMatch ip' _ _ _ _ _ \<Rightarrow> anchor \<le> ip' | Return _ _ \<Rightarrow> True)"
proof -
  have sz: "ty \<noteq> byPtr" "ty = byU16 \<longrightarrow> int n - MFLIMIT < 2 ^ 16" "n \<le> length src" "n + n div 255 + 16 \<le> cap"
    using assms(1) by (auto simp: sizes_ok_def)
  obtain a bs qs where pt: "length dst = cap" "h < table_entries ty" "table_ok tab ip" "anchor < ip" "anchor = int a" "holds dst op bs"
    "coded src n a bs qs"
    using assms(2) by auto
  obtain found where f: "find_match (Suc (length src)) src ty (int n - MFLIMIT) ip 1 (2 ^ SKIPSTRENGTH) h tab = Inr found"
    "case found of None \<Rightarrow> True
     | Some (ip', ref, tab') \<Rightarrow> ip \<le> ip' \<and> ip' \<le> int n - MFLIMIT \<and> match_at src ip' ref \<and> table_ok tab' (ip' + 1)"
    using find_match_ok [OF sz(1,2), of src ip 1 "2 ^ SKIPSTRENGTH" h tab "Suc (length src)"] pt(2-5) sz(3) by auto
  show ?thesis
  proof (cases found)
    case None
    then show ?thesis using f(1) finish_ok [OF pt(6,7) sz(3), of lim maxout ty] sz(4) pt(1,5) by (auto simp: from_head_def)
  next
    case (Some x)
    obtain ip1 ref1 tab1 where x: "x = (ip1, ref1, tab1)" by (cases x)
    have m: "ip \<le> ip1" "ip1 + 12 \<le> int n" "match_at src ip1 ref1" "table_ok tab1 (ip1 + 1)" using f(2) Some x by auto
    have m0: "0 \<le> ref1" "ref1 < ip1" "ip1 - ref1 < 2 ^ 16" using m(3) by (auto simp: match_at_def)
    obtain ip2 ref2 where c: "catch_up src anchor ip1 ref1 = Inr (ip2, ref2)" "anchor \<le> ip2" "ip2 \<le> ip1" "0 \<le> ref2"
      "ip2 - ref2 = ip1 - ref1" "periodic src ip2 (ip1 + 4) (ip1 - ref1)"
      using catch_up_ok [OF _ _ _ _ _ _ match_periodic [OF m(3)], of anchor] pt(4,5) m(1,2) m0 sz(3) by auto
    have m2: "match_at src ip2 ref2"
      using c(3-6) m0 periodicD [OF c(6)] by (auto simp: match_at_def algebra_simps)
    let ?l = "nat ip2 - a"
    have ip2: "ip2 = int (a + ?l)" "nat (ip2 - anchor) = ?l" "a + ?l + 12 \<le> n" using c(2,3) pt(5) m(2) by auto
    have an: "nat anchor = a" using pt(5) by simp
    have len: "length (run_bytes (take ?l (drop a src)) 0) = 1 + length (more_length ?l) + ?l" using ip2(3) sz(3) by (simp add: run_bytes_def)
    have "op = int (length bs)" using pt(6) by (simp add: holds_def)
    moreover have "length bs \<le> a + a div 255" using pt(7) unfolding coded_def by blast
    moreover have "(a + ?l) div 255 \<le> n div 255" using ip2(3) by (intro div_le_mono) simp
    ultimately have room: "op + int (length (run_bytes (take ?l (drop a src)) 0)) + 8 \<le> int (length dst)"
      using run_size [of "length bs" a ?l] len ip2(3) sz(4) pt(1) by linarith
    obtain r where r: "encode_literals src anchor ip2 lim maxout dst op = Inr r"
      "case r of None \<Rightarrow> lim
       | Some (dst', t, op') \<Rightarrow> t = op \<and> length dst' = length dst \<and> holds dst' op' (bs @ run_bytes (take ?l (drop a src)) 0)"
      using encode_literals_ok [OF pt(6) _ c(2), of src lim maxout, unfolded an ip2(2)] room ip2(1,3) pt(5) sz(3) by auto
    show ?thesis
    proof (cases r)
      case None
      then show ?thesis using f(1) Some x c(1) r pt(1) by (simp add: from_head_def)
    next
      case r': (Some y)
      obtain dst' op' where y: "y = (dst', op, op')" "length dst' = cap" "holds dst' op' (bs @ run_bytes (take ?l (drop a src)) 0)"
        using r(2) r' pt(1) by (cases y) auto
      have "point_ok src n cap lim ty (NextMatch ip2 ref2 tab1 dst' op op')"
        by (rule NextMatchI [OF y(2) m2 c(3) m(2,4) _ ip2(1) _ y(3) pt(7)]) (use c(5,6) pt(6) in \<open>auto simp: holds_def\<close>)
      then show ?thesis using f(1) Some x c(1,2) r(1) r' y(1) by (simp add: from_head_def)
    qed
  qed
qed

lemma next_position_ok:
  assumes "sizes_ok src n cap ty" and "length dst = cap" and "holds dst op bs" and "coded src n a bs qs" and "4 \<le> a" and "table_ok tab (int a)"
  shows "\<exists>p. next_position src ty (int n) lim maxout (int a) tab dst op = Inr p \<and> point_ok src n cap lim ty p \<and>
           (case p of Head anchor _ _ _ _ _ \<Rightarrow> anchor = int a | NextMatch ip _ _ _ _ _ \<Rightarrow> ip = int a | Return _ _ \<Rightarrow> True)"
proof (cases "int a > int n - MFLIMIT")
  case True
  then show ?thesis
    using finish_ok [OF assms(3,4), of lim maxout ty] assms(1,2) by (auto simp: next_position_def sizes_ok_def)
next
  case False
  have sz: "ty \<noteq> byPtr" "n \<le> length src" "n + n div 255 + 16 \<le> cap" using assms(1) by (auto simp: sizes_ok_def)
  have a: "int a + 12 \<le> int n" using False by simp
  obtain tab1 where t1: "LZ4_putPosition src (int a - 2) tab ty = Inr tab1" "table_ok tab1 (int a)"
    using putPosition_ok [OF sz(1) _ _ assms(6), of "int a - 2" src] a assms(5) sz(2) by auto
  obtain ref where ref: "LZ4_getPosition src (int a) tab1 ty = Inr ref" "0 \<le> ref" "ref < int a"
    using getPosition_ok [OF sz(1) _ _ t1(2), of "int a" src] a sz(2) by auto
  obtain tab2 where t2: "LZ4_putPosition src (int a) tab1 ty = Inr tab2" "table_ok tab2 (int a + 1)"
    using putPosition_ok [OF sz(1) _ _ table_ok_mono [OF t1(2)], of "int a" src "int a + 1"] a sz(2) by auto
  obtain h where h: "LZ4_hashPosition src (int a + 1) ty = Inr h" "h < table_entries ty"
    using hashPosition_ok [OF sz(1), of "int a + 1" src] a sz(2) by auto
  have goon: "point_ok src n cap lim ty (Head (int a) (int a + 1) h tab2 dst op)"
    using assms(2-4) h(2) t2(2) by auto
  show ?thesis
  proof (cases "ref + MAX_DISTANCE \<ge> int a")
    case far: False
    then show ?thesis using False t1(1) ref(1) t2(1) h(1) goon by (simp add: next_position_def)
  next
    case near: True
    then obtain x v where x: "read_le 4 src ref = Inr x" "read_le 4 src (int a) = Inr v" "x = v \<longleftrightarrow> match_at src (int a) ref"
      using read_match [of ref "int a" src] ref a sz(2) by auto
    show ?thesis
    proof (cases "x = v")
      case no: False
      then show ?thesis using False near t1(1) ref(1) t2(1) h(1) goon x by (simp add: next_position_def)
    next
      case yes: True
      have bs: "length bs \<le> a + a div 255" using assms(4) unfolding coded_def by blast
      moreover have "op = int (length bs)" using assms(3) by (simp add: holds_def)
      moreover have "a div 255 \<le> n div 255" using a by (intro div_le_mono) simp
      ultimately have "op + 1 \<le> int (length dst)" using sz(3) assms(2) a by linarith
      then obtain d where d: "put_byte dst op 0 = Inr d" "length d = length dst" "holds d (op + 1) (bs @ [word_of_nat 0])"
        using holds_put [OF assms(3), of 0] by auto
      have m: "match_at src (int a) ref" using x(3) yes by simp
      have "point_ok src n cap lim ty (NextMatch (int a) ref tab2 d op (op + 1))"
        by (rule NextMatchI [OF _ m order_refl a t2(2) match_periodic [OF m] _ _ _ assms(4), where l = 0])
          (use d(2,3) assms(2,3) in \<open>auto simp: holds_def run_bytes_def token_byte_def more_length_def\<close>)
      then show ?thesis using False near yes t1(1) ref(1) t2(1) x d(1) by (simp add: next_position_def)
    qed
  qed
qed

lemma from_match_ok:
  assumes "sizes_ok src n cap ty" and "point_ok src n cap lim ty (NextMatch ip ref tab dst token op)"
  shows "\<exists>p. from_match src ty (int n) lim maxout ip ref tab dst token op = Inr p \<and> point_ok src n cap lim ty p \<and>
           (case p of Head anchor _ _ _ _ _ \<Rightarrow> ip + 4 \<le> anchor | NextMatch ip' _ _ _ _ _ \<Rightarrow> ip + 4 \<le> ip' | Return _ _ \<Rightarrow> True)"
proof -
  have sz: "ty \<noteq> byPtr" "n \<le> length src" "n + n div 255 + 16 \<le> cap" using assms(1) by (auto simp: sizes_ok_def)
  obtain a l bs qs seen where pt: "length dst = cap" "match_at src ip ref" "ip + 12 \<le> int n" "ip = int (a + l)" "token = int (length bs)"
    "holds dst op (bs @ run_bytes (take l (drop a src)) 0)" "coded src n a bs qs"
    and seen: "ip \<le> seen" "seen + 12 \<le> int n" "table_ok tab (seen + 1)" "periodic src ip (seen + 4) (ip - ref)"
    using assms(2) by auto
  let ?lits = "take l (drop a src)"
  have m0: "0 \<le> ref" "ref < ip" "ip - ref < 2 ^ 16" using pt(2) by (auto simp: match_at_def)
  have al: "a + l + 12 \<le> n" using pt(3,4) by simp
  have len: "length (run_bytes ?lits 0) = 1 + length (more_length l) + l" using al sz(2) by (simp add: run_bytes_def)
  have bs: "length bs \<le> a + a div 255" using pt(7) unfolding coded_def by blast
  have op: "op = int (length bs + (1 + length (more_length l) + l))" using pt(6) len by (simp add: holds_def)
  have room: "op + 2 + int (length (more_length m)) \<le> int (length dst)" if "ip + 4 + int m \<le> int n - LASTLITERALS" for m
  proof -
    have "a + l + m + 9 \<le> n" using that pt(4) by simp
    moreover have "(a + l + m + 4) div 255 \<le> n div 255" using calculation by (intro div_le_mono) simp
    ultimately show ?thesis using sequence_size [OF bs, of l m] op sz(3) pt(1) by simp
  qed
  have lims: "ip + 4 \<le> int n - LASTLITERALS" "int n - LASTLITERALS \<le> int (length src)" using pt(3) sz(2) by simp_all
  obtain dst' r where r: "encode_match src (int n - LASTLITERALS) ip ref lim maxout dst token op = Inr (dst', r)" "length dst' = length dst"
    "case r of None \<Rightarrow> lim
     | Some (op', ip') \<Rightarrow> \<exists>m. ip' = ip + 4 + int m \<and> ip' \<le> int n - LASTLITERALS \<and>
         periodic src ip ip' (ip - ref) \<and> (ip' < int n - LASTLITERALS \<longrightarrow> at src ip' \<noteq> at src (ip' - (ip - ref))) \<and>
         holds dst' op' (bs @ sequence_bytes \<lparr>literals = ?lits, offset = nat (ip - ref), extra = m\<rparr>)"
    using encode_match_ok [OF pt(6,2) lims room, where lim = lim and olimit = maxout] unfolding pt(5) by blast
  show ?thesis
  proof (cases r)
    case None
    then show ?thesis using r pt(1) by (simp add: from_match_def)
  next
    case (Some y)
    obtain op' ip' m where y: "y = (op', ip')" "ip' = ip + 4 + int m" "ip' + 5 \<le> int n" "length dst' = cap"
      "periodic src ip ip' (ip - ref)" "ip' < int n - 5 \<longrightarrow> at src ip' \<noteq> at src (ip' - (ip - ref))"
      "holds dst' op' (bs @ sequence_bytes \<lparr>literals = ?lits, offset = nat (ip - ref), extra = m\<rparr>)"
      using r(2,3) Some pt(1) by (cases y) auto
    let ?q = "\<lparr>literals = ?lits, offset = nat (ip - ref), extra = m\<rparr>" and ?a = "a + l + m + 4"
    have ip': "ip' = int ?a" using y(2) pt(4) by simp
    have coded: "coded src n ?a (bs @ sequence_bytes ?q) (qs @ [?q])"
      by (rule coded_snoc [OF pt(7) refl]) (use m0 pt(4) al y(2,3,5) sz(2) in \<open>auto simp: algebra_simps\<close>)
    have far: "seen + 4 \<le> ip'"
    proof (rule ccontr)
      assume "\<not> seen + 4 \<le> ip'"
      then have "at src ip' = at src (ip' - (ip - ref))" using periodicD [OF seen(4), of ip'] y(2) by simp
      then show False using y(6) \<open>\<not> seen + 4 \<le> ip'\<close> seen(2) by simp
    qed
    have "table_ok tab (int ?a)" using table_ok_mono [OF seen(3)] far ip' by simp
    then obtain p where p: "next_position src ty (int n) lim maxout (int ?a) tab dst' op' = Inr p" "point_ok src n cap lim ty p"
      "case p of Head anchor _ _ _ _ _ \<Rightarrow> anchor = int ?a | NextMatch ip _ _ _ _ _ \<Rightarrow> ip = int ?a | Return _ _ \<Rightarrow> True"
      using next_position_ok [OF assms(1) y(4,7) coded, of tab lim maxout] by auto
    have "from_match src ty (int n) lim maxout ip ref tab dst token op = Inr p"
      using r(1) Some y(1) p(1) ip' by (simp only: from_match_def bindR_Inr option.case prod.case)
    moreover have "case p of Head anchor _ _ _ _ _ \<Rightarrow> ip + 4 \<le> anchor | NextMatch ip' _ _ _ _ _ \<Rightarrow> ip + 4 \<le> ip' | Return _ _ \<Rightarrow> True"
      using p(3) pt(4) by (cases p) auto
    ultimately show ?thesis using p(2) by blast
  qed
qed

lemma main_loop_ok:
  assumes "sizes_ok src n cap ty"
  shows "point_ok src n cap lim ty p \<Longrightarrow>
     (case p of Head a _ _ _ _ _ \<Rightarrow> int n + 1 - a | NextMatch ip _ _ _ _ _ \<Rightarrow> int n - ip | Return _ _ \<Rightarrow> 0) \<le> int fuel \<Longrightarrow>
     \<exists>r dst'. main_loop fuel src ty (int n) lim maxout p = Inr (r, dst') \<and> point_ok src n cap lim ty (Return r dst')"
proof (induction fuel arbitrary: p)
  case 0
  then show ?case by (cases p) (auto simp: coded_def)
next
  case (Suc fuel)
  show ?case
  proof (cases p)
    case (Head anchor ip h tab dst op)
    obtain p' where p': "from_head src ty (int n) lim maxout anchor ip h tab dst op = Inr p'" "point_ok src n cap lim ty p'"
      "case p' of Head _ _ _ _ _ _ \<Rightarrow> False | NextMatch ip' _ _ _ _ _ \<Rightarrow> anchor \<le> ip' | Return _ _ \<Rightarrow> True"
      using from_head_ok [OF assms Suc.prems(1) [unfolded Head]] by blast
    have "\<exists>r dst'. main_loop fuel src ty (int n) lim maxout p' = Inr (r, dst') \<and> point_ok src n cap lim ty (Return r dst')"
      by (rule Suc.IH [OF p'(2)]) (use p'(3) Suc.prems(2) Head in \<open>cases p'; simp\<close>)
    then show ?thesis using Head p'(1) by simp
  next
    case (NextMatch ip ref tab dst token op)
    obtain p' where p': "from_match src ty (int n) lim maxout ip ref tab dst token op = Inr p'" "point_ok src n cap lim ty p'"
      "case p' of Head anchor _ _ _ _ _ \<Rightarrow> ip + 4 \<le> anchor | NextMatch ip' _ _ _ _ _ \<Rightarrow> ip + 4 \<le> ip' | Return _ _ \<Rightarrow> True"
      using from_match_ok [OF assms Suc.prems(1) [unfolded NextMatch]] by blast
    have "\<exists>r dst'. main_loop fuel src ty (int n) lim maxout p' = Inr (r, dst') \<and> point_ok src n cap lim ty (Return r dst')"
      by (rule Suc.IH [OF p'(2)]) (use p'(3) Suc.prems(2) NextMatch in \<open>cases p'; simp\<close>)
    then show ?thesis using NextMatch p'(1) by simp
  qed (use Suc.prems in simp)
qed

section \<open>The functions of the interface\<close>

lemma compress_generic_ok:
  assumes "sizes_ok src n (length dst) ty" and "n \<le> LZ4_MAX_INPUT_SIZE"
  shows "\<exists>r dst'. LZ4_compress_generic src dst (int n) maxout lim ty = Inr (r, dst') \<and> point_ok src n (length dst) lim ty (Return r dst')"
proof -
  have sz: "ty \<noteq> byPtr" "ty = byU16 \<longrightarrow> int n < LZ4_64KLIMIT" "n \<le> length src" "n + n div 255 + 16 \<le> length dst"
    using assms(1) by (auto simp: sizes_ok_def)
  show ?thesis
  proof (cases "int n < LZ4_minLength")
    case True
    then show ?thesis
      using finish_ok [OF holds_Nil coded_Nil sz(3,4), of lim maxout ty] sz(2) by (auto simp: LZ4_compress_generic_def)
  next
    case False
    obtain tab where t: "LZ4_putPosition src 0 (\<lambda>_. 0) ty = Inr tab" "table_ok tab 1"
      using putPosition_ok [OF sz(1), of 0 src "\<lambda>_. 0" 1] False sz(3) by (auto simp: table_ok_def)
    obtain h where h: "LZ4_hashPosition src 1 ty = Inr h" "h < table_entries ty"
      using hashPosition_ok [OF sz(1), of 1 src] False sz(3) by auto
    have "point_ok src n (length dst) lim ty (Head 0 1 h tab dst 0)"
      using t(2) h(2) holds_Nil [of dst] coded_Nil [of src n] by (auto intro!: exI [of _ "[]"])
    then have "\<exists>r dst'. main_loop (2 * length src) src ty (int n) lim maxout (Head 0 1 h tab dst 0) = Inr (r, dst') \<and>
        point_ok src n (length dst) lim ty (Return r dst')"
      by (rule main_loop_ok [OF assms(1)]) (use False sz(3) in simp)
    moreover have "\<not> (ty = byU16 \<and> int n \<ge> LZ4_64KLIMIT)" using sz(2) by auto
    ultimately show ?thesis using False t(1) h(1) assms(2) by (auto simp: LZ4_compress_generic_def simp del: point_ok.simps)
  qed
qed

text \<open>
  C23: \<^verbatim>\<open>LZ4_count\<close>, which compares 8, 4, 2 and 1 bytes at a time, counts exactly the bytes from \<open>pIn\<close> on
  that agree with those from \<open>pRef\<close> on and lie before the limit.
\<close>

theorem count_is_longest_match:
  assumes "0 \<le> pRef" and "pRef \<le> pIn" and "pIn \<le> pInLimit" and "pInLimit \<le> int (length src)"
  shows "\<exists>k. LZ4_count src pIn pRef pInLimit = Inr k \<and> pIn + int k \<le> pInLimit \<and>
           (\<forall>i < k. src ! (nat pIn + i) = src ! (nat pRef + i)) \<and>
           (pIn + int k < pInLimit \<longrightarrow> src ! (nat pIn + k) \<noteq> src ! (nat pRef + k))"
proof -
  obtain k where k: "LZ4_count src pIn pRef pInLimit = Inr k" "common src pIn pRef pInLimit (int k)"
    "pIn + int k < pInLimit \<Longrightarrow> at src (pIn + int k) \<noteq> at src (pRef + int k)"
    using LZ4_count_ok [OF assms] by blast
  have pos: "at src (pIn + int i) = src ! (nat pIn + i)" "at src (pRef + int i) = src ! (nat pRef + i)" for i
    using assms(1,2) by (simp_all add: at_def nat_add_distrib)
  have "src ! (nat pIn + i) = src ! (nat pRef + i)" if "i < k" for i
  proof -
    have "\<forall>i. 0 \<le> i \<and> i < int k \<longrightarrow> at src (pIn + i) = at src (pRef + i)" using k(2) by (simp add: common_def)
    from spec [OF this, of "int i"] that show ?thesis unfolding pos by simp
  qed
  moreover have "pIn + int k \<le> pInLimit" using k(2) by (simp add: common_def)
  ultimately show ?thesis using k(1,3) unfolding pos by blast
qed

theorem count_is_longest_match_witness:
  "\<exists>k. LZ4_count [1, 2, 3, 1, 2, 9, 7] 3 0 6 = Inr k \<and> 3 + int k \<le> 6 \<and>
     (\<forall>i < k. [1, 2, 3, 1, 2, 9, 7 :: byte] ! (nat 3 + i) = [1, 2, 3, 1, 2, 9, 7] ! (nat 0 + i)) \<and>
     (3 + int k < 6 \<longrightarrow> [1, 2, 3, 1, 2, 9, 7 :: byte] ! (nat 3 + k) \<noteq> [1, 2, 3, 1, 2, 9, 7] ! (nat 0 + k))"
  by (rule count_is_longest_match) simp_all

lemma compress_block:
  assumes "n \<le> LZ4_MAX_INPUT_SIZE" and "n \<le> length source" and "LZ4_compressBound (int n) \<le> int (length dest)"
  shows "\<exists>r dest' qs lits. LZ4_compress source dest (int n) = Inr (r, dest') \<and> length dest' = length dest \<and>
           0 < r \<and> r \<le> LZ4_compressBound (int n) \<and> take (nat r) dest' = block_bytes qs lits \<and>
           expand [] qs @ lits = take n source \<and> block_ok n [] qs"
proof -
  let ?ty = "if int n < LZ4_64KLIMIT then byU16 else byU32"
  have b: "LZ4_compressBound (int n) = int (n + n div 255 + 16)" using assms(1) by (simp add: LZ4_compressBound_def)
  have "sizes_ok source n (length dest) ?ty" using assms(2,3) b by (auto simp: sizes_ok_def)
  from compress_generic_ok [OF this assms(1), of 0 False]
  obtain r dest' qs lits where r: "LZ4_compress_generic source dest (int n) 0 False ?ty = Inr (r, dest')" "length dest' = length dest"
    "holds dest' r (block_bytes qs lits)" "expand [] qs @ lits = take n source" "block_ok n [] qs" "r \<le> int (n + n div 255 + 2)"
    by auto
  have "0 < r" using r(3) length_block_bytes_pos [of qs lits] by (simp add: holds_def)
  moreover have "take (nat r) dest' = block_bytes qs lits" using r(3) by (simp add: holds_def)
  moreover have "LZ4_compress source dest (int n) = Inr (r, dest')" using r(1) by (simp add: LZ4_compress_def split: if_splits)
  ultimately show ?thesis using r(2,4,5,6) b by auto
qed

text \<open>
  C6: For every input up to \<^verbatim>\<open>LZ4_MAX_INPUT_SIZE\<close> and an output buffer of \<^verbatim>\<open>LZ4_compressBound\<close> bytes,
  \<^verbatim>\<open>LZ4_compress\<close> terminates without an access outside its buffers and its hash table.  What it has
  written is a block in the LZ4 format that stands for the input, and is never longer than the
  bound.
\<close>

theorem compress_writes_block:
  assumes "n \<le> LZ4_MAX_INPUT_SIZE" and "n \<le> length source" and "LZ4_compressBound (int n) \<le> int (length dest)"
  shows "\<exists>r dest' qs lits. LZ4_compress source dest (int n) = Inr (r, dest') \<and> length dest' = length dest \<and>
           0 < r \<and> r \<le> LZ4_compressBound (int n) \<and> take (nat r) dest' = block_bytes qs lits \<and>
           expand [] qs @ lits = take n source \<and> block_ok n [] qs"
  using assms by (rule compress_block)

theorem compress_writes_block_witness:
  "\<exists>r dest' qs lits. LZ4_compress [1, 2, 3] (replicate 20 0) (int 3) = Inr (r, dest') \<and> length dest' = length (replicate 20 (0 :: byte)) \<and>
     0 < r \<and> r \<le> LZ4_compressBound (int 3) \<and> take (nat r) dest' = block_bytes qs lits \<and>
     expand [] qs @ lits = take 3 [1, 2, 3] \<and> block_ok 3 [] qs"
  by (rule compress_writes_block) (simp_all add: LZ4_compressBound_def)

section \<open>A shorter buffer\<close>

text \<open>
  A run that stays inside its buffer does not see how long the buffer is: with more room behind
  it, it does the same.
\<close>

lemma store_append: "store m (Ptr d) bs = Inr m' \<Longrightarrow> store (m @ ex) (Ptr d) bs = Inr (m' @ ex)"
  by (auto simp: store_def split: if_splits)

lemma read_append: "read_le n m p = Inr v \<Longrightarrow> read_le n (m @ ex) p = Inr v"
  by (auto simp: read_le_def load_def split: if_splits)

lemma put_byte_append: "put_byte m d v = Inr m' \<Longrightarrow> put_byte (m @ ex) d v = Inr (m' @ ex)"
  by (simp add: put_byte_def store_append)

lemma copy_append: "copy_between m (Ptr d) sm s n = Inr m' \<Longrightarrow> copy_between (m @ ex) (Ptr d) sm s n = Inr (m' @ ex)"
  by (auto simp: copy_between_def store_append elim!: bindR_InrE)

lemma wildcopy_append: "LZ4_WILDCOPY m d sm s e = Inr (m', r) \<Longrightarrow> LZ4_WILDCOPY (m @ ex) d sm s e = Inr (m' @ ex, r)"
proof (induction m d sm s e arbitrary: m' r rule: LZ4_WILDCOPY.induct)
  case (1 m d sm s e)
  obtain m1 where m1: "copy_between m (Ptr d) sm (Ptr s) STEPSIZE = Inr m1"
    using 1(2) by (subst (asm) LZ4_WILDCOPY.simps) (auto elim: bindR_InrE)
  show ?case
    using 1 m1 copy_append [OF m1, of ex] by (subst LZ4_WILDCOPY.simps, subst (asm) (2) LZ4_WILDCOPY.simps) (auto split: if_splits)
qed

lemma put_length_append: "put_length m op n = Inr (m', op') \<Longrightarrow> put_length (m @ ex) op n = Inr (m' @ ex, op')"
proof (induction m op n rule: put_length.induct)
  case (1 m op n)
  show ?case
    using 1 by (subst put_length.simps, subst (asm) (2) put_length.simps) (auto simp: put_byte_append split: if_splits elim!: bindR_InrE)
qed

lemma put_match_length_append: "put_match_length m op n = Inr (m', op') \<Longrightarrow> put_match_length (m @ ex) op n = Inr (m' @ ex, op')"
proof (induction m op n rule: put_match_length.induct)
  case (1 m op n)
  show ?case
    using 1 by (subst put_match_length.simps, subst (asm) (2) put_match_length.simps)
      (auto simp: put_byte_append split: if_splits elim!: bindR_InrE)
qed


lemmas append_simps = store_append read_append put_byte_append copy_append wildcopy_append put_length_append put_match_length_append

lemma encode_literals_append:
  "encode_literals src anchor ip lim olimit m token = Inr r \<Longrightarrow>
   encode_literals src anchor ip lim olimit (m @ ex) token = Inr (map_option (\<lambda>(m', x). (m' @ ex, x)) r)"
  unfolding encode_literals_def Let_def
  by (auto simp: append_simps split: if_splits elim!: bindR_InrE)

lemma encode_match_append:
  "encode_match src mlimit ip ref lim olimit m token op = Inr (m', r) \<Longrightarrow>
   encode_match src mlimit ip ref lim olimit (m @ ex) token op = Inr (m' @ ex, r)"
  unfolding encode_match_def Let_def
  by (auto simp: append_simps split: if_splits elim!: bindR_InrE)

lemma last_literals_append:
  "last_literals src iend anchor lim maxout m op = Inr (r, m') \<Longrightarrow>
   last_literals src iend anchor lim maxout (m @ ex) op = Inr (r, m' @ ex)"
  unfolding last_literals_def Let_def
  by (auto simp: append_simps split: if_splits elim!: bindR_InrE)

fun more_room :: "bytes \<Rightarrow> point \<Rightarrow> point" where
  "more_room ex (Head anchor ip h tab dst op) = Head anchor ip h tab (dst @ ex) op"
| "more_room ex (NextMatch ip ref tab dst token op) = NextMatch ip ref tab (dst @ ex) token op"
| "more_room ex (Return r dst) = Return r (dst @ ex)"

lemma from_head_append:
  "from_head src ty iend lim olimit anchor ip h tab m op = Inr p \<Longrightarrow>
   from_head src ty iend lim olimit anchor ip h tab (m @ ex) op = Inr (more_room ex p)"
  unfolding from_head_def
  by (auto simp: last_literals_append encode_literals_append split: option.splits elim!: bindR_InrE)

lemma next_position_append:
  "next_position src ty iend lim olimit ip tab m op = Inr p \<Longrightarrow>
   next_position src ty iend lim olimit ip tab (m @ ex) op = Inr (more_room ex p)"
  unfolding next_position_def
  by (auto simp: put_byte_append last_literals_append split: if_splits elim!: bindR_InrE)

lemma from_match_append:
  "from_match src ty iend lim olimit ip ref tab m token op = Inr p \<Longrightarrow>
   from_match src ty iend lim olimit ip ref tab (m @ ex) token op = Inr (more_room ex p)"
  unfolding from_match_def
  by (auto simp: next_position_append encode_match_append split: option.splits elim!: bindR_InrE)

lemma main_loop_append:
  "main_loop fuel src ty iend lim olimit p = Inr (r, m) \<Longrightarrow> main_loop fuel src ty iend lim olimit (more_room ex p) = Inr (r, m @ ex)"
  by (induction fuel src ty iend lim olimit p arbitrary: r m rule: main_loop.induct)
    (auto simp: from_head_append from_match_append elim!: bindR_InrE)

lemma compress_append:
  "LZ4_compress src m n = Inr (r, m') \<Longrightarrow> LZ4_compress src (m @ ex) n = Inr (r, m' @ ex)"
  unfolding LZ4_compress_def LZ4_compress_generic_def
  using main_loop_append [of _ _ _ _ _ _ "Head 0 1 h tab m 0" r m' ex for h tab]
  by (auto simp: last_literals_append split: if_splits elim!: bindR_InrE)

text \<open>What is returned is inside the buffer.\<close>

lemma put_byte_bound: "put_byte m op v = Inr m' \<Longrightarrow> length m' = length m \<and> op + 1 \<le> int (length m)"
  by (auto simp: put_byte_def store_def split: if_splits)

lemma put_length_bound: "put_length m op n = Inr (m', op') \<Longrightarrow> length m' = length m \<and> op' \<le> int (length m)"
proof (induction m op n rule: put_length.induct)
  case (1 m op n)
  show ?case
  proof (cases "n \<ge> 255")
    case True
    then obtain x where x: "put_byte m op 255 = Inr x" "put_length x (op + 1) (n - 255) = Inr (m', op')"
      using 1(2) by (subst (asm) put_length.simps) (auto elim!: bindR_InrE)
    then show ?thesis using 1(1) [OF True x] put_byte_bound [OF x(1)] by simp
  next
    case False
    then show ?thesis using 1(2) by (subst (asm) put_length.simps) (auto elim!: bindR_InrE dest: put_byte_bound)
  qed
qed

lemma last_literals_bound:
  assumes "last_literals src iend anchor lim maxout m op = Inr (r, m')"
  shows "r \<le> int (length m')"
proof (cases "r = 0")
  case False
  define l where "l = nat (iend - anchor)"
  obtain m2 op2 where w: "(if l \<ge> RUN_MASK then bindR (put_byte m op (RUN_MASK * 16)) (\<lambda>dst1. put_length dst1 (op + 1) (l - RUN_MASK))
      else bindR (put_byte m op (l * 16)) (\<lambda>dst1. Inr (dst1, op + 1))) = Inr (m2, op2)"
    "copy_between m2 (Ptr op2) src (Ptr anchor) l = Inr m'" "r = op2 + int l"
    using assms False unfolding last_literals_def Let_def l_def [symmetric] by (force split: if_split_asm elim!: bindR_InrE)
  have "op2 \<le> int (length m2)"
    using w(1) by (auto split: if_splits elim!: bindR_InrE dest: put_length_bound put_byte_bound)
  then show ?thesis using w(2,3) by (auto simp: copy_between_def load_def store_def split: if_splits elim!: bindR_InrE)
qed simp

lemma from_head_bound: "from_head src ty iend lim olimit anchor ip h tab dst op = Inr (Return r m) \<Longrightarrow> r \<le> int (length m)"
  unfolding from_head_def by (auto split: option.splits elim!: bindR_InrE dest: last_literals_bound simp del: find_match.simps)

lemma from_match_bound: "from_match src ty iend lim olimit ip ref tab dst token op = Inr (Return r m) \<Longrightarrow> r \<le> int (length m)"
  unfolding from_match_def next_position_def
  by (auto split: option.splits if_splits elim!: bindR_InrE) (erule last_literals_bound)

lemma main_loop_bound:
  "main_loop fuel src ty iend lim olimit p = Inr (r, m) \<Longrightarrow> (\<And>r' m'. p = Return r' m' \<Longrightarrow> r' \<le> int (length m')) \<Longrightarrow> r \<le> int (length m)"
  by (induction fuel src ty iend lim olimit p arbitrary: r m rule: main_loop.induct)
    (auto elim!: bindR_InrE dest: from_head_bound from_match_bound)

lemma compress_bound: "LZ4_compress src m n = Inr (r, m') \<Longrightarrow> r \<le> int (length m')"
  unfolding LZ4_compress_def LZ4_compress_generic_def
  by (auto split: if_splits elim!: bindR_InrE dest: last_literals_bound main_loop_bound)

lemma compress_into:
  assumes "LZ4_compress source dest (int n) = Inr (r, c)" and "n \<le> LZ4_MAX_INPUT_SIZE" and "n \<le> length source"
  obtains qs lits where "r = int (length (block_bytes qs lits))" and "take (nat r) c = block_bytes qs lits"
    and "expand [] qs @ lits = take n source" and "block_ok n [] qs" and "length c = length dest"
    and "r \<le> LZ4_compressBound (int n)" and "r \<le> int (length dest)"
proof -
  let ?ex = "replicate (nat (LZ4_compressBound (int n))) 0"
  have "0 \<le> LZ4_compressBound (int n)" by (simp add: LZ4_compressBound_def)
  then obtain r' c' qs lits where b: "LZ4_compress source (dest @ ?ex) (int n) = Inr (r', c')" "length c' = length (dest @ ?ex)" "0 < r'"
    "take (nat r') c' = block_bytes qs lits" "expand [] qs @ lits = take n source" "block_ok n [] qs"
    "r' \<le> LZ4_compressBound (int n)"
    using compress_block [OF assms(2,3), of "dest @ ?ex"] by auto
  have e: "r' = r" "c' = c @ ?ex" using compress_append [OF assms(1), of ?ex] b(1) by simp_all
  have le: "r \<le> int (length c)" by (rule compress_bound [OF assms(1)])
  then have t: "take (nat r) c = block_bytes qs lits" using b(4) e by simp
  moreover have "length (take (nat r) c) = nat r" using le by simp
  ultimately have "r = int (length (block_bytes qs lits))" using b(3) e(1) by simp
  then show thesis using that t b(2,5,6,7) e le by simp
qed

section \<open>The limit of the output\<close>

text \<open>
  An input whose output does not respect the limit: 4 bytes, 4 others, and then both again in an
  order that makes 4 matches follow each other without literals.  The limit is checked before the
  literals and before long match lengths, so none of the 3 bytes of each following match is.
  The evaluation rules reduce the arguments of a sequence before what follows it.
\<close>

definition four_matches :: bytes where
  "four_matches = [1, 2, 3, 4, 5, 6, 7, 8, 5, 6, 7, 8, 1, 2, 3, 4, 1, 2, 3, 4, 5, 6, 7, 8, 9, 9, 9, 9, 9, 9, 9, 9]"

lemma four_matches_reads:
  "length four_matches = 32" "load four_matches (Ptr 0) 8 = Inr [1, 2, 3, 4, 5, 6, 7, 8]"
  "read_le 4 four_matches 0 = Inr 0x04030201" "read_le 4 four_matches 1 = Inr 0x05040302" "read_le 4 four_matches 2 = Inr 0x06050403"
  "read_le 4 four_matches 3 = Inr 0x07060504" "read_le 4 four_matches 4 = Inr 0x08070605" "read_le 4 four_matches 5 = Inr 0x05080706"
  "read_le 4 four_matches 6 = Inr 0x06050807" "read_le 4 four_matches 7 = Inr 0x07060508" "read_le 4 four_matches 8 = Inr 0x08070605"
  "read_le 4 four_matches 9 = Inr 0x01080706" "read_le 4 four_matches 10 = Inr 0x02010807" "read_le 4 four_matches 12 = Inr 0x04030201"
  "read_le 4 four_matches 14 = Inr 0x02010403" "read_le 4 four_matches 16 = Inr 0x04030201" "read_le 4 four_matches 18 = Inr 0x06050403"
  "read_le 4 four_matches 20 = Inr 0x08070605" "read_le 8 four_matches 8 = Inr 0x0403020108070605"
  "read_le 8 four_matches 12 = Inr 0x0403020104030201" "read_le 8 four_matches 4 = Inr 0x0807060508070605"
  "read_le 8 four_matches 16 = Inr 0x0807060504030201" "read_le (Suc 0) four_matches 7 = Inr 8" "read_le (Suc 0) four_matches 3 = Inr 4"
  "read_le 2 four_matches 16 = Inr 0x0201" "read_le 2 four_matches 20 = Inr 0x0605" "read_le (Suc 0) four_matches 16 = Inr 1"
  "read_le (Suc 0) four_matches 20 = Inr 5"
  by (simp_all add: read_le_def load_def four_matches_def)

lemma bindR_weak_cong: "m = m' \<Longrightarrow> bindR m f = bindR m' f"
  by simp

lemma NbCommonBytes_0: "bit v 2 \<Longrightarrow> LZ4_NbCommonBytes v = 0"
  using length_takeWhile_upt(3) [of "bit v" 2 64] by (simp add: LZ4_NbCommonBytes_def)

lemma le_enc_2: "le_enc 2 x = [word_of_nat x, word_of_nat (x div 256)]"
  by (simp add: numeral_2_eq_2)

lemma read_cons:
  "read_le (Suc 0) (x # xs) 0 = Inr (unat x)"
  "numeral k \<le> length xs \<Longrightarrow> read_le (Suc 0) (x # xs) (numeral k) = Inr (unat ((x # xs) ! numeral k))"
proof -
  show "read_le (Suc 0) (x # xs) 0 = Inr (unat x)" by (simp add: read_byte_Suc at_def)
  assume "numeral k \<le> length xs"
  then have "int (numeral k) < int (length (x # xs))" by (simp only: of_nat_less_iff length_Cons less_Suc_eq_le)
  then show "read_le (Suc 0) (x # xs) (numeral k) = Inr (unat ((x # xs) ! numeral k))"
    using read_byte_Suc [of "numeral k" "x # xs"] by (simp add: at_def)
qed

lemma four_matches_count:
  "LZ4_count four_matches 12 8 27 = Inr 0" "LZ4_count four_matches 16 4 27 = Inr 0" "LZ4_count four_matches 20 16 27 = Inr 0"
  "catch_up four_matches 0 8 4 = Inr (8, 4)"
  by (simp_all add: LZ4_count_def count_loop.simps count_tail_def catch_up.simps four_matches_reads NbCommonBytes_0
      cong: bindR_weak_cong if_weak_cong)

lemmas table_simps = LZ4_hashPosition_def LZ4_hashSequence_def u32_def LZ4_putPositionOnHash_def LZ4_putPosition_def
  LZ4_getPositionOnHash_def LZ4_getPosition_def

lemmas fuel_numeral =
  find_match.simps(2) [where fuel = "pred_numeral k" for k, folded numeral_eq_Suc]
  main_loop.simps(4,5) [where fuel = "pred_numeral k" for k, folded numeral_eq_Suc]


end
