(* ===== verification/BlockTransfer.thy ===== *)
theory BlockTransfer
  imports Session Lz4Decode Lz4Encode
begin

text \<open>
  \<^verbatim>\<open>prototype/transfer-compression\<close>: what \<^verbatim>\<open>LZ4_compress\<close> writes, the decompression functions read back,
  and the two programs that send compressed blocks over a socket.
\<close>

section \<open>Compression and decompression together\<close>

lemma decompress_compressed:
  assumes "block_ok n [] qs" and "expand [] qs @ lits = source" and "n = length source"
    and "int n \<le> outputSize" and "outputSize \<le> int (length dest)"
  shows "\<exists>dest'. LZ4_decompress_safe (block_bytes qs lits @ rest) dest (int (length (block_bytes qs lits))) outputSize = Inr (int n, dest') \<and>
           length dest' = length dest \<and> take n dest' = source"
proof -
  have "length (expand [] qs) + length lits = n" using assms(2,3) by auto
  then show ?thesis
    using decompress_block [of n "[]" qs lits noDict True outputSize "int (length (block_bytes qs lits))" dest rest 0] assms
    by (auto simp: LZ4_decompress_safe_def)
qed

text \<open>
  C3: Compressing a block and decompressing the bytes that were written gives the block back, for
  every content up to \<^verbatim>\<open>LZ4_MAX_INPUT_SIZE\<close>: with \<^verbatim>\<open>LZ4_decompress_safe\<close> into any buffer that is large
  enough, and with \<^verbatim>\<open>LZ4_decompress_fast\<close> into one of the exact size, which returns how many bytes
  it has read.
\<close>

theorem lz4_round_trip:
  assumes "length source \<le> LZ4_MAX_INPUT_SIZE" and "LZ4_compressBound (int (length source)) \<le> int (length buffer)"
    and "length source \<le> length dest"
  shows "\<exists>r c. LZ4_compress source buffer (int (length source)) = Inr (r, c) \<and>
           (\<exists>d. LZ4_decompress_safe (take (nat r) c) dest r (int (length dest)) = Inr (int (length source), d) \<and>
              take (length source) d = source) \<and>
           (\<exists>d. LZ4_decompress_fast (take (nat r) c) dest (int (length source)) = Inr (r, d) \<and> take (length source) d = source)"
proof -
  let ?n = "length source"
  obtain r c qs lits where c: "LZ4_compress source buffer (int ?n) = Inr (r, c)" "0 < r" "take (nat r) c = block_bytes qs lits" "length c = length buffer"
    "r \<le> LZ4_compressBound (int ?n)" "expand [] qs @ lits = take ?n source" "block_ok ?n [] qs"
    using compress_block [OF assms(1) order_refl assms(2)] by blast
  have r: "r = int (length (block_bytes qs lits))"
    using arg_cong [OF c(3), of length] c(2,4,5) assms(2) by simp
  have e: "expand [] qs @ lits = source" "length (expand [] qs) + length lits = ?n" using c(6) by (simp, metis length_append take_all_iff order_refl)
  have "\<exists>d. LZ4_decompress_safe (block_bytes qs lits) dest r (int (length dest)) = Inr (int ?n, d) \<and> take ?n d = source"
    using decompress_compressed [OF c(7) e(1) refl, of "int (length dest)" dest "[]"] assms(3) r by auto
  moreover have "\<exists>d. LZ4_decompress_fast (block_bytes qs lits) dest (int ?n) = Inr (r, d) \<and> take ?n d = source"
    using decompress_block [OF c(7) e(2), of withPrefix64k False "int ?n" 0 dest "[]" 0] assms(3) r e(1) by (auto simp: LZ4_decompress_fast_def)
  ultimately show ?thesis using c(1,3) by auto
qed

theorem lz4_round_trip_witness:
  "\<exists>r c. LZ4_compress [1, 2, 3] (replicate 20 0) (int (length [1, 2, 3 :: byte])) = Inr (r, c) \<and>
     (\<exists>d. LZ4_decompress_safe (take (nat r) c) (replicate 5 0) r (int (length (replicate 5 (0 :: byte)))) = Inr (int (length [1, 2, 3 :: byte]), d) \<and>
        take (length [1, 2, 3 :: byte]) d = [1, 2, 3]) \<and>
     (\<exists>d. LZ4_decompress_fast (take (nat r) c) (replicate 5 0) (int (length [1, 2, 3 :: byte])) = Inr (r, d) \<and>
        take (length [1, 2, 3 :: byte]) d = [1, 2, 3])"
  by (rule lz4_round_trip) (simp_all add: LZ4_compressBound_def)

section \<open>The sender\<close>

text \<open>\<^verbatim>\<open>main-client.c\<close>: the block is filled with the numbers from 0 on.\<close>

definition fill_data :: "bytes \<Rightarrow> bytes" where
  "fill_data data = concat (map (le_enc 4) [0..<length data div 4]) @ drop (4 * (length data div 4)) data"

text \<open>
  \<^verbatim>\<open>while ((sent += send(...)) > 0 && sent != compressed_size)\<close>: a failed \<^verbatim>\<open>send\<close> takes 1 off what has been
  sent, so the number of rounds is not bounded and the loop has fuel.
\<close>

fun send_rest :: "nat \<Rightarrow> 'w wire \<Rightarrow> 'w tcp \<Rightarrow> bytes \<Rightarrow> int \<Rightarrow> int \<Rightarrow> (int \<times> 'w tcp) res" where
  "send_rest 0 W t compressed compressed_size sent = Inl OutOfFuel"
| "send_rest (Suc fuel) W t compressed compressed_size sent =
     bindR (load compressed (Ptr sent) (nat (compressed_size - sent))) (\<lambda>data.
     let r = c_send W t data; sent1 = sent + fst r in
     if sent1 > 0 \<and> sent1 \<noteq> compressed_size then send_rest fuel W (snd r) compressed compressed_size sent1 else Inr (sent1, snd r))"

definition int_bytes :: "int \<Rightarrow> bytes" where
  "int_bytes i = le_enc 4 (nat (i mod 2 ^ 32))"

definition send_block :: "nat \<Rightarrow> 'w wire \<Rightarrow> 'w tcp \<Rightarrow> bytes \<Rightarrow> bytes \<Rightarrow> int \<Rightarrow> (bytes \<times> 'w tcp) res" where
  "send_block fuel W t data compressed block_size =
     bindR (LZ4_compress data compressed block_size) (\<lambda>(compressed_size, compressed1).
     let t1 = snd (c_send W t (int_bytes block_size)); t2 = snd (c_send W t1 (int_bytes compressed_size)) in
     bindR (send_rest fuel W t2 compressed1 compressed_size 0) (\<lambda>(sent, t3). Inr (compressed1, t3)))"

fun send_blocks :: "nat \<Rightarrow> nat \<Rightarrow> 'w wire \<Rightarrow> 'w tcp \<Rightarrow> bytes \<Rightarrow> bytes \<Rightarrow> int \<Rightarrow> 'w tcp res" where
  "send_blocks 0 fuel W t data compressed block_size = Inr t"
| "send_blocks (Suc n) fuel W t data compressed block_size =
     bindR (send_block fuel W t data compressed block_size) (\<lambda>(compressed1, t1). send_blocks n fuel W t1 data compressed1 block_size)"

text \<open>One round of \<^verbatim>\<open>main\<close>, with the contents \<^verbatim>\<open>malloc\<close> gave; nothing where there is no connection.\<close>

definition client_round :: "nat \<Rightarrow> 'a resolver \<Rightarrow> 'w wire \<Rightarrow> 'w tcp \<Rightarrow> (nat \<Rightarrow> bytes) \<Rightarrow> 'w tcp option res" where
  "client_round fuel R W t fresh =
     (let rounds = 1000; block_size = 655360; data = fill_data (fresh block_size); compressed = fresh block_size;
          sock = fst (socket_connect R ''localhost'' 9087)
      in if sock = - 1 then Inr None
         else bindR (send_blocks rounds fuel W t data compressed (int block_size)) (\<lambda>t1. Inr (Some (socket_close t1))))"

section \<open>The receiver\<close>

text \<open>
  \<^verbatim>\<open>main.c\<close>: \<^verbatim>\<open>recv(client, &size, sizeof(size), 0)\<close> with its result ignored, so that bytes that did not
  come stay 0.
\<close>

definition recv_int :: "'w wire \<Rightarrow> 'w tcp \<Rightarrow> (int \<times> 'w tcp) res" where
  "recv_int W t =
     bindR (c_recv W t 4) (\<lambda>(k, bs, t1). Inr (s32 (int (le_dec (bs @ drop (length bs) (replicate 4 0)))), t1))"

fun recv_rest :: "nat \<Rightarrow> 'w wire \<Rightarrow> 'w tcp \<Rightarrow> bytes \<Rightarrow> int \<Rightarrow> int \<Rightarrow> (int \<times> bytes \<times> 'w tcp) res" where
  "recv_rest 0 W t compress_data compress_size got = Inl OutOfFuel"
| "recv_rest (Suc fuel) W t compress_data compress_size got =
     bindR (c_recv W t (nat (compress_size - got))) (\<lambda>(k, bs, t1).
     bindR (store compress_data (Ptr got) bs) (\<lambda>compress_data1.
       if got + k > 0 \<and> got + k \<noteq> compress_size then recv_rest fuel W t1 compress_data1 compress_size (got + k)
       else Inr (got + k, compress_data1, t1)))"

text \<open>
  One block.  \<^verbatim>\<open>malloc\<close> of a negative size fails, which is not checked: \<^verbatim>\<open>recv\<close> into the null pointer then
  returns -1, and only with \<^verbatim>\<open>compress_size\<close> -1 the program goes on to read from it.  The block that
  was decoded is returned, or nothing where the loop is left.
\<close>

definition receive_block :: "nat \<Rightarrow> 'w wire \<Rightarrow> 'w tcp \<Rightarrow> (nat \<Rightarrow> bytes) \<Rightarrow> ((int \<times> bytes) option \<times> 'w tcp) res" where
  "receive_block fuel W t fresh =
     bindR (recv_int W t) (\<lambda>(block_size, t1).
     bindR (recv_int W t1) (\<lambda>(compress_size, t2).
       let data = (if block_size < 0 then [] else fresh (nat block_size)) in
       if compress_size < 0 then
         if compress_size \<noteq> - 1 then Inr (None, t2) else if block_size = 0 then Inr (Some (block_size, data), t2) else Inl NullDeref
       else
         bindR (recv_rest fuel W t2 (fresh (nat compress_size)) compress_size 0) (\<lambda>(got, compress_data, t3).
           if got \<noteq> compress_size \<or> got = 0 then Inr (None, t3)
           else bindR (LZ4_decompress_safe compress_data data compress_size block_size) (\<lambda>(r, data1). Inr (Some (block_size, data1), t3)))))"

text \<open>How often the check of a block prints \<^verbatim>\<open>ERROR\<close>.\<close>

definition mismatches :: "int \<Rightarrow> bytes \<Rightarrow> nat" where
  "mismatches block_size data = length (filter (\<lambda>i. le_dec (take 4 (drop (4 * i) data)) \<noteq> i) [0..<nat block_size div 4])"

text \<open>All blocks of a connection, until the loop is left.\<close>

fun serve_blocks :: "nat \<Rightarrow> nat \<Rightarrow> 'w wire \<Rightarrow> 'w tcp \<Rightarrow> (nat \<Rightarrow> bytes) \<Rightarrow> (nat list \<times> 'w tcp) res" where
  "serve_blocks 0 fuel W t fresh = Inl OutOfFuel"
| "serve_blocks (Suc rounds) fuel W t fresh =
     bindR (receive_block fuel W t fresh) (\<lambda>(block, t1).
     case block of
       None \<Rightarrow> Inr ([], t1)
     | Some (block_size, data) \<Rightarrow>
         bindR (serve_blocks rounds fuel W t1 fresh) (\<lambda>(errors, t2). Inr (mismatches block_size data # errors, t2)))"

section \<open>The test\<close>

text \<open>\<^verbatim>\<open>test_lz4\<close>: the contents of a file, compressed and decompressed \<open>n\<close> times; \<open>- 1\<close> where they differ.\<close>

fun test_loop :: "nat \<Rightarrow> bytes \<Rightarrow> bytes \<Rightarrow> bytes \<Rightarrow> int res" where
  "test_loop 0 data compressed decompressed = Inr 0"
| "test_loop (Suc n) data compressed decompressed =
     bindR (LZ4_compress data compressed (int (length data))) (\<lambda>(compressed_size, compressed1).
     bindR (LZ4_decompress_safe compressed1 decompressed compressed_size (int (length data))) (\<lambda>(r, decompressed1).
       if take (length data) decompressed1 \<noteq> data then Inr (- 1) else test_loop n data compressed1 decompressed1))"

section \<open>A transfer\<close>

text \<open>
  A frame is the two sizes and a block that stands for \<open>source\<close>.  A connection on which the 4 bytes of a number are never cut: the programs do not look at how
  many bytes of them \<^verbatim>\<open>send\<close> and \<^verbatim>\<open>recv\<close> have moved.
\<close>

lemma le_dec_zeros: "le_dec (replicate n 0) = 0"
  by (induction n) auto

definition frame_of :: "bytes \<Rightarrow> bytes \<Rightarrow> bool" where
  "frame_of source f \<longleftrightarrow>
     (\<exists>qs lits. f = int_bytes (int (length source)) @ int_bytes (int (length (block_bytes qs lits))) @ block_bytes qs lits \<and>
        expand [] qs @ lits = source \<and> block_ok (length source) [] qs \<and> length source < 2 ^ 31 \<and> length (block_bytes qs lits) < 2 ^ 31)"

locale whole_ints = transport +
  assumes send_int: "send_count W k 4 = 4"
    and recv_int_whole: "recv_count W k 4 = 4"
begin

lemma send_int_bytes: "c_send W t (int_bytes i) = (4, t\<lparr>sends := Suc (sends t), peer := peer_step W (peer t) (int_bytes i)\<rparr>)"
  by (simp add: c_send_def send_int int_bytes_def)

lemma recv_int_bytes:
  assumes "arrived W t = int_bytes i @ rest" and "0 \<le> i" and "i < 2 ^ 31"
  obtains t' where "recv_int W t = Inr (i, t')" and "arrived W t' = rest" and "peer t' = peer t"
proof -
  let ?t = "t\<lparr>taken := taken t + 4, recvs := Suc (recvs t)\<rparr>"
  have l: "length (int_bytes i) = 4" by (simp add: int_bytes_def)
  have "c_recv W t 4 = Inr (4, int_bytes i, ?t)"
    using assms(1) l recv_int_whole by (cases "int_bytes i") (simp_all add: c_recv_def Let_def)
  moreover have "s32 (int (le_dec (int_bytes i @ drop (length (int_bytes i)) (replicate 4 0)))) = i"
    using assms(2,3) by (simp add: l) (simp add: int_bytes_def le_dec_enc s32_id)
  moreover have "arrived W ?t = rest" using assms(1) l by (simp add: arrived_def add.commute [of _ 4]) (metis append_eq_conv_conj drop_drop)
  ultimately show thesis using that [of ?t] by (simp add: recv_int_def l)
qed

lemma send_rest_pieces:
  assumes "0 \<le> sent" and "sent < compressed_size" and "compressed_size \<le> int (length m)" and "compressed_size - sent \<le> int fuel"
  shows "\<exists>t' ds. send_rest fuel W t m compressed_size sent = Inr (compressed_size, t') \<and>
           concat ds = take (nat (compressed_size - sent)) (drop (nat sent) m) \<and> peer t' = fold (\<lambda>d w. peer_step W w d) ds (peer t)"
  using assms
proof (induction fuel arbitrary: t sent)
  case (Suc fuel)
  define data where "data = take (nat (compressed_size - sent)) (drop (nat sent) m)"
  have len: "int (length data) = compressed_size - sent" using Suc.prems by (simp add: data_def)
  define k where "k = nat (send_count W (sends t) (length data))"
  have c: "0 < send_count W (sends t) (length data) \<and> send_count W (sends t) (length data) \<le> int (length data)"
    using Suc.prems(2) len by (intro send_some) linarith
  then have k: "0 < k" "k \<le> length data" by (simp_all add: k_def nat_le_iff)
  define t1 where "t1 = t\<lparr>sends := Suc (sends t), peer := peer_step W (peer t) (take k data)\<rparr>"
  have ld: "load m (Ptr sent) (nat (compressed_size - sent)) = Inr data"
    using load_ok [of sent "nat (compressed_size - sent)" m] Suc.prems by (simp add: data_def)
  have cs: "c_send W t data = (int k, t1)" using c by (simp add: c_send_def Let_def k_def t1_def)
  show ?case
  proof (cases "sent + int k = compressed_size")
    case True
    then have "take k data = data" using len by simp
    then show ?thesis
      using ld cs True Suc.prems k by (intro exI [of _ t1] exI [of _ "[data]"]) (simp add: Let_def t1_def data_def)
  next
    case False
    have rest: "take (nat (compressed_size - (sent + int k))) (drop (nat (sent + int k)) m) = drop k data"
    proof -
      have "nat (compressed_size - (sent + int k)) = nat (compressed_size - sent) - k" "nat (sent + int k) = k + nat sent"
        using Suc.prems(1) by linarith+
      then show ?thesis by (simp only: data_def drop_take drop_drop)
    qed
    obtain t' ds where r: "send_rest fuel W t1 m compressed_size (sent + int k) = Inr (compressed_size, t')"
      "concat ds = drop k data" "peer t' = fold (\<lambda>d w. peer_step W w d) ds (peer t1)"
      using Suc.IH [of "sent + int k" t1] Suc.prems k len False unfolding rest by auto
    have "concat (take k data # ds) = data" using r(2) by simp
    then show ?thesis using ld cs False Suc.prems k r(1,3)
      by (intro exI [of _ t'] exI [of _ "take k data # ds"]) (simp add: Let_def t1_def data_def)
  qed
qed simp

lemma c_recv_some_bytes:
  assumes "arrived W t = bs @ rest" and "bs \<noteq> []"
  obtains k t' where "c_recv W t (length bs) = Inr (int k, take k bs, t')" and "0 < k" and "k \<le> length bs"
    and "arrived W t' = drop k bs @ rest" and "peer t' = peer t"
proof -
  define k where "k = nat (recv_count W (recvs t) (length bs))"
  have k: "0 < k" "k \<le> length bs" "0 < recv_count W (recvs t) (length bs)" using recv_some [of "length bs" "recvs t"] assms(2) by (auto simp: k_def)
  let ?t = "t\<lparr>taken := taken t + k, recvs := Suc (recvs t)\<rparr>"
  have "c_recv W t (length bs) = Inr (int k, take k bs, ?t)"
    using assms k by (simp add: c_recv_def Let_def min_absorb1 flip: k_def)
  moreover have "arrived W ?t = drop k (arrived W t)" by (simp add: arrived_def add.commute)
  ultimately show thesis using that k assms(1) by simp
qed

lemma recv_rest_exact:
  assumes "arrived W t = bs @ rest" and "bs \<noteq> []" and "length pre + length bs = length buf" and "take (length pre) buf = pre"
    and "length bs \<le> fuel"
  shows "\<exists>t'. recv_rest fuel W t buf (int (length buf)) (int (length pre)) = Inr (int (length buf), pre @ bs, t') \<and>
           arrived W t' = rest \<and> peer t' = peer t"
  using assms
proof (induction fuel arbitrary: t bs pre buf)
  case (Suc fuel)
  obtain k t1 where k: "c_recv W t (length bs) = Inr (int k, take k bs, t1)" "0 < k" "k \<le> length bs" "arrived W t1 = drop k bs @ rest"
    "peer t1 = peer t"
    using c_recv_some_bytes [OF Suc.prems(1,2)] .
  let ?buf = "pre @ take k bs @ drop (length pre + k) buf"
  have n: "nat (int (length buf) - int (length pre)) = length bs" using Suc.prems(3) by simp
  have st: "store buf (Ptr (int (length pre))) (take k bs) = Inr ?buf"
    using k(2,3) Suc.prems(2-4) by (simp add: store_def min_absorb2)
  show ?case
  proof (cases "k = length bs")
    case True
    then show ?thesis using k st n Suc.prems(3) by (simp add: min_absorb2)
  next
    case False
    have "\<exists>t'. recv_rest fuel W t1 ?buf (int (length ?buf)) (int (length (pre @ take k bs))) = Inr (int (length ?buf), (pre @ take k bs) @ drop k bs, t') \<and>
        arrived W t' = rest \<and> peer t' = peer t1"
      by (rule Suc.IH) (use k False Suc.prems in auto)
    moreover have "length ?buf = length buf" "length (take k bs) = k" using k(3) Suc.prems(3) by simp_all
    ultimately show ?thesis using k st n False Suc.prems(3) by auto
  qed
qed simp

lemma receive_frame:
  assumes a: "arrived W t = frame @ rest" and f: "frame_of source frame" and fresh: "\<And>n. length (fresh n) = n" and "length frame \<le> fuel"
  obtains t' where "receive_block fuel W t fresh = Inr (Some (int (length source), source), t')" and "arrived W t' = rest" and "peer t' = peer t"
proof -
  let ?n = "int (length source)"
  obtain qs lits where q: "frame = int_bytes ?n @ int_bytes (int (length (block_bytes qs lits))) @ block_bytes qs lits"
    "expand [] qs @ lits = source" "block_ok (length source) [] qs" "length source < 2 ^ 31" "length (block_bytes qs lits) < 2 ^ 31"
    using f by (auto simp: frame_of_def)
  let ?b = "block_bytes qs lits"
  have ne: "?b \<noteq> []" using length_block_bytes_pos [of qs lits] by auto
  obtain t1 where t1: "recv_int W t = Inr (?n, t1)" "arrived W t1 = int_bytes (int (length ?b)) @ ?b @ rest" "peer t1 = peer t"
    by (rule recv_int_bytes [of t ?n "int_bytes (int (length ?b)) @ ?b @ rest"]) (use a q(1,4) in auto)
  obtain t2 where t2: "recv_int W t1 = Inr (int (length ?b), t2)" "arrived W t2 = ?b @ rest" "peer t2 = peer t1"
    by (rule recv_int_bytes [OF t1(2)]) (use q(5) in auto)
  obtain t3 where t3: "recv_rest fuel W t2 (fresh (length ?b)) (int (length ?b)) 0 = Inr (int (length ?b), ?b, t3)" "arrived W t3 = rest" "peer t3 = peer t2"
    using recv_rest_exact [OF t2(2) ne, of "[]" "fresh (length ?b)" fuel] fresh assms(4) q(1) by auto
  obtain d where d: "LZ4_decompress_safe ?b (fresh (length source)) (int (length ?b)) ?n = Inr (?n, d)" "length d = length source" "take (length source) d = source"
    using decompress_compressed [OF q(3,2) refl, of ?n "fresh (length source)" "[]"] fresh by auto
  have "d = source" using d(2,3) by simp
  then have "receive_block fuel W t fresh = Inr (Some (?n, source), t3)"
    using t1(1) t2(1) t3(1) d(1) ne by (simp add: receive_block_def)
  then show thesis using that t3(2,3) t2(3) t1(3) by simp
qed

lemma receive_end:
  assumes "arrived W t = []" and "peer_closed W (peer t)" and fresh: "\<And>n. length (fresh n) = n" and "0 < fuel"
  obtains t' where "receive_block fuel W t fresh = Inr (None, t')"
proof -
  have "recv_int W t = Inr (0, t\<lparr>recvs := Suc (recvs t)\<rparr>)" if "arrived W t = []" "peer_closed W (peer t)" for t
    using that by (simp add: recv_int_def c_recv_def s32_def le_dec_zeros)
  moreover have "arrived W (t\<lparr>recvs := k\<rparr>) = []" for k using assms(1) by (simp add: arrived_def)
  moreover obtain f where "fuel = Suc f" using assms(4) by (cases fuel) auto
  ultimately have "receive_block fuel W t fresh = Inr (None, t\<lparr>recvs := Suc (Suc (Suc (recvs t)))\<rparr>)"
    using assms(1,2) by (simp add: receive_block_def c_recv_def store_def)
  then show thesis by (rule that)
qed

lemma serve_frames:
  assumes "arrived W t = concat frames" and "\<And>f. f \<in> set frames \<Longrightarrow> frame_of source f \<and> length f \<le> fuel" and "peer_closed W (peer t)"
    and fresh: "\<And>n. length (fresh n) = n" and "length frames < rounds" and "0 < fuel"
  shows "\<exists>t'. serve_blocks rounds fuel W t fresh = Inr (replicate (length frames) (mismatches (int (length source)) source), t')"
  using assms(1,2,3,5)
proof (induction frames arbitrary: t rounds)
  case Nil
  then obtain r where r: "rounds = Suc r" by (cases rounds) auto
  obtain t' where "receive_block fuel W t fresh = Inr (None, t')" using receive_end [OF _ Nil.prems(3) fresh assms(6)] Nil.prems(1) by auto
  then show ?case using r by simp
next
  case (Cons f fs)
  then obtain r where r: "rounds = Suc r" by (cases rounds) auto
  obtain t1 where t1: "receive_block fuel W t fresh = Inr (Some (int (length source), source), t1)" "arrived W t1 = concat fs" "peer t1 = peer t"
    by (rule receive_frame [of t f "concat fs" source fresh fuel]) (use Cons.prems fresh in auto)
  obtain t2 where "serve_blocks r fuel W t1 fresh = Inr (replicate (length fs) (mismatches (int (length source)) source), t2)"
    using Cons.IH [OF t1(2), of r] Cons.prems t1(3) r by auto
  then show ?case using r t1(1) by simp
qed

lemma send_frame:
  assumes "LZ4_compress source compressed (int (length source)) = Inr (r, c)" and "length source \<le> LZ4_MAX_INPUT_SIZE" and "length compressed \<le> fuel"
  obtains t' ds where "send_block fuel W t source compressed (int (length source)) = Inr (c, t')" and "frame_of source (concat ds)"
    and "peer t' = fold (\<lambda>d w. peer_step W w d) ds (peer t)" and "length c = length compressed" and "length (concat ds) \<le> length compressed + 8"
proof -
  let ?n = "int (length source)"
  obtain qs lits where q: "r = int (length (block_bytes qs lits))" "take (nat r) c = block_bytes qs lits" "expand [] qs @ lits = take (length source) source"
    "block_ok (length source) [] qs" "length c = length compressed" "r \<le> LZ4_compressBound ?n" "r \<le> int (length compressed)"
    using compress_into [OF assms(1,2) order_refl] .
  have r: "0 < r" "r < 2 ^ 31" "?n < 2 ^ 31" using q(1,6) length_block_bytes_pos [of qs lits] assms(2) by (auto simp: LZ4_compressBound_def)
  define t1 where "t1 = snd (c_send W t (int_bytes ?n))"
  define t2 where "t2 = snd (c_send W t1 (int_bytes r))"
  obtain t3 ds where d: "send_rest fuel W t2 c r 0 = Inr (r, t3)" "concat ds = take (nat (r - 0)) (drop (nat 0) c)" "peer t3 = fold (\<lambda>d w. peer_step W w d) ds (peer t2)"
    using send_rest_pieces [of 0 r c fuel t2] r q(5,7) assms(3) by auto
  let ?ds = "int_bytes ?n # int_bytes r # ds"
  have l: "length (int_bytes i) = 4" for i by (simp add: int_bytes_def)
  have "send_block fuel W t source compressed ?n = Inr (c, t3)"
    using assms(1) d(1) by (simp add: send_block_def Let_def t1_def t2_def)
  moreover have "frame_of source (concat ?ds)"
    unfolding frame_of_def using d(2) q r by (intro exI [of _ qs] exI [of _ lits]) auto
  moreover have "peer t3 = fold (\<lambda>d w. peer_step W w d) ?ds (peer t)"
    using d(3) by (simp add: t1_def t2_def send_int_bytes)
  moreover have "length (concat ?ds) \<le> length compressed + 8" using d(2) q(5,7) l by simp
  ultimately show thesis using that q(5) by blast
qed

lemma send_frames:
  assumes "\<And>c. length c = length compressed \<Longrightarrow> \<exists>x. LZ4_compress source c (int (length source)) = Inr x"
    and "length source \<le> LZ4_MAX_INPUT_SIZE" and "length compressed \<le> fuel"
  shows "\<exists>t' ds frames. send_blocks n fuel W t source compressed (int (length source)) = Inr t' \<and> concat ds = concat frames \<and>
           length frames = n \<and> (\<forall>f \<in> set frames. frame_of source f \<and> length f \<le> length compressed + 8) \<and>
           peer t' = fold (\<lambda>d w. peer_step W w d) ds (peer t)"
  using assms
proof (induction n arbitrary: t compressed)
  case 0
  then show ?case by (intro exI [of _ t] exI [of _ "[]"]) auto
next
  case (Suc n)
  obtain r c where "LZ4_compress source compressed (int (length source)) = Inr (r, c)" using Suc.prems(1) by fastforce
  then obtain t1 ds where s: "send_block fuel W t source compressed (int (length source)) = Inr (c, t1)" "frame_of source (concat ds)"
    "peer t1 = fold (\<lambda>d w. peer_step W w d) ds (peer t)" "length c = length compressed" "length (concat ds) \<le> length compressed + 8"
    using send_frame [OF _ Suc.prems(2,3)] by metis
  obtain t' es frames where "send_blocks n fuel W t1 source c (int (length source)) = Inr t'" "concat es = concat frames" "length frames = n"
    "\<forall>f \<in> set frames. frame_of source f \<and> length f \<le> length c + 8" "peer t' = fold (\<lambda>d w. peer_step W w d) es (peer t1)"
    using Suc.IH [of c t1] Suc.prems s(4) by auto
  then show ?case using s by (intro exI [of _ t'] exI [of _ "ds @ es"] exI [of _ "concat ds # frames"]) auto
qed

text \<open>Once the other end has closed, \<^verbatim>\<open>recv\<close> returns 0, and 0 more bytes do not end the loop.\<close>

lemma recv_rest_spins:
  assumes "peer_closed W (peer t)" and "0 \<le> got" and "0 < got \<or> arrived W t \<noteq> []" and "got + int (length (arrived W t)) < size_left"
    and "size_left \<le> int (length buf)"
  shows "recv_rest fuel W t buf size_left got = Inl OutOfFuel"
  using assms
proof (induction fuel arbitrary: t buf got)
  case (Suc fuel)
  show ?case
  proof (cases "arrived W t = []")
    case True
    have "arrived W (t\<lparr>recvs := Suc (recvs t)\<rparr>) = []" using True by (simp add: arrived_def)
    then show ?thesis
      using Suc.IH [of "t\<lparr>recvs := Suc (recvs t)\<rparr>" got buf] Suc.prems True by (simp add: c_recv_def store_def)
  next
    case False
    define n where "n = nat (size_left - got)"
    define a where "a = arrived W t"
    have n: "length a < n" "min n (length a) = length a" using Suc.prems(4) by (auto simp: n_def a_def)
    define k where "k = nat (recv_count W (recvs t) (length a))"
    have k: "0 < k" "k \<le> length a" "0 < recv_count W (recvs t) (length a)"
      using recv_some [of "length a" "recvs t"] False by (auto simp: k_def a_def)
    let ?t = "t\<lparr>taken := taken t + k, recvs := Suc (recvs t)\<rparr>"
    have r: "c_recv W t n = Inr (int k, take k a, ?t)"
      using False k n by (simp add: c_recv_def Let_def flip: a_def) (simp add: min_absorb1 flip: k_def)
    have a1: "arrived W ?t = drop k a" by (simp add: arrived_def a_def add.commute)
    obtain b where b: "store buf (Ptr got) (take k a) = Inr b" "length b = length buf"
      using store_ok [of got "take k a" buf] Suc.prems k n by (auto simp: a_def)
    have "recv_rest fuel W ?t b size_left (got + int k) = Inl OutOfFuel"
      by (rule Suc.IH) (use Suc.prems k a1 b(2) in \<open>auto simp: a_def\<close>)
    then show ?thesis using r b(1) k Suc.prems(2,4) by (simp add: n_def a_def)
  qed
qed simp

lemma cut_block_spins:
  assumes "arrived W t = int_bytes i @ int_bytes j @ part" and "peer_closed W (peer t)" and "0 < length part" and "int (length part) < j"
    and "0 \<le> i" and "i < 2 ^ 31" and "j < 2 ^ 31" and fresh: "\<And>n. length (fresh n) = n"
  shows "receive_block fuel W t fresh = Inl OutOfFuel"
proof -
  obtain t1 where t1: "recv_int W t = Inr (i, t1)" "arrived W t1 = int_bytes j @ part" "peer t1 = peer t"
    using recv_int_bytes [OF assms(1,5,6)] .
  obtain t2 where t2: "recv_int W t1 = Inr (j, t2)" "arrived W t2 = part" "peer t2 = peer t1"
    using recv_int_bytes [OF t1(2)] assms(4,7) by auto
  have "recv_rest fuel W t2 (fresh (nat j)) j 0 = Inl OutOfFuel"
    by (rule recv_rest_spins) (use t1(3) t2(2,3) assms fresh in auto)
  then show ?thesis using t1(1) t2(1) assms(4) by (simp add: receive_block_def)
qed

end

text \<open>Two ends joined by a pipe that takes and gives all it is asked for; the other end keeps what it gets.\<close>

definition pipe :: "bytes wire" where
  "pipe = \<lparr>peer_step = (\<lambda>w d. w @ d), peer_output = (\<lambda>w. w), peer_closed = (\<lambda>w. True),
     send_count = (\<lambda>_ n. int n), recv_count = (\<lambda>_ n. int n), alloc_ok = (\<lambda>_. True)\<rparr>"

interpretation pipe: whole_ints pipe
  by unfold_locales (simp_all add: pipe_def)

lemma fold_append: "fold (\<lambda>d w. w @ d) ds w = w @ concat ds"
  by (induction ds arbitrary: w) auto

lemma mismatches_fill: "length data < 2 ^ 32 \<Longrightarrow> mismatches (int (length data)) (fill_data data) = 0"
proof -
  assume small: "length data < 2 ^ 32"
  have "le_dec (take 4 (drop (4 * i) (fill_data data))) = i" if "i < length data div 4" for i
  proof -
    let ?c = "map (le_enc 4) [0..<length data div 4]"
    have "all_len 4 ?c" by (auto simp: all_len_def)
    moreover have "nat (int i * 4) = 4 * i" by simp
    ultimately have "take 4 (drop (4 * i) (concat ?c @ drop (4 * (length data div 4)) data)) = ?c ! i"
      using load_record [of 4 ?c i "[]" "drop (4 * (length data div 4)) data"] that by (simp add: load_def elem_def mult.commute split: if_splits)
    then show ?thesis using that small by (simp add: fill_data_def le_dec_enc)
  qed
  then show ?thesis by (auto simp: mismatches_def)
qed

lemma length_fill_data: "length (fill_data data) = length data"
proof -
  have "length (concat (map (le_enc 4) xs)) = 4 * length xs" for xs by (induction xs) auto
  then show ?thesis by (simp add: fill_data_def)
qed


definition start :: "bytes tcp" where
  "start = \<lparr>peer = [], taken = 0, sends = 0, recvs = 0, is_open = True\<rparr>"


text \<open>
  C39: a sender that closes its connection in the middle of a block makes the receiver wait for the
  rest for ever, without waiting: every further \<^verbatim>\<open>recv\<close> returns 0 and the loop goes on.
\<close>

theorem cut_transfer_never_ends:
  assumes "\<And>k m. 0 < m \<Longrightarrow> 0 < send_count W k m \<and> send_count W k m \<le> int m" and "\<And>k. send_count W k 4 = 4"
    and "\<And>k m. 0 < m \<Longrightarrow> 0 < recv_count W k m \<and> recv_count W k m \<le> int m" and "\<And>k. recv_count W k 4 = 4"
    and "\<And>k. length (fresh k) = k" and "arrived W t = int_bytes i @ int_bytes j @ part" and "peer_closed W (peer t)"
    and "0 < length part" and "int (length part) < j" and "0 \<le> i" and "i < 2 ^ 31" and "j < 2 ^ 31"
  shows "receive_block fuel W t fresh = Inl OutOfFuel"
proof -
  have "whole_ints W" using assms(1-4) by unfold_locales
  then show ?thesis by (rule whole_ints.cut_block_spins [OF _ assms(6-12,5)])
qed

theorem cut_transfer_never_ends_witness:
  "receive_block 1000 pipe (start\<lparr>peer := int_bytes 8 @ int_bytes 9 @ [0x80, 1]\<rparr>) (\<lambda>k. replicate k 0) = Inl OutOfFuel"
  by (rule cut_transfer_never_ends [of pipe _ _ 8 9 "[0x80, 1]"]) (simp_all add: pipe_def start_def arrived_def)

end
