(* ===== verification/RestServer.thy ===== *)
theory RestServer
  imports Server Console
begin

text \<open>
  \<^verbatim>\<open>prototype/native-rest-api\<close>: a server that answers every client that has finished sending with the
  same HTTP response and then closes the connection.  It is an early version of
  \<^verbatim>\<open>network/server.c\<close> with the same \<^verbatim>\<open>client_t\<close> and \<^verbatim>\<open>server_t\<close>, whose records and functions it shares where
  the text is the same.  The difference is the completion of a write: it is an event of its own, and
  it disconnects the client.
\<close>

section \<open>The server\<close>

text \<open>\<open>pending\<close> are the handles of the clients with a write that libuv has accepted and not completed.\<close>

record rest_server =
  listener :: "unit server"
  pending :: "nat list"

definition die_rest :: "string \<Rightarrow> 'a res" where
  "die_rest msg = Inl (Died msg)"

definition server_create_rest :: "'a net_platform_scheme \<Rightarrow> int \<Rightarrow> rest_server" where
  "server_create_rest P p = \<lparr>listener = server_create P p (), pending = []\<rparr>"

definition client_create_rest :: "'a net_platform_scheme \<Rightarrow> rest_server \<Rightarrow> nat \<Rightarrow> client" where
  "client_create_rest P rs i = client_create P (next_socket (listener rs)) i"

definition client_disconnect_rest :: "rest_server \<Rightarrow> client \<Rightarrow> rest_server res" where
  "client_disconnect_rest rs c = bindR (client_disconnect_and_destroy (listener rs) c) (\<lambda>sv. Inr (rs\<lparr>listener := sv\<rparr>))"

definition on_client_free_rest :: "rest_server \<Rightarrow> nat \<Rightarrow> rest_server" where
  "on_client_free_rest rs sock = rs\<lparr>listener := on_client_free (listener rs) sock\<rparr>"

text \<open>The client a handle belongs to.\<close>

definition client_of :: "'h server \<Rightarrow> nat \<Rightarrow> client option" where
  "client_of sv sock = map_option the (find (\<lambda>x. x \<noteq> None \<and> socket (the x) = sock) (clients sv))"

text \<open>The client has been passed to \<^verbatim>\<open>uv_close\<close> already, or has been freed, when it is not in the table any more.\<close>

definition on_write_complete :: "rest_server \<Rightarrow> nat \<Rightarrow> rest_server res" where
  "on_write_complete rs sock =
     (let rs1 = rs\<lparr>pending := remove1 sock (pending rs)\<rparr> in
      case client_of (listener rs) sock of
        Some c \<Rightarrow> client_disconnect_rest rs1 c
      | None \<Rightarrow> if sock \<in> socket ` set (closing (listener rs)) then Inl DoubleClose else Inl UseAfterFree)"

text \<open>The client in its place of the table, after its fields have changed.\<close>

definition put_client :: "rest_server \<Rightarrow> client \<Rightarrow> rest_server" where
  "put_client rs c = rs\<lparr>listener := (listener rs)\<lparr>clients := (clients (listener rs))[index c := Some c]\<rparr>\<rparr>"

definition client_send_rest :: "'a net_platform_scheme \<Rightarrow> rest_server \<Rightarrow> client \<Rightarrow> bytes \<Rightarrow> (int \<times> rest_server) res" where
  "client_send_rest P rs c data =
     (let status = uv_write_status P (writes c);
          c1 = c\<lparr>writes := Suc (writes c)\<rparr>;
          started = (\<lambda>c. (put_client rs c)\<lparr>pending := pending rs @ [socket c]\<rparr>)
      in if status \<ge> 0 then Inr (0, started (c1\<lparr>sent := sent c @ [data]\<rparr>))
         else bindR (on_write_complete (started c1) (socket c)) (\<lambda>rs1. Inr (status, rs1)))"

definition rest_response :: bytes where
  \<open>rest_response = (let crlf = [CHR 0x0D, CHR 0x0A] in
     ascii (''HTTP/1.1 200 OK'' @ crlf @ ''Content-Type: application/json'' @ crlf @ crlf @ ''{"ala": "ma kota"}'' @ crlf))\<close>

definition on_data_read_rest :: "'a net_platform_scheme \<Rightarrow> rest_server \<Rightarrow> client \<Rightarrow> int \<Rightarrow> bytes \<Rightarrow> rest_server res" where
  "on_data_read_rest P rs c nread data =
     (if nread < 0 then bindR (client_send_rest P rs c rest_response) (\<lambda>(status, rs1). Inr rs1)
      else if nread > 0 then
        bindR (store (buffer c) (Ptr (int (buffer_length c))) (take (nat nread) data)) (\<lambda>buf.
          Inr (put_client rs (c\<lparr>buffer := buf, buffer_length := u64 (buffer_length c + nat nread)\<rparr>)))
      else Inr rs)"

definition on_alloc_rest :: "nat \<Rightarrow> bytes" where
  "on_alloc_rest suggested_size = sdb_alloc SDB_SERVER_READ_BUFFER_MAX_LEN"

definition on_client_connected_rest :: "'a net_platform_scheme \<Rightarrow> rest_server \<Rightarrow> int \<Rightarrow> int \<Rightarrow> int \<Rightarrow> rest_server res" where
  "on_client_connected_rest P rs status accept_status read_status =
     (if status < 0 then Inr rs
      else let i = free_index (clients (listener rs)) in
        if i \<ge> max_clients P then Inr rs
        else let c = client_create_rest P rs i;
                 rs1 = rs\<lparr>listener := (listener rs)\<lparr>clients := (clients (listener rs))[i := Some c],
                                                next_socket := Suc (next_socket (listener rs))\<rparr>\<rparr>
          in bindR (if accept_status < 0 then client_disconnect_rest rs1 c else Inr rs1) (\<lambda>rs2.
               if read_status < 0 then client_disconnect_rest rs2 c else Inr rs2))"

definition server_stop_rest :: "rest_server \<Rightarrow> rest_server" where
  "server_stop_rest rs = rs\<lparr>listener := server_stop (listener rs)\<rparr>"

definition on_server_shutdown_rest :: "rest_server \<Rightarrow> rest_server res" where
  "on_server_shutdown_rest rs = bindR (on_server_shutdown (listener rs)) (\<lambda>sv. Inr (rs\<lparr>listener := sv\<rparr>))"

text \<open>The events of the server, and the completion of a write that is pending.\<close>

datatype rest_event = Loop event | WriteDone nat

fun handle_rest :: "'a net_platform_scheme \<Rightarrow> rest_server \<Rightarrow> rest_event \<Rightarrow> rest_server res" where
  "handle_rest P rs (Loop (Connected status accept_status read_status)) =
     on_client_connected_rest P rs status accept_status read_status"
| "handle_rest P rs (Loop (DataRead i nread data)) =
     (case conn (listener rs) i of None \<Rightarrow> Inr rs | Some c \<Rightarrow> on_data_read_rest P rs c nread data)"
| "handle_rest P rs (Loop (Closed sock)) = Inr (on_client_free_rest rs sock)"
| "handle_rest P rs (Loop StopRequest) = Inr (server_stop_rest rs)"
| "handle_rest P rs (Loop Shutdown) = (if async_open (listener rs) then on_server_shutdown_rest rs else Inr rs)"
| "handle_rest P rs (WriteDone sock) = (if sock \<in> set (pending rs) then on_write_complete rs sock else Inr rs)"

fun rest_loop :: "'a net_platform_scheme \<Rightarrow> rest_server \<Rightarrow> rest_event list \<Rightarrow> rest_server res" where
  "rest_loop P rs [] = Inr rs"
| "rest_loop P rs (e # es) = bindR (handle_rest P rs e) (\<lambda>rs1. rest_loop P rs1 es)"

definition server_run_rest :: "'a net_platform_scheme \<Rightarrow> rest_server \<Rightarrow> rest_event list \<Rightarrow> rest_server res" where
  "server_run_rest P rs events =
     (if uv_bind_status P < 0 then die_rest ''Failed to bind to the master socket''
      else if uv_listen_status P \<noteq> 0 then die_rest ''Failed to listen for incoming clients''
      else bindR (rest_loop P (rs\<lparr>listener := (listener rs)\<lparr>listening := True\<rparr>\<rparr>) events) (\<lambda>rs1.
             if uv_run_status P \<noteq> 0 then die_rest ''Failed to start the main loop'' else Inr rs1))"

definition rest_main :: "'a net_platform_scheme \<Rightarrow> rest_event list \<Rightarrow> rest_server res" where
  "rest_main P events = server_run_rest P (server_create_rest P 8090) events"

lemma rest_loop_append: "rest_loop P rs (es @ es') = bindR (rest_loop P rs es) (\<lambda>rs1. rest_loop P rs1 es')"
  by (induction es arbitrary: rs) (auto simp: bindR_def split: sum.splits)

section \<open>The invariant\<close>

text \<open>The clients table is consistent, and a client with a pending write is in it, with one write only.\<close>

definition rest_ok :: "'a net_platform_scheme \<Rightarrow> rest_server \<Rightarrow> bool" where
  "rest_ok P rs \<longleftrightarrow> server_ok P (listener rs) \<and> distinct (pending rs) \<and>
     (\<forall>s \<in> set (pending rs). \<exists>i c. conn (listener rs) i = Some c \<and> socket c = s)"

lemma rest_okD:
  assumes "rest_ok P rs"
  shows "server_ok P (listener rs)" and "distinct (pending rs)"
    and "s \<in> set (pending rs) \<Longrightarrow> \<exists>i c. conn (listener rs) i = Some c \<and> socket c = s"
  using assms by (auto simp: rest_ok_def)

lemma client_of_conn:
  assumes "server_ok P sv" and "conn sv i = Some c"
  shows "client_of sv (socket c) = Some c"
proof -
  have i: "i < length (clients sv)" "clients sv ! i = Some c" using assms(2) by (auto simp: conn_def split: if_splits)
  have "\<not> (clients sv ! j \<noteq> None \<and> socket (the (clients sv ! j)) = socket c)" if "j < i" for j
    using server_okD(3) [OF assms(1), of j "the (clients sv ! j)" i c] assms(2) that i(1) by (auto simp: conn_def)
  then have "find (\<lambda>x. x \<noteq> None \<and> socket (the x) = socket c) (clients sv) = Some (Some c)"
    using i unfolding find_Some_iff by (intro exI [of _ i]) auto
  then show ?thesis by (simp add: client_of_def)
qed

lemma client_of_None: "(\<And>i. conn sv i = None) \<Longrightarrow> client_of sv sock = None"
  by (simp add: client_of_def find_None_iff in_set_conv_nth conn_def) (metis option.distinct(1))

lemma disconnect_rest_ok:
  assumes "server_ok P (listener rs)" and "conn (listener rs) i = Some c"
  obtains sv where "client_disconnect_rest rs c = Inr (rs\<lparr>listener := sv\<rparr>)" and "server_ok P sv"
    and "conn sv = (conn (listener rs))(i := None)" and "closing sv = c # closing (listener rs)"
proof -
  obtain sv where "client_disconnect_and_destroy (listener rs) c = Inr sv" "server_ok P sv"
    "conn sv = (conn (listener rs))(i := None)" "closing sv = c # closing (listener rs)"
    using disconnect_ok [OF assms] by metis
  then show thesis by (intro that [of sv]) (simp_all add: client_disconnect_rest_def)
qed

lemma put_client_ok:
  assumes "server_ok P (listener rs)" and "conn (listener rs) i = Some c"
    and "index c' = index c" and "socket c' = socket c" and "client_ok P c'"
  shows "server_ok P (listener (put_client rs c'))" and "conn (listener (put_client rs c')) = (conn (listener rs))(i \<mapsto> c')"
    and "pending (put_client rs c') = pending rs" and "closing (listener (put_client rs c')) = closing (listener rs)"
proof -
  have "(clients (listener rs))[index c' := Some c'] = (clients (listener rs))[i := Some c']"
    using server_okD(2) [OF assms(1,2)] assms(3) by simp
  then have "listener (put_client rs c') = (listener rs)\<lparr>handler_context := (), clients := (clients (listener rs))[i := Some c']\<rparr>"
    by (simp add: put_client_def)
  then show "server_ok P (listener (put_client rs c'))" and "conn (listener (put_client rs c')) = (conn (listener rs))(i \<mapsto> c')"
    using server_ok_replace [OF assms, of "()"] by simp_all
qed (simp_all add: put_client_def)

lemma write_complete_ok:
  assumes "rest_ok P rs" and "s \<in> set (pending rs)" and "conn (listener rs) i = Some c" and "socket c = s"
  obtains rs' where "on_write_complete rs s = Inr rs'" and "rest_ok P rs'" and "conn (listener rs') = (conn (listener rs))(i := None)"
    and "closing (listener rs') = c # closing (listener rs)" and "pending rs' = remove1 s (pending rs)"
proof -
  note D = rest_okD [OF assms(1)]
  let ?rs = "rs\<lparr>pending := remove1 s (pending rs)\<rparr>"
  obtain sv where sv: "client_disconnect_rest ?rs c = Inr (?rs\<lparr>listener := sv\<rparr>)" "server_ok P sv"
    "conn sv = (conn (listener rs))(i := None)" "closing sv = c # closing (listener rs)"
    using disconnect_rest_ok [of P ?rs i c] D(1) assms(3) by auto
  have "on_write_complete rs s = Inr (?rs\<lparr>listener := sv\<rparr>)"
    using client_of_conn [OF D(1) assms(3)] assms(4) sv(1) by (simp add: on_write_complete_def Let_def)
  moreover have "rest_ok P (?rs\<lparr>listener := sv\<rparr>)"
    unfolding rest_ok_def
  proof (intro conjI ballI)
    fix s' assume "s' \<in> set (pending (?rs\<lparr>listener := sv\<rparr>))"
    then have s': "s' \<in> set (pending rs)" "s' \<noteq> s" using D(2) by auto
    obtain j d where "conn (listener rs) j = Some d" "socket d = s'" using D(3) [OF s'(1)] by blast
    then show "\<exists>i c. conn (listener (?rs\<lparr>listener := sv\<rparr>)) i = Some c \<and> socket c = s'"
      using sv(3) assms(3,4) s'(2) by (intro exI [of _ j] exI [of _ d]) auto
  qed (use sv(2) D(2) in simp_all)
  ultimately show thesis by (rule that) (simp_all add: sv(3,4))
qed


text \<open>A new connection leaves the others as they are.\<close>

lemma rest_ok_mono:
  assumes "rest_ok P rs" and "server_ok P sv" and "\<And>i c. conn (listener rs) i = Some c \<Longrightarrow> \<exists>c'. conn sv i = Some c' \<and> socket c' = socket c"
  shows "rest_ok P (rs\<lparr>listener := sv\<rparr>)"
  using rest_okD [OF assms(1)] assms(2,3) unfolding rest_ok_def by simp metis

lemma connect_rest_ok:
  assumes "rest_ok P rs" and "\<not> (accept_status < 0 \<and> read_status < 0)"
  shows "\<exists>rs'. on_client_connected_rest P rs status accept_status read_status = Inr rs' \<and> rest_ok P rs'"
proof -
  define i where "i = free_index (clients (listener rs))"
  define c where "c = client_create_rest P rs i"
  define sv where "sv = (listener rs)\<lparr>clients := (clients (listener rs))[i := Some c], next_socket := Suc (next_socket (listener rs))\<rparr>"
  note D = rest_okD [OF assms(1)]
  show ?thesis
  proof (cases "status < 0 \<or> i \<ge> max_clients P")
    case True
    with assms(1) show ?thesis by (auto simp: on_client_connected_rest_def i_def)
  next
    case False
    then have i: "i < length (clients (listener rs))" "conn (listener rs) i = None"
      using server_okD(1) [OF D(1)] free_index_free [of "clients (listener rs)"] by (simp_all add: conn_def i_def)
    have cp: "index c = i" "socket c = next_socket (listener rs)" "client_ok P c"
      by (simp_all add: c_def client_create_rest_def client_create_def client_ok_def)
    note ok1 = server_ok_add [OF D(1) i cp sv_def]
    have r1: "rest_ok P (rs\<lparr>listener := sv\<rparr>)" by (rule rest_ok_mono [OF assms(1) ok1(1)]) (use ok1(2) i(2) in auto)
    obtain sv2 where d: "client_disconnect_rest (rs\<lparr>listener := sv\<rparr>) c = Inr (rs\<lparr>listener := sv2\<rparr>)" "server_ok P sv2"
      "conn sv2 = (conn sv)(i := None)"
      using disconnect_rest_ok [of P "rs\<lparr>listener := sv\<rparr>" i c] ok1 by auto
    have r2: "rest_ok P (rs\<lparr>listener := sv2\<rparr>)"
      by (rule rest_ok_mono [OF assms(1) d(2)]) (use ok1(2) d(3) i(2) in auto)
    have "on_client_connected_rest P rs status accept_status read_status =
      bindR (if accept_status < 0 then client_disconnect_rest (rs\<lparr>listener := sv\<rparr>) c else Inr (rs\<lparr>listener := sv\<rparr>)) (\<lambda>rs2.
        if read_status < 0 then client_disconnect_rest rs2 c else Inr rs2)"
      using False by (simp add: on_client_connected_rest_def Let_def flip: i_def c_def sv_def)
    then show ?thesis using assms(2) d(1) r1 r2 by (cases "accept_status < 0"; cases "read_status < 0") simp_all
  qed
qed

section \<open>Reading and answering\<close>

lemma socket_kept:
  assumes "conn sv i = Some c" and "socket c' = socket c" and "conn sv' = (conn sv)(i \<mapsto> c')"
    and "\<exists>j e. conn sv j = Some e \<and> socket e = s"
  shows "\<exists>j e. conn sv' j = Some e \<and> socket e = s"
proof -
  obtain j e where "conn sv j = Some e" "socket e = s" using assms(4) by blast
  then show ?thesis using assms(1-3) by (cases "j = i") (auto intro: exI [of _ j])
qed

lemma piece_received:
  assumes "rest_ok P rs" and "conn (listener rs) i = Some c" and "0 < n" and "n \<le> int (length d)"
    and "buffer_length c + nat n \<le> length (buffer c)" and "packet_max_len P + SDB_SERVER_READ_BUFFER_MAX_LEN < 2 ^ 63"
  shows "\<exists>rs' c'. handle_rest P rs (Loop (DataRead i n d)) = Inr rs' \<and> rest_ok P rs' \<and>
           conn (listener rs') = (conn (listener rs))(i \<mapsto> c') \<and> pending rs' = pending rs \<and> closing (listener rs') = closing (listener rs) \<and>
           stream c' = stream c @ take (nat n) d \<and> buffer_length c' = buffer_length c + nat n \<and> length (buffer c') = length (buffer c) \<and>
           socket c' = socket c \<and> sent c' = sent c \<and> writes c' = writes c"
proof -
  note D = rest_okD [OF assms(1)]
  have ci: "client_ok P c" "index c = i" using server_okD(2) [OF D(1) assms(2)] by auto
  define buf where "buf = take (buffer_length c) (buffer c) @ take (nat n) d @ drop (buffer_length c + nat n) (buffer c)"
  have ln: "length (take (nat n) d) = nat n" "d \<noteq> []" using assms(3,4) by auto
  have st: "store (buffer c) (Ptr (int (buffer_length c))) (take (nat n) d) = Inr buf"
    using assms(3-5) ln by (simp add: store_def buf_def nat_add_distrib)
  have lb: "length buf = length (buffer c)" using assms(5) ln by (simp add: buf_def)
  have u: "u64 (buffer_length c + nat n) = buffer_length c + nat n" using assms(5,6) ci(1) by (simp add: u64_def client_ok_def)
  define c' where "c' = c\<lparr>buffer := buf, buffer_length := buffer_length c + nat n\<rparr>"
  have c': "index c' = index c" "socket c' = socket c" "client_ok P c'"
    using ci(1) assms(5) lb by (simp_all add: c'_def client_ok_def)
  note put = put_client_ok [OF D(1) assms(2) c']
  have "handle_rest P rs (Loop (DataRead i n d)) = Inr (put_client rs c')"
    using assms(2,3) st u by (simp add: on_data_read_rest_def c'_def)
  moreover have "rest_ok P (put_client rs c')"
    unfolding rest_ok_def put(3) using put(1) D(2) socket_kept [OF assms(2) c'(2) put(2) D(3)] by blast
  moreover have "stream c' = stream c @ take (nat n) d" using assms(5) ln by (simp add: stream_def c'_def buf_def)
  ultimately show ?thesis using put c'(2) lb by (intro exI [of _ "put_client rs c'"] exI [of _ c']) (simp add: c'_def)
qed

lemma answered:
  assumes "rest_ok P rs" and "conn (listener rs) i = Some c" and "n < 0" and "socket c \<notin> set (pending rs)"
    and "c1 = c\<lparr>writes := Suc (writes c)\<rparr>"
  shows "uv_write_status P (writes c) \<ge> 0 \<Longrightarrow> \<exists>rs'. handle_rest P rs (Loop (DataRead i n d)) = Inr rs' \<and> rest_ok P rs' \<and>
           conn (listener rs') = (conn (listener rs))(i \<mapsto> c1\<lparr>sent := sent c @ [rest_response]\<rparr>) \<and>
           pending rs' = pending rs @ [socket c] \<and> closing (listener rs') = closing (listener rs)"
    and "uv_write_status P (writes c) < 0 \<Longrightarrow> \<exists>rs'. handle_rest P rs (Loop (DataRead i n d)) = Inr rs' \<and> rest_ok P rs' \<and>
           conn (listener rs') = (conn (listener rs))(i := None) \<and> pending rs' = pending rs \<and>
           closing (listener rs') = c1 # closing (listener rs)"
proof -
  note D = rest_okD [OF assms(1)]
  have ci: "client_ok P c" using server_okD(2) [OF D(1) assms(2)] by auto
  have started: "rest_ok P ((put_client rs c')\<lparr>pending := pending rs @ [socket c]\<rparr>)" "conn (listener (put_client rs c')) = (conn (listener rs))(i \<mapsto> c')"
    "closing (listener (put_client rs c')) = closing (listener rs)"
    if c': "index c' = index c" "socket c' = socket c" "client_ok P c'" for c'
  proof -
    note put = put_client_ok [OF D(1) assms(2) c']
    show "rest_ok P ((put_client rs c')\<lparr>pending := pending rs @ [socket c]\<rparr>)"
      unfolding rest_ok_def using put(1,2) D(2) assms(4) c'(2) socket_kept [OF assms(2) c'(2) put(2) D(3)] by auto
  qed (use put_client_ok [OF D(1) assms(2) c'] in simp_all)
  have k1: "index c1 = index c" "socket c1 = socket c" "client_ok P c1" using ci by (simp_all add: assms(5) client_ok_def)
  let ?c2 = "c1\<lparr>sent := sent c @ [rest_response]\<rparr>"
  have k2: "index ?c2 = index c" "socket ?c2 = socket c" "client_ok P ?c2" using k1 by (simp_all add: client_ok_def)
  show "\<exists>rs'. handle_rest P rs (Loop (DataRead i n d)) = Inr rs' \<and> rest_ok P rs' \<and> conn (listener rs') = (conn (listener rs))(i \<mapsto> ?c2) \<and>
      pending rs' = pending rs @ [socket c] \<and> closing (listener rs') = closing (listener rs)" if "uv_write_status P (writes c) \<ge> 0"
    using started [OF k2] that assms(2,3,5)
    by (intro exI [of _ "(put_client rs ?c2)\<lparr>pending := pending rs @ [socket c]\<rparr>"]) (simp add: on_data_read_rest_def client_send_rest_def Let_def)
  show "\<exists>rs'. handle_rest P rs (Loop (DataRead i n d)) = Inr rs' \<and> rest_ok P rs' \<and> conn (listener rs') = (conn (listener rs))(i := None) \<and>
      pending rs' = pending rs \<and> closing (listener rs') = c1 # closing (listener rs)" if "uv_write_status P (writes c) < 0"
  proof -
    define rs1 where "rs1 = (put_client rs c1)\<lparr>pending := pending rs @ [socket c]\<rparr>"
    have r1: "rest_ok P rs1" "conn (listener rs1) = (conn (listener rs))(i \<mapsto> c1)" "closing (listener rs1) = closing (listener rs)"
      using started [OF k1] by (simp_all add: rs1_def)
    obtain rs' where "on_write_complete rs1 (socket c) = Inr rs'" "rest_ok P rs'" "conn (listener rs') = (conn (listener rs1))(i := None)"
      "closing (listener rs') = c1 # closing (listener rs1)" "pending rs' = remove1 (socket c) (pending rs1)"
      using write_complete_ok [OF r1(1), of "socket c" i c1] r1(2) k1(2) by (auto simp: rs1_def)
    moreover have "remove1 (socket c) (pending rs1) = pending rs" using assms(4) by (simp add: rs1_def remove1_append)
    ultimately show ?thesis using that assms(2,3,5) r1
      by (intro exI [of _ rs']) (simp add: on_data_read_rest_def client_send_rest_def Let_def rs1_def [unfolded assms(5), symmetric])
  qed
qed

text \<open>
  What the server relies on: it is not told of a failed accept and a failed start of reading at
  once, a client that is being answered does not end a second time, no request is longer than the
  receive buffer, and the loop is not shut down while an answer is pending.
\<close>

fun benign :: "rest_server \<Rightarrow> rest_event \<Rightarrow> bool" where
  "benign rs (Loop (Connected status accept_status read_status)) = (\<not> (accept_status < 0 \<and> read_status < 0))"
| "benign rs (Loop (DataRead i nread data)) =
     (case conn (listener rs) i of
        None \<Rightarrow> True
      | Some c \<Rightarrow> if nread < 0 then socket c \<notin> set (pending rs)
                  else nread \<le> int (length data) \<and> buffer_length c + nat nread \<le> length (buffer c))"
| "benign rs (Loop Shutdown) = (pending rs = [])"
| "benign rs e = True"

lemma rest_step:
  assumes "rest_ok P rs" and "benign rs e" and "packet_max_len P + SDB_SERVER_READ_BUFFER_MAX_LEN < 2 ^ 63"
  shows "\<exists>rs'. handle_rest P rs e = Inr rs' \<and> rest_ok P rs'"
proof -
  note D = rest_okD [OF assms(1)]
  consider (connected) s a r where "e = Loop (Connected s a r)" | (read) i n d where "e = Loop (DataRead i n d)"
    | (closed) s where "e = Loop (Closed s)" | (stop) "e = Loop StopRequest" | (shutdown) "e = Loop Shutdown" | (written) s where "e = WriteDone s"
    by (metis event.exhaust rest_event.exhaust)
  then show ?thesis
  proof cases
    case connected
    with connect_rest_ok [OF assms(1)] assms(2) show ?thesis by auto
  next
    case read
    show ?thesis
    proof (cases "conn (listener rs) i")
      case (Some c)
      have zero: "handle_rest P rs (Loop (DataRead i 0 d)) = Inr rs" using Some by (simp add: on_data_read_rest_def)
      consider "n < 0" "uv_write_status P (writes c) < 0" | "n < 0" "0 \<le> uv_write_status P (writes c)" | "n = 0" | "0 < n" by linarith
      then show ?thesis
        using answered [OF assms(1) Some, of n] piece_received [OF assms(1) Some, of n d] read Some assms zero
        by cases (auto simp del: handle_rest.simps(2))
    qed (use read assms(1) in simp)
  next
    case closed
    then show ?thesis
      using rest_ok_mono [OF assms(1) server_ok_free [OF D(1), of s]] by (auto simp: on_client_free_rest_def on_client_free_def)
  next
    case stop
    have "server_ok P (server_stop (listener rs))" using D(1) by (simp add: server_ok_def server_stop_def)
    with stop rest_ok_mono [OF assms(1) this] show ?thesis by (auto simp: server_stop_rest_def server_stop_def)
  next
    case shutdown
    show ?thesis
    proof (cases "shutdown_data (listener rs)")
      case True
      obtain sv where "on_server_shutdown (listener rs) = Inr sv" "server_ok P sv" using shutdown_ok [OF D(1) True] by blast
      then show ?thesis using shutdown assms(1,2) by (simp add: on_server_shutdown_rest_def rest_ok_def)
    qed (use shutdown assms(1) in \<open>simp add: on_server_shutdown_rest_def on_server_shutdown_def\<close>)
  next
    case written
    show ?thesis
    proof (cases "s \<in> set (pending rs)")
      case True
      obtain i c where "conn (listener rs) i = Some c" "socket c = s" using D(3) [OF True] by blast
      with write_complete_ok [OF assms(1) True] written True show ?thesis by (metis handle_rest.simps(6))
    qed (use written assms(1) in simp)
  qed
qed

fun all_benign :: "'a net_platform_scheme \<Rightarrow> rest_server \<Rightarrow> rest_event list \<Rightarrow> bool" where
  "all_benign P rs [] = True"
| "all_benign P rs (e # es) = (benign rs e \<and> (case handle_rest P rs e of Inl f \<Rightarrow> True | Inr rs1 \<Rightarrow> all_benign P rs1 es))"

lemma rest_runs:
  assumes "packet_max_len P + SDB_SERVER_READ_BUFFER_MAX_LEN < 2 ^ 63"
  shows "rest_ok P rs \<Longrightarrow> all_benign P rs es \<Longrightarrow> \<exists>rs'. rest_loop P rs es = Inr rs' \<and> rest_ok P rs'"
proof (induction es arbitrary: rs)
  case (Cons e es)
  obtain rs1 where "handle_rest P rs e = Inr rs1" "rest_ok P rs1" using rest_step [OF Cons.prems(1) _ assms] Cons.prems(2) by auto
  then show ?case using Cons.IH [of rs1] Cons.prems(2) by simp
qed simp

section \<open>A request\<close>

definition pieces :: "nat \<Rightarrow> bytes list \<Rightarrow> rest_event list" where
  "pieces i ds = map (\<lambda>d. Loop (DataRead i (int (length d)) d)) ds"

lemma request_received:
  assumes "packet_max_len P + SDB_SERVER_READ_BUFFER_MAX_LEN < 2 ^ 63"
  shows "rest_ok P rs \<Longrightarrow> conn (listener rs) i = Some c \<Longrightarrow> \<forall>d \<in> set ds. d \<noteq> [] \<Longrightarrow>
    buffer_length c + length (concat ds) \<le> length (buffer c) \<Longrightarrow>
    \<exists>rs' c'. rest_loop P rs (pieces i ds) = Inr rs' \<and> rest_ok P rs' \<and> conn (listener rs') = (conn (listener rs))(i \<mapsto> c') \<and>
      pending rs' = pending rs \<and> closing (listener rs') = closing (listener rs) \<and> stream c' = stream c @ concat ds \<and>
      socket c' = socket c \<and> sent c' = sent c \<and> writes c' = writes c"
proof (induction ds arbitrary: rs c)
  case Nil
  then show ?case by (intro exI [of _ rs] exI [of _ c]) (auto simp: pieces_def)
next
  case (Cons d ds)
  obtain rs1 c1 where r: "handle_rest P rs (Loop (DataRead i (int (length d)) d)) = Inr rs1" "rest_ok P rs1"
    "conn (listener rs1) = (conn (listener rs))(i \<mapsto> c1)" "pending rs1 = pending rs" "closing (listener rs1) = closing (listener rs)"
    and c1: "stream c1 = stream c @ d" "buffer_length c1 = buffer_length c + length d" "length (buffer c1) = length (buffer c)"
      "socket c1 = socket c" "sent c1 = sent c" "writes c1 = writes c"
    using piece_received [OF Cons.prems(1,2) _ _ _ assms, of "int (length d)" d] Cons.prems(3,4) by auto
  have at: "conn (listener rs1) i = Some c1" and room: "buffer_length c1 + length (concat ds) \<le> length (buffer c1)"
    using r(3) c1(2,3) Cons.prems(4) by simp_all
  obtain rs' c' where "rest_loop P rs1 (pieces i ds) = Inr rs'" "rest_ok P rs'" "conn (listener rs') = (conn (listener rs1))(i \<mapsto> c')"
    "pending rs' = pending rs1" "closing (listener rs') = closing (listener rs1)" "stream c' = stream c1 @ concat ds"
    "socket c' = socket c1" "sent c' = sent c1" "writes c' = writes c1"
    using Cons.IH [OF r(2) at _ room] Cons.prems(3) unfolding list.set by blast
  then show ?case using r c1 by (intro exI [of _ rs'] exI [of _ c']) (simp add: pieces_def)
qed

text \<open>A request that is longer than the room that is left: nothing is ever taken out of the receive buffer.\<close>

lemma long_request_overruns:
  assumes "packet_max_len P + SDB_SERVER_READ_BUFFER_MAX_LEN < 2 ^ 63"
  shows "rest_ok P rs \<Longrightarrow> conn (listener rs) i = Some c \<Longrightarrow> \<forall>d \<in> set ds. d \<noteq> [] \<Longrightarrow>
    length (buffer c) < buffer_length c + length (concat ds) \<Longrightarrow> rest_loop P rs (pieces i ds) = Inl OutOfBounds"
proof (induction ds arbitrary: rs c)
  case Nil
  then show ?case using server_okD(2) [OF rest_okD(1) [OF Nil.prems(1)] Nil.prems(2)] by (simp add: client_ok_def)
next
  case (Cons d ds)
  show ?case
  proof (cases "buffer_length c + length d \<le> length (buffer c)")
    case True
    obtain rs1 c1 where r: "handle_rest P rs (Loop (DataRead i (int (length d)) d)) = Inr rs1" "rest_ok P rs1"
      "conn (listener rs1) = (conn (listener rs))(i \<mapsto> c1)"
      and c1: "buffer_length c1 = buffer_length c + length d" "length (buffer c1) = length (buffer c)"
      using piece_received [OF Cons.prems(1,2) _ _ _ assms, of "int (length d)" d] Cons.prems(3) True by auto
    then show ?thesis using Cons.IH [OF r(2), of c1] Cons.prems(3,4) by (simp add: pieces_def)
  next
    case False
    then show ?thesis using Cons.prems(2,3) by (simp add: pieces_def on_data_read_rest_def store_def)
  qed
qed

lemma disconnect_all_closing:
  "disconnect_all sv cs = Inr sv' \<Longrightarrow> set (closing sv) \<union> {c. Some c \<in> set cs} \<subseteq> set (closing sv')"
proof (induction sv cs rule: disconnect_all.induct)
  case (3 sv c cs)
  obtain sv1 where sv1: "client_disconnect_and_destroy sv c = Inr sv1" "disconnect_all sv1 cs = Inr sv'"
    using 3(2) by (auto elim: bindR_InrE)
  have "set (closing sv1) = insert c (set (closing sv))"
    using sv1(1) by (auto simp: client_disconnect_and_destroy_def split: if_splits)
  with 3(1) [OF sv1] show ?case by auto
qed auto

lemma shutdown_closing:
  assumes "server_ok P sv" and "shutdown_data sv" and "conn sv i = Some c"
  shows "\<exists>sv'. on_server_shutdown sv = Inr sv' \<and> c \<in> set (closing sv') \<and> (\<forall>i. conn sv' i = None)"
proof -
  obtain sv' where sv': "on_server_shutdown sv = Inr sv'" "\<And>i. conn sv' i = None" using shutdown_ok [OF assms(1,2)] by blast
  obtain sv1 where "disconnect_all (sv\<lparr>listening := False\<rparr>) (clients sv) = Inr sv1" "sv' = sv1\<lparr>async_open := False\<rparr>"
    using sv'(1) assms(2) by (auto simp: on_server_shutdown_def elim: bindR_InrE)
  moreover have "Some c \<in> set (clients sv)" using assms(3) by (auto simp: conn_def in_set_conv_nth split: if_splits)
  ultimately show ?thesis using disconnect_all_closing sv' by fastforce
qed

section \<open>Properties\<close>

text \<open>Two places, the first of them taken by a client that has sent nothing yet; and a visit of one client.\<close>

definition sample_rest :: "nat list \<Rightarrow> rest_server" where
  "sample_rest p = \<lparr>listener = (server_create tiny_net 8090 ())\<lparr>clients := [Some (client_create tiny_net 0 0), None], next_socket := 1\<rparr>,
     pending = p\<rparr>"

definition sample_visit :: "rest_event list" where
  "sample_visit = [Loop (Connected 0 0 0), Loop (DataRead 0 3 [71, 69, 84]), Loop (DataRead 0 (- 4095) []), WriteDone 0, Loop (Closed 0),
     Loop StopRequest, Loop Shutdown]"

lemma tiny_net_statuses [simp]:
  "uv_write_status tiny_net k = 0" "uv_bind_status tiny_net = 0" "uv_listen_status tiny_net = 0" "uv_run_status tiny_net = 0"
  by (simp_all add: tiny_net_def posix_def platform.extend_def)

lemma sample_rest_ok: "p = [] \<or> p = [0] \<Longrightarrow> rest_ok tiny_net (sample_rest p)"
  by (auto simp: rest_ok_def sample_rest_def server_ok_def server_create_def conn_def client_create_def client_ok_def nth_Cons'
      split: if_splits intro: exI [of _ 0])

lemma sample_rest_simps:
  "conn (listener (sample_rest p)) 0 = Some (client_create tiny_net 0 0)" "pending (sample_rest p) = p" "async_open (listener (sample_rest p))"
  by (simp_all add: sample_rest_def conn_def server_create_def)

text \<open>
  C27: the server keeps its table consistent and has no fault, whatever connections, requests,
  failures and completions the loop delivers, as long as a request fits the receive buffer, a client
  ends once and an accept does not fail together with the start of reading, and a shutdown waits for
  pending answers.
\<close>

theorem rest_server_safe:
  assumes "packet_max_len P + SDB_SERVER_READ_BUFFER_MAX_LEN < 2 ^ 63" and "uv_bind_status P \<ge> 0" and "uv_listen_status P = 0"
    and "uv_run_status P = 0" and "all_benign P ((server_create_rest P 8090)\<lparr>listener := (server_create P 8090 ())\<lparr>listening := True\<rparr>\<rparr>) es"
  shows "\<exists>rs. rest_main P es = Inr rs \<and> rest_ok P rs"
proof -
  have "rest_ok P ((server_create_rest P 8090)\<lparr>listener := (server_create P 8090 ())\<lparr>listening := True\<rparr>\<rparr>)"
    using server_create_ok [of P 8090 "()"] by (simp add: rest_ok_def server_create_rest_def server_ok_def)
  from rest_runs [OF assms(1) this assms(5)] show ?thesis
    using assms(2-4) by (auto simp: rest_main_def server_run_rest_def server_create_rest_def)
qed

theorem rest_server_safe_witness: "\<exists>rs. rest_main tiny_net sample_visit = Inr rs \<and> rest_ok tiny_net rs"
proof (rule rest_server_safe)
  show "all_benign tiny_net ((server_create_rest tiny_net 8090)\<lparr>listener := (server_create tiny_net 8090 ())\<lparr>listening := True\<rparr>\<rparr>) sample_visit"
    by (simp add: sample_visit_def server_create_rest_def server_create_def on_client_connected_rest_def client_create_rest_def
        client_create_def conn_def on_data_read_rest_def put_client_def client_send_rest_def on_write_complete_def client_of_def
        client_disconnect_rest_def client_disconnect_and_destroy_def on_client_free_rest_def on_client_free_def server_stop_rest_def
        server_stop_def on_server_shutdown_rest_def on_server_shutdown_def store_def numeral_2_eq_2 SDB_SERVER_READ_BUFFER_MAX_LEN_def Let_def)
qed (simp_all add: SDB_SERVER_READ_BUFFER_MAX_LEN_def)

text \<open>
  C28: a client's request, received in any pieces that fit the buffer, and its end: the client is sent
  exactly one response, and when that has been written it is disconnected, its place is free, and
  every other client is as before.
\<close>

theorem rest_request_answered:
  assumes "rest_ok P rs" and "conn (listener rs) i = Some c" and "socket c \<notin> set (pending rs)" and "\<forall>d \<in> set ds. d \<noteq> []"
    and "buffer_length c + length (concat ds) \<le> length (buffer c)" and "uv_write_status P (writes c) \<ge> 0" and "eof < 0"
    and "packet_max_len P + SDB_SERVER_READ_BUFFER_MAX_LEN < 2 ^ 63"
  shows "\<exists>rs' c'. rest_loop P rs (pieces i ds @ [Loop (DataRead i eof []), WriteDone (socket c)]) = Inr rs' \<and> rest_ok P rs' \<and>
           conn (listener rs') = (conn (listener rs))(i := None) \<and> pending rs' = pending rs \<and>
           closing (listener rs') = c' # closing (listener rs) \<and> socket c' = socket c \<and>
           stream c' = stream c @ concat ds \<and> sent c' = sent c @ [rest_response]"
proof -
  obtain rs1 c1 where r1: "rest_loop P rs (pieces i ds) = Inr rs1" "rest_ok P rs1" "conn (listener rs1) = (conn (listener rs))(i \<mapsto> c1)"
    "pending rs1 = pending rs" "closing (listener rs1) = closing (listener rs)"
    and c1: "stream c1 = stream c @ concat ds" "socket c1 = socket c" "sent c1 = sent c" "writes c1 = writes c"
    using request_received [OF assms(8,1,2,4,5)] by blast
  have at1: "conn (listener rs1) i = Some c1" and free: "socket c1 \<notin> set (pending rs1)" using r1 c1 assms(3) by simp_all
  define c2 where "c2 = c1\<lparr>writes := Suc (writes c1), sent := sent c1 @ [rest_response]\<rparr>"
  obtain rs2 where r2: "handle_rest P rs1 (Loop (DataRead i eof [])) = Inr rs2" "rest_ok P rs2"
    "conn (listener rs2) = (conn (listener rs1))(i \<mapsto> c2)" "pending rs2 = pending rs1 @ [socket c1]"
    "closing (listener rs2) = closing (listener rs1)"
    using answered(1) [OF r1(2) at1 assms(7) free refl, of "[]"] assms(6) c1(4) by (auto simp: c2_def)
  have at2: "conn (listener rs2) i = Some c2" "socket c2 = socket c" and mem: "socket c \<in> set (pending rs2)"
    using r2(3,4) c1(2) by (simp_all add: c2_def)
  obtain rs3 where r3: "on_write_complete rs2 (socket c) = Inr rs3" "rest_ok P rs3" "conn (listener rs3) = (conn (listener rs2))(i := None)"
    "closing (listener rs3) = c2 # closing (listener rs2)" "pending rs3 = remove1 (socket c) (pending rs2)"
    using write_complete_ok [OF r2(2) mem at2] by blast
  have "rest_loop P rs (pieces i ds @ [Loop (DataRead i eof []), WriteDone (socket c)]) = Inr rs3"
    using r1(1) r2(1) r3(1) mem by (simp add: rest_loop_append del: handle_rest.simps(2))
  moreover have "stream c2 = stream c1" by (simp add: c2_def stream_def)
  ultimately show ?thesis using r1 r2 r3 c1 at2(2) assms(3)
    by (intro exI [of _ rs3] exI [of _ c2]) (simp add: c2_def remove1_append fun_upd_idem_iff)
qed

theorem rest_request_answered_witness:
  "\<exists>rs' c'. rest_loop tiny_net (sample_rest []) (pieces 0 [[71], [69, 84]] @ [Loop (DataRead 0 (- 4095) []), WriteDone 0]) = Inr rs' \<and>
     rest_ok tiny_net rs' \<and> conn (listener rs') = (conn (listener (sample_rest [])))(0 := None) \<and> pending rs' = [] \<and>
     closing (listener rs') = c' # closing (listener (sample_rest [])) \<and> socket c' = 0 \<and>
     stream c' = [71, 69, 84] \<and> sent c' = [rest_response]"
  using rest_request_answered [OF sample_rest_ok [OF disjI1 [OF refl]] sample_rest_simps(1), of "[[71], [69, 84]]" "- 4095"]
  by (simp add: sample_rest_simps client_create_def stream_def SDB_SERVER_READ_BUFFER_MAX_LEN_def del: rest_loop.simps)

text \<open>
  A shutdown while an answer is pending closes the client's handle, and the completion of the
  write, which libuv still reports, closes it a second time.
\<close>

lemma shutdown_closes_twice:
  assumes "rest_ok P rs" and "s \<in> set (pending rs)" and "async_open (listener rs)"
  shows "rest_loop P rs [Loop StopRequest, Loop Shutdown, WriteDone s] = Inl DoubleClose"
proof -
  note D = rest_okD [OF assms(1)]
  obtain i c where c: "conn (listener rs) i = Some c" "socket c = s" using D(3) [OF assms(2)] by blast
  let ?sv = "server_stop (listener rs)"
  have "server_ok P ?sv" "shutdown_data ?sv" "conn ?sv i = Some c" using D(1) c(1) by (simp_all add: server_stop_def server_ok_def)
  then obtain sv' where sv': "on_server_shutdown ?sv = Inr sv'" "c \<in> set (closing sv')" "\<And>i. conn sv' i = None"
    using shutdown_closing by blast
  have a: "async_open ?sv" using assms(3) by (simp add: server_stop_def)
  show ?thesis
    using sv'(1,2) client_of_None [OF sv'(3)] c(2) a assms(2)
    by (auto simp: server_stop_rest_def on_server_shutdown_rest_def on_write_complete_def Let_def)
qed

lemma shutdown_closes_twice_example:
  "rest_loop tiny_net (sample_rest [0]) [Loop StopRequest, Loop Shutdown, WriteDone 0] = Inl DoubleClose"
  by (rule shutdown_closes_twice [OF sample_rest_ok]) (simp_all add: sample_rest_simps)

end
