(* ===== verification/MmapTest.thy ===== *)
theory MmapTest
  imports Console
begin

text \<open>
  \<^verbatim>\<open>prototype/mmap-test/main.c\<close>: three ways to add up the bytes of a file, to be timed: through a memory
  map, through a buffer, and without reading.  The sums are of type \<^verbatim>\<open>int\<close>, whose overflow is undefined;
  bytes are read as \<^verbatim>\<open>char\<close>, which is signed.  The file is given by its contents, or nothing where it
  cannot be opened, which the program does not check; times and printing are left out.
\<close>

section \<open>The tests\<close>

definition int_add :: "int \<Rightarrow> int \<Rightarrow> int res" where
  "int_add a b = (if - (2 ^ 31) \<le> a + b \<and> a + b < 2 ^ 31 then Inr (a + b) else Inl IntOverflow)"

function mmap_loop :: "bytes \<Rightarrow> int \<Rightarrow> int \<Rightarrow> int \<Rightarrow> int res" where
  "mmap_loop m file_size i acc =
     (if i < file_size then
        bindR (load m (Ptr i) 1) (\<lambda>bs.
        bindR (int_add acc (sint (hd bs))) (\<lambda>acc1.
        bindR (int_add i 1) (\<lambda>i1. mmap_loop m file_size i1 acc1)))
      else Inr acc)"
  by pat_completeness auto
termination
  by (relation "measure (\<lambda>(m, file_size, i, acc). nat (file_size - i))")
    (auto simp: int_add_def split: if_splits elim!: bindR_InrE)

definition mmap_test :: "bytes option \<Rightarrow> int res" where
  "mmap_test f = (case f of None \<Rightarrow> Inl NullDeref | Some m \<Rightarrow> mmap_loop m (int (length m)) 0 0)"

fun add_bytes :: "bytes \<Rightarrow> int \<Rightarrow> int res" where
  "add_bytes [] acc = Inr acc"
| "add_bytes (b # bs) acc = bindR (int_add acc (sint b)) (add_bytes bs)"

text \<open>Every read but the last takes a whole buffer off the stream, and the last sets the flag of the end.\<close>

function fread_loop :: "console \<Rightarrow> int \<Rightarrow> int res" where
  "fread_loop f acc =
     (if at_eof f then Inr acc
      else case fread 1 655360 f of (read_count, buff, f1) \<Rightarrow> bindR (add_bytes (take read_count buff) acc) (fread_loop f1))"
  by pat_completeness auto
termination
  by (relation "measure (\<lambda>(f, acc). 2 * length (stdin f) + (if at_eof f then 0 else 1))") (auto simp: fread_def Let_def)

definition fread_test :: "bytes option \<Rightarrow> int res" where
  "fread_test f =
     (case f of None \<Rightarrow> Inl NullDeref
      | Some m \<Rightarrow> fread_loop \<lparr>stdin = m, at_eof = False, stdout = [], stderr = []\<rparr> 0)"

fun no_read_loop :: "nat \<Rightarrow> int \<Rightarrow> int res" where
  "no_read_loop 0 acc = Inr acc"
| "no_read_loop (Suc n) acc = bindR (int_add acc 123) (no_read_loop n)"

definition no_read_test :: "bytes option \<Rightarrow> int res" where
  "no_read_test f = (case f of None \<Rightarrow> Inl NullDeref | Some m \<Rightarrow> no_read_loop (length m) 0)"

declare mmap_loop.simps [simp del] fread_loop.simps [simp del]

section \<open>What they compute\<close>

lemma add_bytes_append: "add_bytes (xs @ ys) acc = bindR (add_bytes xs acc) (add_bytes ys)"
  by (induction xs arbitrary: acc) (auto simp: bindR_def split: sum.splits)

lemma mmap_loop_adds: "length m < 2 ^ 31 \<Longrightarrow> k \<le> length m \<Longrightarrow> mmap_loop m (int (length m)) (int k) acc = add_bytes (drop k m) acc"
proof (induction "length m - k" arbitrary: k acc)
  case 0
  then show ?case by (simp add: mmap_loop.simps)
next
  case (Suc n)
  have k: "k < length m" using Suc.hyps(2) by simp
  have "load m (Ptr (int k)) 1 = Inr [m ! k]" using k by (simp add: load_def take_Suc_conv_app_nth hd_drop_conv_nth take_Suc)
  moreover have "int_add (int k) 1 = Inr (int (Suc k))" using k Suc.prems(1) by (simp add: int_add_def)
  moreover have "mmap_loop m (int (length m)) (int (Suc k)) a = add_bytes (drop (Suc k) m) a" for a
    using Suc.hyps Suc.prems(1) k by (intro Suc.hyps(1)) simp_all
  ultimately show ?case
    using k by (subst mmap_loop.simps) (simp add: Cons_nth_drop_Suc [symmetric] del: of_nat_Suc)
qed

lemma fread_loop_adds: "\<not> at_eof f \<Longrightarrow> fread_loop f acc = add_bytes (stdin f) acc"
proof (induction "length (stdin f)" arbitrary: f acc rule: less_induct)
  case less
  let ?f = "f\<lparr>stdin := drop 655360 (stdin f), at_eof := length (stdin f) < 655360\<rparr>"
  have r: "fread 1 655360 f = (length (take 655360 (stdin f)), take 655360 (stdin f), ?f)"
    using less.prems by (simp add: fread_def Let_def)
  have "fread_loop ?f a = add_bytes (drop 655360 (stdin f)) a" for a
  proof (cases "length (stdin f) < 655360")
    case True
    then show ?thesis by (simp add: fread_loop.simps)
  next
    case False
    then show ?thesis using less.hyps [of ?f a] by simp
  qed
  then have "fread_loop ?f = add_bytes (drop 655360 (stdin f))" by (rule ext)
  then show ?case
    using less.prems r add_bytes_append [of "take 655360 (stdin f)" "drop 655360 (stdin f)" acc]
    by (subst fread_loop.simps) (cases "length (stdin f) \<le> 655360", simp_all add: min_def)
qed

lemma add_bytes_sum:
  "(\<And>k. k \<le> length bs \<Longrightarrow> \<bar>acc + sum_list (map sint (take k bs))\<bar> < 2 ^ 31) \<Longrightarrow> add_bytes bs acc = Inr (acc + sum_list (map sint bs))"
proof (induction bs arbitrary: acc)
  case (Cons b bs)
  have "\<bar>acc + sint b\<bar> < 2 ^ 31" using Cons.prems [of 1] by simp
  moreover have "\<bar>acc + sint b + sum_list (map sint (take k bs))\<bar> < 2 ^ 31" if "k \<le> length bs" for k
    using Cons.prems [of "Suc k"] that by (simp add: add.assoc)
  moreover have "int_add acc (sint b) = Inr (acc + sint b)" using calculation(1) unfolding int_add_def by auto
  ultimately show ?case using Cons.IH [of "acc + sint b"] by (simp add: add.assoc)
qed simp

lemma sint_sum_bound: "\<bar>sum_list (map sint (bs :: bytes))\<bar> \<le> 128 * int (length bs)"
proof (induction bs)
  case (Cons b bs)
  have "- (2 ^ 7) \<le> sint b" "sint b < 2 ^ 7" using sint_ge [of b] sint_lt [of b] by simp_all
  with Cons.IH show ?case by simp
qed simp

lemma no_read_loop_counts: "0 \<le> acc \<Longrightarrow> no_read_loop n acc = (if acc + 123 * int n < 2 ^ 31 \<or> n = 0 then Inr (acc + 123 * int n) else Inl IntOverflow)"
proof (induction n arbitrary: acc)
  case (Suc n)
  then show ?case using Suc.IH [of "acc + 123"] by (auto simp: int_add_def)
qed simp

text \<open>
  C24: reading a file through a memory map and through a buffer gives the same result, also where the
  sum overflows, for every file of less than 2 GB; for files below 16 MB it is the sum of the bytes.
\<close>

theorem mmap_fread_agree:
  assumes "length m < 2 ^ 31"
  shows "fread_test (Some m) = mmap_test (Some m) \<and> (length m < 2 ^ 24 \<longrightarrow> mmap_test (Some m) = Inr (sum_list (map sint m)))"
proof (intro conjI impI)
  have mm: "mmap_test (Some m) = add_bytes m 0" using mmap_loop_adds [OF assms, of 0 0] by (simp add: mmap_test_def)
  then show "fread_test (Some m) = mmap_test (Some m)" by (simp add: fread_test_def fread_loop_adds)
  assume "length m < 2 ^ 24"
  then have n: "int (length m) < 2 ^ 24" by simp
  have "\<bar>0 + sum_list (map sint (take k m))\<bar> < 2 ^ 31" for k
  proof -
    have "int (length (take k m)) \<le> int (length m)" by simp
    then show ?thesis using sint_sum_bound [of "take k m"] n by simp
  qed
  then show "mmap_test (Some m) = Inr (sum_list (map sint m))" using add_bytes_sum [of m 0] mm by simp
qed

theorem mmap_fread_agree_witness: "fread_test (Some [200, 100, 7]) = mmap_test (Some [200, 100, 7]) \<and> mmap_test (Some [200, 100, 7]) = Inr 51"
  using mmap_fread_agree [of "[200, 100, 7]"] by simp

end
