(* ===== verification/Spec2Isabelle.thy ===== *)
theory Spec2Isabelle
  imports ClientServer ServerMain BlockTransfer RestServer MmapTest
begin

text \<open>
  A verification of ShakaDB, a time series database: the server (\<^verbatim>\<open>src/src\<close>), its storage engine
  and protocol, the command line client (\<^verbatim>\<open>src/src/ctl\<close>), and the prototypes (\<^verbatim>\<open>src/prototype\<close>): the
  transfer of blocks compressed with LZ4, a REST server and a memory map test.

  \<^bold>\<open>The program.\<close>  A point is a record of a fixed size that begins with a 64-bit timestamp.  A
  series is a file of points in order of time, mapped into memory and extended with bytes of 0xFF
  (\<^verbatim>\<open>storage/series.c\<close>, \<^verbatim>\<open>storage/disk.c\<close>); a database is a directory of such files with a table of
  those that are open (\<^verbatim>\<open>storage/database.c\<close>).  The server reads frames from its clients in an event
  loop (\<^verbatim>\<open>network/server.c\<close>), and a handler answers the requests in them
  (\<^verbatim>\<open>network/client-handler.c\<close>, \<^verbatim>\<open>network/protocol.c\<close>).  The client holds a session with a server
  (\<^verbatim>\<open>ctl/session.c\<close>) and moves points between it and the standard streams (\<^verbatim>\<open>ctl/main.c\<close>).  The
  prototypes stand by themselves: a pair of programs that send and check blocks
  (\<^verbatim>\<open>transfer-compression/main-client.c\<close>, \<^verbatim>\<open>main.c\<close>) with the compression library they contain (\<^verbatim>\<open>lz4.c\<close>), an
  early version of the server (\<^verbatim>\<open>native-rest-api/server.c\<close>), and \<^verbatim>\<open>mmap-test/main.c\<close>.

  \<^bold>\<open>The theories\<close>, in the order of their dependencies:
  \<^item> \<open>Prelude\<close>: faults and results, unsigned arithmetic with its wrap-around, little-endian fields
    (the locale \<open>fixed_codec\<close>), byte lists cut into records.
  \<^item> \<open>Memory\<close>: objects as byte lists, pointers as offsets into them, checked loads, stores,
    \<^verbatim>\<open>memcpy\<close> and \<^verbatim>\<open>memmove\<close>.
  \<^item> \<open>Platform\<close>: what C and POSIX leave open, with the contract of \<^verbatim>\<open>qsort\<close> as the locale \<open>c_qsort\<close>.
  \<^item> \<open>Common\<close>, \<open>DataPoint\<close>, \<open>Disk\<close>, \<open>PointsReader\<close>, \<open>Series\<close>, \<open>Database\<close>: the files of these names,
    one definition per function, loops as recursive functions of their own.
  \<^item> \<open>Timeline\<close>: the abstract view of a series, a list of points with strictly increasing times or
    the map from times to points, the specification of reading and writing (the locales
    \<open>timeline_store\<close> and \<open>writable_store\<close>, interpreted on the series and on the database).
  \<^item> \<open>Protocol\<close>: the packed structures, the messages and their validation, framing (the locale
    \<open>framing\<close>).
  \<^item> \<open>Server\<close>: the clients table and the callbacks, events, the event loop and the reachable
    states; the locale \<open>handler_contract\<close> is what the server relies on of a packet handler.
  \<^item> \<open>ClientHandler\<close>: the request handlers, which interpret that contract.
  \<^item> \<open>Service\<close>: what the server promises its clients, a history of commands and the answers to them
    (the locale \<open>service\<close>); \<open>Requests\<close>: a request from the event to the answer, which interprets it.
  \<^item> \<open>Diagnostics\<close>, \<open>ServerMain\<close>: the log, the stop watches, and the server program.
  \<^item> \<open>Session\<close>, \<open>Console\<close>, \<open>Ctl\<close>: the client's connection (the locale \<open>transport\<close> is the contract of
    \<^verbatim>\<open>send\<close> and \<^verbatim>\<open>recv\<close>), what it uses of the C library's streams, and the client program.
  \<^item> \<open>ClientServer\<close>: the server as the other end of a client's connection, where \<open>transport\<close> is
    interpreted.
  \<^item> \<open>Lz4\<close>: constants, accesses and copies of \<^verbatim>\<open>lz4.c\<close>, and the meaning of a block: \<open>block_bytes\<close> is the
    format, \<open>expand\<close> what it stands for.  \<open>Lz4Decode\<close> and \<open>Lz4Encode\<close>: decompression and compression.
  \<^item> \<open>BlockTransfer\<close>: both together, and the sender and the receiver of blocks (the locale
    \<open>whole_ints\<close> extends \<open>transport\<close> by what they rely on beyond it).
  \<^item> \<open>RestServer\<close>: the early server, on the records and functions of \<open>Server\<close> that it shares; \<open>MmapTest\<close>:
    the sums over a file.

  \<^bold>\<open>State and operations.\<close>  Every definition is named after the function it translates and takes the
  state it works on: the file system (\<open>files\<close>, with visible and durable contents), the records
  \<open>series\<close>, \<open>database\<close>, \<open>client\<close>, \<open>server\<close>, \<open>session\<close>, \<open>console\<close>, and the object a pointer argument
  points into.  It returns the state it leaves and its result, or a fault: an access out of
  bounds, a null pointer, an overlapping \<^verbatim>\<open>memcpy\<close>, a division by zero, a signed sum that overflows, a
  handle closed twice, a panic.  So a theorem that an operation returns \<open>Inr\<close> says that it has no
  undefined behaviour.

  \<^bold>\<open>What is shown.\<close>  A series holds, after any acceptable write, the timeline overridden by the batch
  in order, in memory and on disk; reading returns exactly an interval of it; reopening loses
  nothing.  The database refines a map from series ids to timelines, and keeps it across a
  restart.  Every message is read back as it was made; a frame reaches its handler whole,
  however it is cut; the clients table stays consistent in every reachable state; a read is
  answered by pages that together are the interval.  At the top, any history of requests, by any
  clients in any order, is answered as the abstract timelines say (\<open>server_refines_service\<close>), and so
  are the commands of the client program over a network (\<open>ctl_write_then_read\<close>).  Compressed blocks
  are in the LZ4 format, within the documented bound, and are decompressed to what they were made of;
  the decoder has no access out of bounds on any input of two bytes or more; the block transfer
  delivers every block; the REST server answers every request once.  Other theorems state the
  faults the program has: each names an input on which it fails, and how.

  \<^bold>\<open>Bounds and fuel.\<close>  Integers are \<open>nat\<close> with \<open>u32\<close> and \<open>u64\<close> where the source is unsigned, \<open>int\<close> with
  \<open>s32\<close> where it is signed, timestamps are 64-bit words.  A loop whose length the data bounds has
  as much fuel as its caller knows it needs; \<open>read_loop\<close>, \<open>read_responses\<close> and \<open>from_csv_loop\<close> take
  it as an argument, and the theorems show that one round more than there are points is enough.
  The loops of \<^verbatim>\<open>lz4.c\<close> are given the length of the input, which is shown to suffice; the loops of the
  block transfer, which need not end, take fuel as an argument, and as many rounds as there are
  bytes or blocks, and one more, are enough where they do.
  Objects are assumed to be shorter than \<open>2 ^ 63\<close> bytes.

  \<^bold>\<open>Parameters.\<close>  libuv appears by the statuses of its calls and the sequence of its events, the
  kernel by the amounts \<^verbatim>\<open>send\<close> and \<^verbatim>\<open>recv\<close> transfer, \<^verbatim>\<open>getopt_long\<close> by the options it returns, the
  C library by the order \<^verbatim>\<open>qsort\<close> leaves equal points in and by its conversions of floating point
  numbers.  The build-time constants that the headers guard with \<^verbatim>\<open>#ifndef\<close> are parameters as well.

  \<^bold>\<open>Not modelled.\<close>  Freeing memory and running out of it, but for one allocation of the session; the
  log calls inside the components, which have no effect on their state; the rounding of elapsed
  times to \<^verbatim>\<open>float\<close>; the branch of \<^verbatim>\<open>socket_connect\<close> for macOS.  Of \<^verbatim>\<open>lz4.c\<close>, the
  streaming functions, compression with a dictionary and the variants for other machines than a
  little-endian one with 64-bit pointers.  Of the other prototypes, the stop watches and the client
  that fills the REST server with requests.  The tests and the C# and Python clients are not part of
  the program.
\<close>

section \<open>Properties\<close>

text \<open>
  C1: the server refines the service.  For every history of requests by its clients, in any
  order and from any of them, each allowed where it stands, the event loop succeeds; the store it
  leaves represents the timelines that the commands lead to one after the other, and every
  client has been sent exactly the answers to its own commands, in order.  The history may contain
  requests that are refused, reads of series that are not there and intervals that are empty.
\<close>

theorem server_refines_service:
  assumes "server_ok P sv" and "represents P m (handler_context sv) (A, N)"
    and "\<And>i. i \<in> fst ` set h \<Longrightarrow> \<exists>c. conn sv i = Some c \<and> buffer_length c = 0"
    and "all_allowed (permitted fuel P m) (service_step P m) (A, N) h"
  shows "\<exists>sv'. event_loop P (shakadb fuel P) sv (map (\<lambda>(i, q). request i (payload q)) h) = Inr sv' \<and> server_ok P sv' \<and>
           represents P m (handler_context sv') (final_state (service_step P m) (A, N) h) \<and>
           (\<forall>j c. conn sv j = Some c \<longrightarrow> (\<exists>c'. conn sv' j = Some c' \<and>
              sent c' = sent c @ replies (service_step P m) (\<lambda>s. answer P m (fst s)) (A, N) h j))"
  by (rule shaka.history [OF assms])

text \<open>A server with two clients that have sent nothing yet.\<close>

definition sample_server :: "store server" where
  "sample_server = (server_create sample_net 8487 (sample_files, sample_db))
     \<lparr>clients := [Some (client_create sample_net 0 0), Some (client_create sample_net 1 1), None, None],
      next_socket := 2\<rparr>"

lemma sample_server_simps:
  "handler_context sample_server = (sample_files, sample_db)"
  "conn sample_server 0 = Some (client_create sample_net 0 0)" "conn sample_server 1 = Some (client_create sample_net 1 1)"
  "buffer_length (client_create P s i) = 0" "sent (client_create P s i) = []"
  by (simp_all add: sample_server_def server_create_def conn_def client_create_def)

lemma sample_server_ok: "server_ok sample_net sample_server"
  by (auto simp: server_ok_def sample_server_def server_create_def conn_def client_create_def client_ok_def
      nth_Cons' split: if_splits)

definition sample_history :: "(nat \<times> command) list" where
  "sample_history = [(1, Read 7 0 30), (0, Write 7 16 [sample 15 3]), (1, ReadLatest 7), (0, Truncate 7), (1, Write 9 16 [sample 1 1])]"

lemma sample_represents: "represents sample_net 8 (handler_context sample_server) (sample_map, 64)"
proof -
  have "length (contents sample_inode) = 64"
    using length_concat_slots [of 16 "[sample 10 1, sample 20 2]" 4] by (simp add: sample_inode_def)
  then show ?thesis
    using sample_db_rep by (simp add: represents_def sample_server_simps sample_db_simps files_within_def sample_files_def)
qed

theorem server_refines_service_witness:
  "\<exists>sv'. event_loop sample_net (shakadb 9 sample_net) sample_server (map (\<lambda>(i, q). request i (payload q)) sample_history) = Inr sv' \<and>
     server_ok sample_net sv' \<and>
     represents sample_net 8 (handler_context sv') (final_state (service_step sample_net 8) (sample_map, 64) sample_history) \<and>
     (\<forall>j c. conn sample_server j = Some c \<longrightarrow> (\<exists>c'. conn sv' j = Some c' \<and>
        sent c' = sent c @ replies (service_step sample_net 8) (\<lambda>s. answer sample_net 8 (fst s)) (sample_map, 64) sample_history j))"
proof (rule server_refines_service [OF sample_server_ok sample_represents])
  show "\<exists>c. conn sample_server i = Some c \<and> buffer_length c = 0" if "i \<in> fst ` set sample_history" for i
    using that sample_server_simps by (auto simp: sample_history_def)
  show "all_allowed (permitted 9 sample_net 8) (service_step sample_net 8) (sample_map, 64) sample_history"
    by (simp add: sample_history_def permitted_def service_step_def sample_map_def timeline_of_def growth_def)
qed

text \<open>
  A write request and then a read request, sent by any two clients of the server (or by one),
  end to end: the writer is answered OK, and the reader gets, as a stream of responses closed by
  an empty one, exactly the points of the interval in the series overridden by the batch.
\<close>

lemma write_then_read:
  assumes "platform_ok P" and "\<And>k. uv_write_status P k \<ge> 0" and "packet_max_len P < 2 ^ 32" and "29 \<le> packet_max_len P"
    and "read_max_payload P < 2 ^ 32" and "server_ok P sv" and "handler_context sv = (fs, db)" and "db_rep fs db A"
    and "conn sv i = Some c" and "buffer_length c = 0" and "conn sv j = Some d" and "buffer_length d = 0"
    and "sid < 2 ^ 32" and "8 \<le> ps" and "ps < 2 ^ 32" and "all_len ps bs" and "db_accepts P fs db A sid ps bs"
    and "25 + length (concat bs) \<le> packet_max_len P"
    and "b \<le> e" and "length bs + length (timeline_of A sid) < fuel"
  shows "\<exists>sv' d' cs' pages.
           event_loop P (shakadb fuel P) sv [request i (write_payload sid ps bs), request j (read_request_create sid b e)] = Inr sv' \<and>
           server_ok P sv' \<and> conn sv' j = Some d' \<and>
           sent d' = sent d @ (if i = j then [packet_create (simple_response_create SDB_RESPONSE_OK)] else [])
                       @ map (response_frame ps) (pages @ [[]]) \<and>
           concat pages = window b e cs' \<and> strict cs' \<and>
           pmap cs' = pmap (timeline_of A sid) ++ last_wins (qsort P point_cmp bs)"
proof -
  let ?cs = "merge_pts (prepared P bs) (timeline_of A sid)"
  obtain sv1 fs1 db1 c1 where e1: "handle_event P (shakadb fuel P) sv (request i (write_payload sid ps bs)) = Inr sv1"
    and sv1: "server_ok P sv1" "handler_context sv1 = (fs1, db1)" "db_rep fs1 db1 (A(sid \<mapsto> (ps, ?cs)))"
    and c1: "conn sv1 = (conn sv)(i \<mapsto> c1)" "buffer_length c1 = 0"
      "sent c1 = sent c @ [packet_create (simple_response_create SDB_RESPONSE_OK)]"
    using write_event [OF assms(1-3,6-10,13-18)] by blast
  obtain d1 where d1: "conn sv1 j = Some d1" "buffer_length d1 = 0"
      "sent d1 = sent d @ (if i = j then [packet_create (simple_response_create SDB_RESPONSE_OK)] else [])"
    using c1 assms(9,11,12) by (cases "i = j") auto
  note Q = prepared_props [OF platform_ok_qsort [OF assms(1)], where bs = bs]
  have "length (window b e ?cs) \<le> length ?cs" unfolding window_def by (rule length_filter_le)
  also have "\<dots> \<le> length bs + length (timeline_of A sid)"
    using length_merge_pts_le [of "prepared P bs" "timeline_of A sid"] Q(2) by linarith
  finally have fuel: "length (window b e ?cs) < fuel" using assms(20) by linarith
  have at: "(A(sid \<mapsto> (ps, ?cs))) sid = Some (ps, ?cs)" by simp
  obtain sv2 d2 pages where e2: "handle_event P (shakadb fuel P) sv1 (request j (read_request_create sid b e)) = Inr sv2"
    and sv2: "server_ok P sv2" "conn sv2 = (conn sv1)(j \<mapsto> d2)"
      "sent d2 = sent d1 @ map (response_frame ps) (pages @ [[]])" "concat pages = window b e ?cs"
    using read_event [OF assms(1-5) sv1 d1(1,2) at assms(13,19) fuel] by blast
  have "pmap ?cs = pmap (timeline_of A sid) ++ last_wins (qsort P point_cmp bs)"
    using merged_map [OF assms(1,8)] .
  moreover have "strict ?cs" using strict_merge_pts [OF Q(1) timeline_of_rep(1) [OF assms(8)]] .
  moreover have "event_loop P (shakadb fuel P) sv [request i (write_payload sid ps bs), request j (read_request_create sid b e)] = Inr sv2"
    using e1 e2 by (simp del: handle_event.simps)
  ultimately show ?thesis
    using sv2 d1(3) by (intro exI [of _ sv2] exI [of _ d2] exI [of _ ?cs] exI [of _ pages]) simp
qed

lemma write_then_read_example:
  "\<exists>sv' d' cs' pages.
     event_loop sample_net (shakadb 9 sample_net) sample_server
       [request 0 (write_payload 7 16 [sample 15 3]), request 1 (read_request_create 7 0 30)] = Inr sv' \<and>
     server_ok sample_net sv' \<and> conn sv' 1 = Some d' \<and>
     sent d' = sent (client_create sample_net 1 1)
       @ (if (0 :: nat) = 1 then [packet_create (simple_response_create SDB_RESPONSE_OK)] else [])
       @ map (response_frame 16) (pages @ [[]]) \<and>
     concat pages = window 0 30 cs' \<and> strict cs' \<and>
     pmap cs' = pmap (timeline_of sample_map 7) ++ last_wins (qsort sample_net point_cmp [sample 15 3])"
proof (rule write_then_read [OF _ _ _ _ _ sample_server_ok _ sample_db_rep sample_server_simps(2,4,3,4)])
  show "length [sample 15 3] + length (timeline_of sample_map 7) < 9" by (simp add: timeline_of_def sample_map_def)
qed (simp_all add: sample_server_simps sample_accepts)

text \<open>
  C2: the two programs together.  The client writes the points on its standard input, over a
  network that cuts the stream at will, and then reads an interval of the series: both commands
  succeed, and what the second prints is exactly the bytes of the points of the interval, of the
  series overridden by what was written.
\<close>

theorem ctl_write_then_read:
  assumes "\<And>k n. 0 < n \<Longrightarrow> 0 < sc k n \<and> sc k n \<le> int n" and "\<And>k n. 0 < n \<Longrightarrow> 0 < rc k n \<and> rc k n \<le> int n"
    and "platform_ok P" and "\<And>k. uv_write_status P k \<ge> 0" and "packet_max_len P < 2 ^ 32" and "29 \<le> packet_max_len P"
    and "read_max_payload P < 2 ^ 30" and "attached P ss c (fs, db)" and "\<not> read_open ss" and "db_rep fs db A"
    and "cfg_series_id config = sid" and "cfg_point_size config = ps" and "data_type config \<noteq> 0"
    and "cfg_begin config \<le> cfg_end config"
    and "sid < 2 ^ 32" and "8 \<le> ps" and "ps \<le> 655" and "all_len ps bs" and "bs \<noteq> []" and "length bs < points_size"
    and "db_accepts P fs db A sid ps bs" and "25 + length (concat bs) \<le> packet_max_len P"
    and "stdin con = concat bs" and "\<not> at_eof con" and "length bs + length (timeline_of A sid) < fuel"
  shows "\<exists>ss1 con1 ss2 con2 cs'.
           execute_write (server_wire fuel P sc rc) config ss con = Inr (0, ss1, con1) \<and>
           execute_read fuel (server_wire fuel P sc rc) config ss1 con1 = Inr (0, ss2, con2) \<and>
           stdout con2 = stdout con1 @ concat (window (cfg_begin config) (cfg_end config) cs') \<and> strict cs' \<and>
           pmap cs' = pmap (timeline_of A sid) ++ last_wins (qsort P point_cmp bs)"
proof -
  let ?W = "server_wire fuel P sc rc" and ?cs = "merge_pts (prepared P bs) (timeline_of A sid)"
  have T: "transport ?W" using assms(1,2) by unfold_locales (simp_all add: server_wire_def)
  obtain ss1 con1 c1 fs1 db1 where w: "execute_write ?W config ss con = Inr (0, ss1, con1)"
    and s1: "attached P ss1 c1 (fs1, db1)" "\<not> read_open ss1" "db_rep fs1 db1 (A(sid \<mapsto> (ps, ?cs)))"
    using execute_write_ok [OF T assms(3-5,8-13,15-24)] by blast
  have at: "(A(sid \<mapsto> (ps, ?cs))) sid = Some (ps, ?cs)" and ps: "ps < 2 ^ 30" using assms(17) by simp_all
  note Q = prepared_props [OF platform_ok_qsort [OF assms(3)], where bs = bs]
  have "length (window (cfg_begin config) (cfg_end config) ?cs) \<le> length ?cs" unfolding window_def by (rule length_filter_le)
  also have "\<dots> \<le> length bs + length (timeline_of A sid)"
    using length_merge_pts_le [of "prepared P bs" "timeline_of A sid"] Q(2) by linarith
  finally have f: "length (window (cfg_begin config) (cfg_end config) ?cs) < fuel" using assms(25) by linarith
  obtain ss2 con2 where "execute_read fuel ?W config ss1 con1 = Inr (0, ss2, con2)"
    "stdout con2 = stdout con1 @ concat (window (cfg_begin config) (cfg_end config) ?cs)"
    using execute_read_ok [OF T assms(3-7) s1 assms(11,15,14) at ps f f, of con1] by blast
  with w merged_map [OF assms(3,10)] strict_merge_pts [OF Q(1) timeline_of_rep(1) [OF assms(10)]] show ?thesis by blast
qed

definition sample_session :: "served session" where
  "sample_session = \<lparr>link = \<lparr>peer = (Keep, client_create sample_net 0 0, sample_files, sample_db), taken = 0, sends = 0,
     recvs = 0, is_open = True\<rparr>, read_response = None, read_open = False\<rparr>"

lemma sample_session_simps:
  "attached sample_net sample_session (client_create sample_net 0 0) (sample_files, sample_db)" "\<not> read_open sample_session"
  by (simp_all add: attached_def sample_session_def idle_def client_create_def)

theorem ctl_write_then_read_witness:
  "\<exists>ss1 con1 ss2 con2 cs'.
     execute_write (server_wire 9 sample_net (segment 2) (segment 4)) (sample_config SDB_TYPE_INT64 16) sample_session
       (sample_console (concat [sample 15 3])) = Inr (0, ss1, con1) \<and>
     execute_read 9 (server_wire 9 sample_net (segment 2) (segment 4)) (sample_config SDB_TYPE_INT64 16) ss1 con1
       = Inr (0, ss2, con2) \<and>
     stdout con2 = stdout con1 @ concat (window (cfg_begin (sample_config SDB_TYPE_INT64 16))
       (cfg_end (sample_config SDB_TYPE_INT64 16)) cs') \<and> strict cs' \<and>
     pmap cs' = pmap (timeline_of sample_map 7) ++ last_wins (qsort sample_net point_cmp [sample 15 3])"
proof (rule ctl_write_then_read [where sid = 7 and ps = 16 and bs = "[sample 15 3]", OF _ _ _ _ _ _ _ sample_session_simps sample_db_rep])
  show "length [sample 15 3] + length (timeline_of sample_map 7) < 9" by (simp add: timeline_of_def sample_map_def)
qed (simp_all add: segment_def sample_config_def sample_accepts data_types points_size_def)

text \<open>
  C25: every state the server reaches from its creation, whatever connections, data, errors and
  shutdowns the loop delivers, keeps the clients table consistent: a client is in the place its
  index names, with a receive buffer of full size and no more data than that, on a handle of its
  own that is not being closed.
\<close>

theorem reachable_server_ok:
  assumes "reachable P (shakadb fuel P) (server_create P p (fs, db)) sv"
    and "packet_max_len P + SDB_SERVER_READ_BUFFER_MAX_LEN < 2 ^ 63"
  shows "server_ok P sv"
  using messages.reachable_ok [OF assms(1) server_create_ok assms(2)] .

theorem reachable_server_ok_witness: "server_ok sample_net (server_stop (server_create sample_net 8487 (sample_files, sample_db)))"
proof (rule reachable_server_ok [where p = 8487 and fs = sample_files and db = sample_db and fuel = 0])
  show "reachable sample_net (shakadb 0 sample_net) (server_create sample_net 8487 (sample_files, sample_db))
      (server_stop (server_create sample_net 8487 (sample_files, sample_db)))"
    by (rule reach_step [OF reach_start, where e = StopRequest]) simp
qed (simp add: SDB_SERVER_READ_BUFFER_MAX_LEN_def)

text \<open>
  A frame whose header says that its total size is 0, with a write request for a series beyond
  the table and as many points as make the size the server computes for the payload valid.
\<close>

definition zero_frame :: bytes where
  "zero_frame = le_enc 4 SDB_SERVER_MAGIC @ le_enc 4 0 @ write_header_bytes (2 ^ 32 - 1) (2 ^ 32 - 25) 1"

lemma length_zero_frame [simp]: "length zero_frame = 25"
  by (simp add: zero_frame_def del: le_enc.simps)

lemma zero_frame_accepted:
  assumes "max_series_count db < 2 ^ 32" and "take 25 (buffer c) = zero_frame"
  shows "\<exists>c2. shakadb fuel P c (Ptr 8) (u32 (u64_sub 0 8)) (fs, db) = Inr (0, c2, fs, db) \<and>
           buffer c2 = buffer c \<and> buffer_length c2 = buffer_length c"
proof -
  let ?h = "write_header_bytes (2 ^ 32 - 1) (2 ^ 32 - 25) 1"
  have "buffer c = take 25 (buffer c) @ drop 25 (buffer c)" by simp
  then have b: "buffer c = (le_enc 4 SDB_SERVER_MAGIC @ le_enc 4 0) @ ?h @ drop 25 (buffer c)"
    unfolding assms(2) zero_frame_def by (simp del: le_enc.simps)
  have req: "request_in c ?h"
    unfolding request_in_def
    by (rule exI [of _ "le_enc 4 SDB_SERVER_MAGIC @ le_enc 4 0"], rule exI [of _ "drop 25 (buffer c)"])
      (rule conjI [OF _ b], simp del: le_enc.simps)
  obtain hdr rest where sh: "\<And>sz. payload_validate (buffer c) (Ptr 8) sz = payload_validate (?h @ rest) (Ptr 0) sz"
      "payload_type (buffer c) (Ptr 8) = payload_type (?h @ rest) (Ptr 0)"
      "\<And>r. write_request_at (?h @ rest) (Ptr 0) = Inr r \<Longrightarrow> write_request_at (buffer c) (Ptr 8) = Inr (r\<lparr>wr_points := Ptr 25\<rparr>)"
    using request_inE [OF req] by metis
  have u: "u32 (u64_sub 0 8) = 2 ^ 32 - 8" by (simp add: u64_sub_def u32_def)
  have v: "payload_validate (buffer c) (Ptr 8) (2 ^ 32 - 8) = Inr True"
    unfolding sh(1) by (subst write_validate) (simp_all add: u64_def)
  have ty: "payload_type (buffer c) (Ptr 8) = Inr SDB_WRITE_REQUEST" unfolding sh(2) by (rule header_types(1))
  have at: "write_request_at (buffer c) (Ptr 8) = Inr \<lparr>wr_series_id = 2 ^ 32 - 1, wr_points_count = 2 ^ 32 - 25,
      wr_point_size = 1, wr_points = Ptr 25\<rparr>"
    using sh(3) write_header [of "2 ^ 32 - 1" "2 ^ 32 - 25" 1 SDB_WRITE_REQUEST rest, folded write_header_bytes_def] by simp
  have w: "database_write P fs db (2 ^ 32 - 1) l m = Inr (- 1, fs, db, l, m)" for l m
    using assms(1) by (simp add: database_write_def database_get_or_create_data_series_def)
  define c2 where "c2 = snd (send_and_destroy P (c\<lparr>buffer := buffer c\<rparr>) (simple_response_create SDB_RESPONSE_ERROR))"
  have "handle_write P c (Ptr 8) (fs, db) = Inr (c2, fs, db)"
    using at w by (simp add: handle_write_def c2_def Let_def)
  then have "shakadb fuel P c (Ptr 8) (u32 (u64_sub 0 8)) (fs, db) = Inr (0, c2, fs, db)"
    unfolding u using v ty by (simp add: client_handler_process_message_def packet_types)
  moreover have "buffer c2 = buffer c \<and> buffer_length c2 = buffer_length c"
    using client_send_keeps [of P c "simple_response_create SDB_RESPONSE_ERROR"] unfolding c2_def send_and_destroy_def
    by (metis prod.collapse client.surjective client.update_convs(3))
  ultimately show ?thesis by blast
qed

text \<open>The data behind such a frame stays in the buffer, and so does the frame.\<close>

lemma zero_frame_kept:
  assumes c: "buffer_length c \<le> length (buffer c)" "length (buffer c) < 2 ^ 63" "d \<noteq> []"
      "buffer_length c + length d \<le> length (buffer c)"
    and z: "take 25 (stream c @ d) = zero_frame" and db: "max_series_count db < 2 ^ 32"
  shows "\<exists>c'. data_received P (shakadb fuel P) c d (fs, db) = Inr (Keep, c', fs, db) \<and>
           stream c' = stream c @ d \<and> buffer_length c' = buffer_length c + length d \<and> length (buffer c') = length (buffer c)"
proof -
  define b where "b = stream c @ d"
  let ?r = "received c d"
  have lb: "25 \<le> length b" using z length_zero_frame unfolding b_def [symmetric] by (metis length_take min.cobounded1)
  have br: "buffer ?r = b @ drop (buffer_length c + length d) (buffer c)" by (simp add: received_def b_def)
  then have "take 25 (buffer ?r) = zero_frame" using z lb by (simp add: b_def)
  then obtain c2 where run: "shakadb fuel P ?r (Ptr 8) (u32 (u64_sub 0 8)) (fs, db) = Inr (0, c2, fs, db)"
    and c2: "buffer c2 = buffer ?r" "buffer_length c2 = buffer_length ?r"
    using zero_frame_accepted [OF db] by blast
  have "take 4 b = take 4 (take 25 b)" "take 4 (drop 4 b) = take 4 (drop 4 (take 25 b))" by (simp_all add: drop_take)
  then have dec: "le_dec (take 4 b) = SDB_SERVER_MAGIC" "le_dec (take 4 (drop 4 b)) = 0"
    using z magic_dec le4.dec_enc [of 0] unfolding b_def [symmetric] by (simp_all add: zero_frame_def del: le_enc.simps)
  have pk: "packet_at (buffer c2) (Ptr 0) = Inr \<lparr>magic = SDB_SERVER_MAGIC, total_size = 0\<rparr>"
    unfolding c2 br using packet_at_prefix [of b] lb dec by simp
  have bl: "buffer_length ?r = length b" "length b \<le> length (buffer ?r)" "length (buffer ?r) = length (buffer c)"
    using c by (simp_all add: received_def b_def stream_def)
  have left: "u64_sub (length b) 0 = length b" using u64_sub_le [of 0 "length b"] bl c(2) by simp
  have copy: "memcpy (buffer c2) (Ptr 0) (Ptr 0) (length b) = Inr (buffer ?r)"
    using bl lb c2 by (cases b) (auto simp: memcpy_def memmove_def load_def store_def)
  have "data_received P (shakadb fuel P) c d (fs, db) = Inr (Keep, c2\<lparr>buffer := buffer ?r, buffer_length := length b\<rparr>, fs, db)"
    unfolding data_received_unfold [OF c b_def] dec using lb run pk copy left c2 bl
    by (cases "b = []") (simp_all add: Let_def)
  moreover have "stream (c2\<lparr>buffer := buffer ?r, buffer_length := length b\<rparr>) = b" by (simp add: stream_def br)
  moreover have "length b = buffer_length c + length d" using bl(1) by (simp add: received_def)
  ultimately show ?thesis using bl by (simp add: b_def)
qed

text \<open>
  C31: the receive buffer can be overrun.  After a frame whose header claims the total size 0, and
  which the request handler answers with an error, nothing is ever removed from the buffer, and
  the data that follows is copied behind its end.
\<close>

theorem zero_size_frame_overruns:
  assumes "buffer_length c \<le> length (buffer c)" and "length (buffer c) < 2 ^ 63" and "take 25 (stream c) = zero_frame"
    and "\<forall>d\<in>set ds. d \<noteq> []" and "length (buffer c) < buffer_length c + length (concat ds)"
    and "max_series_count db < 2 ^ 32"
  shows "feed P (shakadb fuel P) c ds (fs, db) = Inl OutOfBounds"
  using assms(1-5)
proof (induction ds arbitrary: c)
  case (Cons d ds)
  have d: "d \<noteq> []" using Cons.prems(4) by simp
  show ?case
  proof (cases "buffer_length c + length d \<le> length (buffer c)")
    case True
    have "length (take 25 (stream c)) = 25" unfolding Cons.prems(3) by (rule length_zero_frame)
    then have "25 \<le> length (stream c)" by simp
    then have "take 25 (stream c @ d) = zero_frame" using Cons.prems(3) by simp
    then obtain c' where "data_received P (shakadb fuel P) c d (fs, db) = Inr (Keep, c', fs, db)"
      and c': "stream c' = stream c @ d" "buffer_length c' = buffer_length c + length d" "length (buffer c') = length (buffer c)"
        "take 25 (stream c @ d) = zero_frame"
      using zero_frame_kept [OF Cons.prems(1,2) d True _ assms(6)] by blast
    then show ?thesis using Cons.IH [of c'] Cons.prems True by simp
  next
    case False
    then show ?thesis using d by (simp add: data_received_def store_def)
  qed
qed simp

theorem zero_size_frame_overruns_witness:
  "feed sample_net (shakadb 0 sample_net)
     (idle_client\<lparr>buffer := zero_frame, buffer_length := 25\<rparr>) [[1, 2, 3]] (sample_files, sample_db) = Inl OutOfBounds"
  by (rule zero_size_frame_overruns) (simp_all add: stream_def sample_db_simps)

end
